(* ===== verification/Rdb_Prelude.thy ===== *)
theory Rdb_Prelude
  imports Main "HOL-Library.Word" "HOL-Library.Char_ord" "HOL-Library.List_Lexorder"
    "HOL-Library.Sublist"
begin

text \<open>
  Shared vocabulary of the RefineDB development: bytes and byte strings, the
  outcome type in which a Rust \<^verbatim>\<open>Result\<close>, a panic and an exhausted model bound
  are told apart, the loop combinators that the components use for
  \<^verbatim>\<open>for\<close>-loops with \<^verbatim>\<open>?\<close> and for \<^verbatim>\<open>collect::<Result<_>>()\<close>, and generic facts
  about the lexicographic order on byte strings.
\<close>

section \<open>Bytes\<close>

type_synonym byte = "8 word"
type_synonym bytes = "byte list"

text \<open>
  A Rust \<^verbatim>\<open>String\<close> is its UTF-8 byte sequence; a \<^typ>\<open>string\<close> of the model is that
  sequence with one \<^typ>\<open>char\<close> per byte, and \<open>as_bytes\<close> is the view as bytes.
\<close>

definition as_bytes :: "string \<Rightarrow> bytes" where
  "as_bytes s = map (\<lambda>c. of_char c) s"

section \<open>Outcomes\<close>

text \<open>
  \<open>Err e\<close> is a returned error, \<open>Panic m\<close> a Rust panic (failed \<^verbatim>\<open>unwrap\<close>,
  \<^verbatim>\<open>assert\<close>, \<^verbatim>\<open>unreachable!\<close>, index out of bounds), and \<open>OutOfFuel\<close> says that the
  bound of the model was too small for the run; it is no behaviour of the program.
\<close>

datatype 'e fault = Err 'e | Panic string | OutOfFuel

type_synonym ('e, 'a) outcome = "'e fault + 'a"

definition bindR :: "('e, 'a) outcome \<Rightarrow> ('a \<Rightarrow> ('e, 'b) outcome) \<Rightarrow> ('e, 'b) outcome" where
  "bindR m f = (case m of Inl e \<Rightarrow> Inl e | Inr x \<Rightarrow> f x)"

definition ok_or :: "'e \<Rightarrow> 'a option \<Rightarrow> ('e, 'a) outcome" where
  "ok_or e x = (case x of None \<Rightarrow> Inl (Err e) | Some y \<Rightarrow> Inr y)"

definition unwrap :: "string \<Rightarrow> 'a option \<Rightarrow> ('e, 'a) outcome" where
  "unwrap m x = (case x of None \<Rightarrow> Inl (Panic m) | Some y \<Rightarrow> Inr y)"

text \<open>A \<^verbatim>\<open>for\<close>-loop whose body may leave with \<^verbatim>\<open>?\<close> or \<^verbatim>\<open>return Err(..)\<close>.\<close>

definition fails_only :: "('e fault \<Rightarrow> bool) \<Rightarrow> ('e, 'a) outcome \<Rightarrow> bool" where
  "fails_only Q r \<longleftrightarrow> (\<forall>f. r = Inl f \<longrightarrow> Q f)"

fun is_Err :: "'e fault \<Rightarrow> bool" where
  "is_Err (Err _) = True"
| "is_Err _ = False"

abbreviation settled :: "('e, 'a) outcome \<Rightarrow> bool" where
  "settled \<equiv> fails_only is_Err"

definition fuel_le :: "('e, 'a) outcome \<Rightarrow> ('e, 'a) outcome \<Rightarrow> bool" where
  "fuel_le r r' \<longleftrightarrow> r = Inl OutOfFuel \<or> r = r'"

fun option_mapR :: "('a \<Rightarrow> ('e, 'b) outcome) \<Rightarrow> 'a option \<Rightarrow> ('e, 'b option) outcome" where
  "option_mapR f None = Inr None"
| "option_mapR f (Some x) = bindR (f x) (\<lambda>y. Inr (Some y))"

fun foldR :: "('s \<Rightarrow> 'a \<Rightarrow> ('e, 's) outcome) \<Rightarrow> 's \<Rightarrow> 'a list \<Rightarrow> ('e, 's) outcome" where
  "foldR f s [] = Inr s"
| "foldR f s (x # xs) = bindR (f s x) (\<lambda>s'. foldR f s' xs)"

text \<open>\<^verbatim>\<open>iter().map(f).collect::<Result<Vec<_>>>()\<close>.\<close>

fun mapR :: "('a \<Rightarrow> ('e, 'b) outcome) \<Rightarrow> 'a list \<Rightarrow> ('e, 'b list) outcome" where
  "mapR f [] = Inr []"
| "mapR f (x # xs) = bindR (f x) (\<lambda>y. bindR (mapR f xs) (\<lambda>ys. Inr (y # ys)))"

text \<open>The same when the mapped function mutates a state.\<close>

fun mapSR :: "('a \<Rightarrow> 's \<Rightarrow> ('e, 'b \<times> 's) outcome) \<Rightarrow> 'a list \<Rightarrow> 's \<Rightarrow> ('e, 'b list \<times> 's) outcome"
  where
  "mapSR f [] s = Inr ([], s)"
| "mapSR f (x # xs) s =
     bindR (f x s) (\<lambda>(y, s1). bindR (mapSR f xs s1) (\<lambda>(ys, s2). Inr (y # ys, s2)))"

text \<open>\<^verbatim>\<open>find_map\<close> and the indexed reads of Rust slices.\<close>

fun find_map :: "('a \<Rightarrow> 'b option) \<Rightarrow> 'a list \<Rightarrow> 'b option" where
  "find_map f [] = None"
| "find_map f (x # xs) = (case f x of Some y \<Rightarrow> Some y | None \<Rightarrow> find_map f xs)"

definition nth_opt :: "'a list \<Rightarrow> nat \<Rightarrow> 'a option" where
  "nth_opt xs i = (if i < length xs then Some (xs ! i) else None)"

text \<open>\<^verbatim>\<open>join(sep)\<close> on a vector of strings.\<close>

fun join :: "string \<Rightarrow> string list \<Rightarrow> string" where
  "join sep [] = []"
| "join sep [x] = x"
| "join sep (x # y # ys) = x @ sep @ join sep (y # ys)"

text \<open>\<^verbatim>\<open>util.rs\<close>: the first element that occurs a second time.\<close>

fun first_duplicate_from :: "'a list \<Rightarrow> 'a list \<Rightarrow> 'a option" where
  "first_duplicate_from uniq [] = None"
| "first_duplicate_from uniq (x # xs) =
     (if x \<in> set uniq then Some x else first_duplicate_from (x # uniq) xs)"

definition first_duplicate :: "'a list \<Rightarrow> 'a option" where
  "first_duplicate xs = first_duplicate_from [] xs"

section \<open>Collections\<close>

named_theorems outcome_simps "how the outcome combinators compute"
named_theorems outcome_elims "what a successful outcome says"

section \<open>Facts about outcomes\<close>

lemma bindR_simps [simp, outcome_simps]:
  "bindR (Inl e) f = Inl e" "bindR (Inr x) f = f x"
  by (simp_all add: bindR_def)

lemma bindR_Inr_iff: "bindR m f = Inr y \<longleftrightarrow> (\<exists>x. m = Inr x \<and> f x = Inr y)"
  by (cases m) auto

lemma bindR_InrE [elim!, outcome_elims]:
  assumes "bindR m f = Inr y"
  obtains x where "m = Inr x" "f x = Inr y"
  using assms by (auto simp: bindR_Inr_iff)

lemma bindR_Inl_iff: "bindR m f = Inl e \<longleftrightarrow> m = Inl e \<or> (\<exists>x. m = Inr x \<and> f x = Inl e)"
  by (cases m) auto

lemma bindR_cong [fundef_cong]:
  "m = m' \<Longrightarrow> (\<And>x. m' = Inr x \<Longrightarrow> f x = g x) \<Longrightarrow> bindR m f = bindR m' g"
  by (cases m') auto

lemma ok_or_simps [simp, outcome_simps]:
  "ok_or e None = Inl (Err e)" "ok_or e (Some x) = Inr x"
  by (simp_all add: ok_or_def)

lemma ok_or_Inr_iff [simp]: "ok_or e m = Inr x \<longleftrightarrow> m = Some x"
  by (cases m) auto

lemma unwrap_simps [simp, outcome_simps]:
  "unwrap e None = Inl (Panic e)" "unwrap e (Some x) = Inr x"
  by (simp_all add: unwrap_def)

lemma unwrap_Inr_iff [simp]: "unwrap e m = Inr x \<longleftrightarrow> m = Some x"
  by (cases m) auto

text \<open>The proof rule for loops: an invariant that every successful body keeps.\<close>

lemma foldR_invariant:
  assumes "foldR f s xs = Inr t" "P s"
    and "\<And>s x s'. P s \<Longrightarrow> x \<in> set xs \<Longrightarrow> f s x = Inr s' \<Longrightarrow> P s'"
  shows "P t"
  using assms
proof (induction xs arbitrary: s)
  case (Cons x xs)
  from Cons.prems(1) obtain s' where s': "f s x = Inr s'" "foldR f s' xs = Inr t" by auto
  have "P s'" using Cons.prems(3) [OF Cons.prems(2) _ s'(1)] by simp
  from s'(2) this show ?case
    by (rule Cons.IH) (metis Cons.prems(3) list.set_intros(2))
qed simp

lemma foldR_each: "foldR f s xs = Inr t \<Longrightarrow> x \<in> set xs \<Longrightarrow> \<exists>s' s''. f s' x = Inr s''"
  by (induction xs arbitrary: s) auto

lemma foldR_append:
  "foldR f s (xs @ ys) = bindR (foldR f s xs) (\<lambda>t. foldR f t ys)"
proof (induction xs arbitrary: s)
  case (Cons x xs)
  then show ?case by (cases "f s x") auto
qed simp

lemma foldR_cong [fundef_cong]:
  "s = s' \<Longrightarrow> xs = ys \<Longrightarrow> (\<And>s x. x \<in> set ys \<Longrightarrow> f s x = g s x) \<Longrightarrow> foldR f s xs = foldR g s' ys"
proof (induction xs arbitrary: s s' ys)
  case (Cons x xs)
  then show ?case by (cases "g s x") (auto intro!: bindR_cong)
qed simp

lemma mapR_Inr_iff: "mapR f xs = Inr ys \<longleftrightarrow> list_all2 (\<lambda>x y. f x = Inr y) xs ys"
proof (induction xs arbitrary: ys)
  case (Cons x xs)
  then show ?case by (cases ys) (auto simp: bindR_Inr_iff)
qed auto

lemma mapR_cong [fundef_cong]:
  "xs = ys \<Longrightarrow> (\<And>x. x \<in> set ys \<Longrightarrow> f x = g x) \<Longrightarrow> mapR f xs = mapR g ys"
  by (induction xs arbitrary: ys) (auto intro!: bindR_cong)

lemma mapSR_invariant:
  assumes "mapSR f xs s = Inr (ys, t)" "P s"
    and "\<And>s x y s'. P s \<Longrightarrow> x \<in> set xs \<Longrightarrow> f x s = Inr (y, s') \<Longrightarrow> P s'"
  shows "P t"
  using assms
proof (induction xs arbitrary: s ys)
  case (Cons x xs)
  from Cons.prems(1) obtain y s1 zs
    where s1: "f x s = Inr (y, s1)" "mapSR f xs s1 = Inr (zs, t)"
    by (auto split: prod.splits)
  have "P s1" using Cons.prems(3) [OF Cons.prems(2) _ s1(1)] by simp
  from s1(2) this show ?case
    by (rule Cons.IH) (metis Cons.prems(3) list.set_intros(2))
qed simp

lemma option_mapR_cong [fundef_cong]:
  "x = y \<Longrightarrow> (\<And>z. z \<in> set_option y \<Longrightarrow> f z = g z) \<Longrightarrow> option_mapR f x = option_mapR g y"
  by (cases y) simp_all

lemma mapSR_cong [fundef_cong]:
  "xs = ys \<Longrightarrow> s = s' \<Longrightarrow> (\<And>x s. x \<in> set ys \<Longrightarrow> f x s = g x s) \<Longrightarrow> mapSR f xs s = mapSR g ys s'"
  by (induction xs arbitrary: s s' ys) (auto intro!: bindR_cong split: prod.splits)

lemma length_mapSR: "mapSR f xs s = Inr (ys, t) \<Longrightarrow> length ys = length xs"
  by (induction xs arbitrary: s ys) (auto split: prod.splits)

lemma nth_opt_Some_iff [simp]: "nth_opt xs i = Some x \<longleftrightarrow> i < length xs \<and> xs ! i = x"
  by (auto simp: nth_opt_def)

lemma nth_opt_None_iff [simp]: "nth_opt xs i = None \<longleftrightarrow> length xs \<le> i"
  by (auto simp: nth_opt_def)

lemma find_map_Some:
  "find_map f xs = Some y \<Longrightarrow> \<exists>x \<in> set xs. f x = Some y"
  by (induction xs) (auto split: option.splits)

section \<open>Facts about duplicates\<close>

lemma first_duplicate_from_None:
  "first_duplicate_from u xs = None \<longleftrightarrow> distinct xs \<and> set xs \<inter> set u = {}"
  by (induction u xs rule: first_duplicate_from.induct) auto

lemma first_duplicate_None [simp]: "first_duplicate xs = None \<longleftrightarrow> distinct xs"
  by (simp add: first_duplicate_def first_duplicate_from_None)

section \<open>Facts about byte strings and their order\<close>

lemma unat_of_char: "unat (of_char c :: byte) = of_char c"
proof -
  have "(of_char c :: byte) = word_of_nat (of_char c)" by (simp only: of_nat_of_char)
  moreover have "of_char c < (256 :: nat)" using of_char_mod_256 [of c, where 'a = nat]
    by (metis mod_less_divisor zero_less_numeral)
  ultimately show ?thesis by (simp add: unat_of_nat)
qed

lemma as_bytes_inject [simp]: "as_bytes s = as_bytes t \<longleftrightarrow> s = t"
proof -
  have "inj (\<lambda>c::char. of_char c :: byte)"
    by (rule injI) (metis unat_of_char of_char_eq_iff)
  then show ?thesis by (auto simp: as_bytes_def dest: map_injective)
qed

lemma as_bytes_append [simp]: "as_bytes (s @ t) = as_bytes s @ as_bytes t"
  by (simp add: as_bytes_def)

lemma less_append_same [simp]:
  fixes xs ys zs :: "'a::linorder list"
  shows "xs @ ys < xs @ zs \<longleftrightarrow> ys < zs" "xs @ ys \<le> xs @ zs \<longleftrightarrow> ys \<le> zs"
  by (induction xs) auto

lemma prefix_le: "prefix xs ys \<Longrightarrow> xs \<le> (ys :: 'a::linorder list)"
  using less_append_same(2) [of xs "[]"] by (auto simp: prefix_def)

text \<open>
  The half-open interval from \<open>p @ [b]\<close> to \<open>p @ [b + 1]\<close> is exactly the set of
  strings that extend \<open>p @ [b]\<close>: the scan range that the executor builds by
  incrementing the last byte of a prefix.
\<close>

lemma byte_succ_less:
  fixes b c :: byte
  assumes "b \<noteq> 255"
  shows "c < b + 1 \<longleftrightarrow> c \<le> b"
  using assms by unat_arith (simp add: less_Suc_eq_le)

lemma range_eq_prefix:
  fixes p k :: bytes
  assumes "b \<noteq> 255"
  shows "p @ [b] \<le> k \<and> k < p @ [b + 1] \<longleftrightarrow> prefix (p @ [b]) k"
proof (induction p arbitrary: k)
  case Nil
  then show ?case using assms by (cases k) (auto simp: byte_succ_less)
next
  case (Cons a p)
  note IH = Cons.IH
  show ?case
  proof (cases k)
    case (Cons c cs)
    show ?thesis
    proof (cases "c = a")
      case True
      then show ?thesis using IH [of cs] Cons by simp
    next
      case False
      then have "\<not> (a < c \<and> c < a)" by (meson order.asym)
      with False Cons show ?thesis by simp
    qed
  qed simp
qed

text \<open>A call that returns: a value or an error of the source, no panic and no missing fuel;
  more generally, a call whose only faults satisfy \<open>Q\<close>.\<close>

lemma fails_only_simps [simp]: "fails_only Q (Inr x)" "fails_only Q (Inl f) \<longleftrightarrow> Q f"
  by (simp_all add: fails_only_def)

lemma settled_cases: "settled r \<longleftrightarrow> (\<exists>x. r = Inr x) \<or> (\<exists>e. r = Inl (Err e))"
  by (cases r) (auto elim: is_Err.elims)

lemma fails_only_ok_or: "(x = None \<Longrightarrow> Q (Err e)) \<Longrightarrow> fails_only Q (ok_or e x)"
  by (cases x) simp_all

lemma settled_ok_or [simp]: "settled (ok_or e x)"
  by (rule fails_only_ok_or) simp

lemma fails_only_bindR: "fails_only Q r \<Longrightarrow> (\<And>x. r = Inr x \<Longrightarrow> fails_only Q (k x)) \<Longrightarrow> fails_only Q (bindR r k)"
  by (cases r) (auto simp: fails_only_def)

lemma fails_only_foldR:
  assumes "P s" "\<And>s x. x \<in> set xs \<Longrightarrow> P s \<Longrightarrow> fails_only Q (f s x)"
    and "\<And>s x s'. x \<in> set xs \<Longrightarrow> P s \<Longrightarrow> f s x = Inr s' \<Longrightarrow> P s'"
  shows "fails_only Q (foldR f s xs)"
  using assms
proof (induction xs arbitrary: s)
  case (Cons x xs)
  have "fails_only Q (foldR f s' xs)" if "f s x = Inr s'" for s'
  proof (rule Cons.IH)
    show "P s'" by (rule Cons.prems(3) [OF _ Cons.prems(1) that]) simp
  qed (use Cons.prems(2) in simp, metis list.set_intros(2) Cons.prems(3))
  then show ?case using Cons.prems by (auto intro!: fails_only_bindR)
qed simp

lemma fails_only_mapSR:
  assumes "P s" "\<And>s x. x \<in> set xs \<Longrightarrow> P s \<Longrightarrow> fails_only Q (f x s)"
    and "\<And>s x y s'. x \<in> set xs \<Longrightarrow> P s \<Longrightarrow> f x s = Inr (y, s') \<Longrightarrow> P s'"
  shows "fails_only Q (mapSR f xs s)"
  using assms
proof (induction xs arbitrary: s)
  case (Cons x xs)
  have "fails_only Q (mapSR f xs s')" if "f x s = Inr (y, s')" for y s'
  proof (rule Cons.IH)
    show "P s'" by (rule Cons.prems(3) [OF _ Cons.prems(1) that]) simp
  qed (use Cons.prems(2) in simp, metis list.set_intros(2) Cons.prems(3))
  then show ?case using Cons.prems by (auto intro!: fails_only_bindR)
qed simp

lemma fails_only_mapR: "(\<And>x. x \<in> set xs \<Longrightarrow> fails_only Q (f x)) \<Longrightarrow> fails_only Q (mapR f xs)"
  by (induction xs) (auto intro!: fails_only_bindR)

lemmas settled_bindR = fails_only_bindR [of is_Err]
lemmas settled_foldR = fails_only_foldR [where Q = is_Err]
lemmas settled_mapSR = fails_only_mapSR [where Q = is_Err]
lemmas settled_mapR = fails_only_mapR [where Q = is_Err]

text \<open>More fuel never changes an outcome that did not run out of it.\<close>

lemma fuel_le_refl [simp]: "fuel_le r r"
  by (simp add: fuel_le_def)

lemma fuel_le_bottom [simp]: "fuel_le (Inl OutOfFuel) r"
  by (simp add: fuel_le_def)

lemma fuel_le_trans: "fuel_le r s \<Longrightarrow> fuel_le s t \<Longrightarrow> fuel_le r t"
  by (auto simp: fuel_le_def)

lemma fuel_le_bindR: "fuel_le r r' \<Longrightarrow> (\<And>x. r = Inr x \<Longrightarrow> fuel_le (k x) (k' x)) \<Longrightarrow> fuel_le (bindR r k) (bindR r' k')"
  by (cases r) (auto simp: fuel_le_def)

lemma fuel_le_foldR:
  "(\<And>s x. x \<in> set xs \<Longrightarrow> fuel_le (f s x) (g s x)) \<Longrightarrow> fuel_le (foldR f s xs) (foldR g s xs)"
  by (induction xs arbitrary: s) (auto intro!: fuel_le_bindR)

lemma fuel_le_mapR:
  "(\<And>x. x \<in> set xs \<Longrightarrow> fuel_le (f x) (g x)) \<Longrightarrow> fuel_le (mapR f xs) (mapR g xs)"
  by (induction xs) (auto intro!: fuel_le_bindR)

lemma fuel_le_mapSR:
  "(\<And>s x. x \<in> set xs \<Longrightarrow> fuel_le (f x s) (g x s)) \<Longrightarrow> fuel_le (mapSR f xs s) (mapSR g xs s)"
  by (induction xs arbitrary: s) (auto intro!: fuel_le_bindR)

lemma list_all2_in2: "list_all2 R xs ys \<Longrightarrow> y \<in> set ys \<Longrightarrow> \<exists>x \<in> set xs. R x y"
  by (induction rule: list_all2_induct) auto

lemma list_all2_in1: "list_all2 R xs ys \<Longrightarrow> x \<in> set xs \<Longrightarrow> \<exists>y \<in> set ys. R x y"
  by (induction rule: list_all2_induct) auto

lemma mapR_total: "(\<And>x. x \<in> set xs \<Longrightarrow> \<exists>y. f x = Inr y) \<Longrightarrow> \<exists>ys. mapR f xs = Inr ys"
proof (induction xs)
  case (Cons x xs)
  obtain y where "f x = Inr y" using Cons.prems by force
  moreover obtain ys where "mapR f xs = Inr ys" using Cons by force
  ultimately show ?case by simp
qed simp

lemma bindR_return [simp]: "bindR r Inr = r"
  by (cases r) auto

lemma bindR_assoc: "bindR (bindR r f) g = bindR r (\<lambda>x. bindR (f x) g)"
  by (cases r) auto

end
