(* ===== verification/Ordered_Map.thy ===== *)
theory Ordered_Map
  imports Rdb_Prelude
begin

text \<open>
  Ordered maps. RefineDB keeps its schemas, plans, tables and key-value data in
  \<^verbatim>\<open>BTreeMap\<close> (and in the persistent red-black map with the same interface); what
  the code relies on is lookup, insertion, removal and iteration in key order.
  The model keeps the entries as a list in strictly increasing key order. The
  locale \<open>ordered_map\<close> states the contract, its client lemmas are proved once
  from the contract, and the interpretation \<open>bt\<close> discharges it for the lists.
\<close>

type_synonym ('k, 'v) btree = "('k \<times> 'v) list"

abbreviation bt_get :: "('k, 'v) btree \<Rightarrow> 'k \<Rightarrow> 'v option" where
  "bt_get m k \<equiv> map_of m k"

definition bt_ok :: "('k::linorder, 'v) btree \<Rightarrow> bool" where
  "bt_ok m = sorted_wrt (<) (map fst m)"

fun bt_insert :: "'k::linorder \<Rightarrow> 'v \<Rightarrow> ('k, 'v) btree \<Rightarrow> ('k, 'v) btree" where
  "bt_insert k v [] = [(k, v)]"
| "bt_insert k v (e # m) =
     (if fst e < k then e # bt_insert k v m
      else if fst e = k then (k, v) # m
      else (k, v) # e # m)"

fun bt_remove :: "'k::linorder \<Rightarrow> ('k, 'v) btree \<Rightarrow> ('k, 'v) btree" where
  "bt_remove k [] = []"
| "bt_remove k (e # m) = (if fst e = k then m else e # bt_remove k m)"

text \<open>\<^verbatim>\<open>range(lo..hi)\<close> and \<^verbatim>\<open>collect()\<close> from an iterator of pairs.\<close>

definition bt_range :: "'k::linorder \<Rightarrow> 'k \<Rightarrow> ('k, 'v) btree \<Rightarrow> ('k, 'v) btree" where
  "bt_range lo hi m = filter (\<lambda>e. lo \<le> fst e \<and> fst e < hi) m"

definition bt_keys :: "('k, 'v) btree \<Rightarrow> 'k set" where
  "bt_keys m = fst ` set m"

definition bt_collect :: "('k::linorder \<times> 'v) list \<Rightarrow> ('k, 'v) btree" where
  "bt_collect xs = foldl (\<lambda>m e. bt_insert (fst e) (snd e) m) [] xs"

locale ordered_map =
  fixes empty :: "'m"
    and look :: "'m \<Rightarrow> 'k::linorder \<Rightarrow> 'v option"
    and ins :: "'k \<Rightarrow> 'v \<Rightarrow> 'm \<Rightarrow> 'm"
    and rem :: "'k \<Rightarrow> 'm \<Rightarrow> 'm"
    and entries :: "'m \<Rightarrow> ('k \<times> 'v) list"
    and invar :: "'m \<Rightarrow> bool"
  assumes invar_empty: "invar empty"
    and invar_ins: "invar m \<Longrightarrow> invar (ins k v m)"
    and invar_rem: "invar m \<Longrightarrow> invar (rem k m)"
    and look_empty: "look empty k = None"
    and look_ins: "invar m \<Longrightarrow> look (ins k v m) k' = (if k' = k then Some v else look m k')"
    and look_rem: "invar m \<Longrightarrow> look (rem k m) k' = (if k' = k then None else look m k')"
    and entries_sorted: "invar m \<Longrightarrow> sorted_wrt (<) (map fst (entries m))"
    and look_entries: "invar m \<Longrightarrow> look m k = map_of (entries m) k"
    and entries_inject: "invar m \<Longrightarrow> invar m' \<Longrightarrow> entries m = entries m' \<Longrightarrow> m = m'"
begin

text \<open>The keys come out distinct, so the entries are exactly the graph of lookup.\<close>

lemma distinct_keys: "invar m \<Longrightarrow> distinct (map fst (entries m))"
  using entries_sorted by (simp add: strict_sorted_iff)

lemma entry_iff: "invar m \<Longrightarrow> (k, v) \<in> set (entries m) \<longleftrightarrow> look m k = Some v"
  by (simp add: look_entries distinct_keys)

text \<open>Two maps that answer every lookup alike are the same map.\<close>

lemma map_ext:
  assumes "invar m" "invar m'" "\<And>k. look m k = look m' k"
  shows "m = m'"
proof (rule entries_inject [OF assms(1,2)])
  have same: "set (entries m) = set (entries m')"
    using assms by (auto simp: entry_iff)
  have "inj_on fst (set (entries m) \<union> set (entries m'))"
    using distinct_keys [OF assms(1)] same by (simp add: distinct_map)
  then show "entries m = entries m'"
    using same assms(1,2) entries_sorted
    by (intro map_sorted_distinct_set_unique [of fst]) (simp_all add: strict_sorted_iff)
qed

lemma ins_overwrite: "invar m \<Longrightarrow> ins k v (ins k w m) = ins k v m"
  by (rule map_ext) (simp_all add: invar_ins look_ins)

lemma ins_commute: "invar m \<Longrightarrow> k \<noteq> l \<Longrightarrow> ins k v (ins l w m) = ins l w (ins k v m)"
  by (rule map_ext) (simp_all add: invar_ins look_ins)

lemma ins_idle: "invar m \<Longrightarrow> look m k = Some v \<Longrightarrow> ins k v m = m"
  by (rule map_ext) (simp_all add: invar_ins look_ins)

lemma rem_ins: "invar m \<Longrightarrow> look m k = None \<Longrightarrow> rem k (ins k v m) = m"
  by (rule map_ext) (simp_all add: invar_ins invar_rem look_ins look_rem)

end

section \<open>Facts about the list representation\<close>

lemma bt_ok_Nil [simp]: "bt_ok []"
  by (simp add: bt_ok_def)

lemma bt_ok_Cons: "bt_ok (e # m) \<longleftrightarrow> (\<forall>e' \<in> set m. fst e < fst e') \<and> bt_ok m"
  by (auto simp: bt_ok_def)

lemma keys_bt_insert: "fst ` set (bt_insert k v m) = insert k (fst ` set m)"
  by (induction m) auto

lemma set_bt_insert_subset: "set (bt_insert k v m) \<subseteq> insert (k, v) (set m)"
  by (induction m) auto

lemma bt_ok_insert [simp, intro]: "bt_ok m \<Longrightarrow> bt_ok (bt_insert k v m)"
proof (induction m)
  case (Cons e m)
  have "\<forall>x \<in> fst ` set (bt_insert k v m). x = k \<or> x \<in> fst ` set m"
    by (simp add: keys_bt_insert)
  with Cons show ?case by (force simp: bt_ok_Cons)
qed (simp add: bt_ok_Cons)

lemma set_bt_remove_subset: "set (bt_remove k m) \<subseteq> set m"
  by (induction m) auto

lemma bt_ok_remove [simp, intro]: "bt_ok m \<Longrightarrow> bt_ok (bt_remove k m)"
  by (induction m) (use set_bt_remove_subset in \<open>fastforce simp: bt_ok_Cons\<close>)+

lemma bt_ok_filter [simp, intro]: "bt_ok m \<Longrightarrow> bt_ok (filter P m)"
  by (induction m) (auto simp: bt_ok_Cons)

lemma bt_get_insert: "bt_get (bt_insert k v m) k' = (if k' = k then Some v else bt_get m k')"
  by (induction m) auto

lemma bt_ok_distinct: "bt_ok m \<Longrightarrow> distinct (map fst m)"
  by (induction m) (force simp: bt_ok_Cons)+

lemma bt_get_remove:
  "bt_ok m \<Longrightarrow> bt_get (bt_remove k m) k' = (if k' = k then None else bt_get m k')"
proof (induction m)
  case (Cons e m)
  then have "bt_get m (fst e) = None" by (auto simp: bt_ok_Cons map_of_eq_None_iff)
  with Cons show ?case by (auto simp: bt_ok_Cons)
qed simp

interpretation bt: ordered_map "[] :: ('k::linorder, 'v) btree" map_of bt_insert bt_remove "\<lambda>m. m" bt_ok
proof unfold_locales
  fix m :: "('k, 'v) btree"
  assume "bt_ok m"
  then show "sorted_wrt (<) (map fst m)" by (simp add: bt_ok_def)
qed (auto simp: bt_get_insert bt_get_remove)

lemma bt_get_Some_iff: "bt_ok m \<Longrightarrow> bt_get m k = Some v \<longleftrightarrow> (k, v) \<in> set m"
  using bt.entry_iff by metis

lemma bt_get_filter:
  "bt_ok m \<Longrightarrow> bt_get (filter (\<lambda>e. P (fst e)) m) k = (if P k then bt_get m k else None)"
  by (induction m) (auto simp: bt_ok_Cons)

lemma bt_collect_snoc:
  "bt_collect (xs @ [(k, v)]) = bt_insert k v (bt_collect xs)"
  by (simp add: bt_collect_def)

lemma bt_ok_collect [simp, intro]: "bt_ok (bt_collect xs)"
  by (induction xs rule: rev_induct) (auto simp: bt_collect_def)

lemma bt_insert_last:
  "\<forall>e \<in> set m. fst e < k \<Longrightarrow> bt_insert k v m = m @ [(k, v)]"
  by (induction m) auto

text \<open>Collecting pairs that are already in key order rebuilds the list.\<close>

lemma bt_collect_sorted: "bt_ok m \<Longrightarrow> bt_collect m = m"
proof (induction m rule: rev_induct)
  case (snoc e m)
  then have "bt_ok m" "\<forall>e' \<in> set m. fst e' < fst e"
    by (auto simp: bt_ok_def sorted_wrt_append)
  with snoc.IH show ?case
    using bt_collect_snoc [of m "fst e" "snd e"] by (simp add: bt_insert_last)
qed (simp add: bt_collect_def)

lemma bt_keys_Nil [simp]: "bt_keys [] = {}"
  by (simp add: bt_keys_def)

lemma bt_keys_insert [simp]: "bt_keys (bt_insert k v m) = insert k (bt_keys m)"
  by (simp add: bt_keys_def keys_bt_insert)

lemma bt_keys_iff: "k \<in> bt_keys m \<longleftrightarrow> bt_get m k \<noteq> None"
  by (simp add: bt_keys_def map_of_eq_None_iff)

lemma entry_in_bt_keys: "(k, v) \<in> set m \<Longrightarrow> k \<in> bt_keys m"
  by (force simp: bt_keys_def)

lemma finite_bt_keys [simp]: "finite (bt_keys m)"
  by (simp add: bt_keys_def)

lemma bt_get_collect_in: "bt_get (bt_collect kvs) k = Some v \<Longrightarrow> (k, v) \<in> set kvs"
proof (induction kvs rule: rev_induct)
  case (snoc kv kvs)
  then show ?case
    by (cases kv) (auto simp: bt_collect_snoc bt_get_insert split: if_splits)
qed (simp add: bt_collect_def)

lemma bt_get_collect_zip: "bt_get (bt_collect (zip ks vs)) k = Some v \<Longrightarrow> v \<in> set vs"
  using bt_get_collect_in set_zip_rightD by fastforce

lemma set_bt_collect: "set (bt_collect kvs) \<subseteq> set kvs"
  using bt_get_Some_iff [OF bt_ok_collect] bt_get_collect_in by fastforce

lemma set_bt_remove: "bt_ok m \<Longrightarrow> set (bt_remove k m) = {e \<in> set m. fst e \<noteq> k}"
  by (induction m) (auto simp: bt_ok_Cons)

lemma set_bt_insert: "bt_ok m \<Longrightarrow> set (bt_insert k v m) = insert (k, v) {e \<in> set m. fst e \<noteq> k}"
  by (induction m) (auto simp: bt_ok_Cons)

end
