(* ===== verification/Value.thy ===== *)
theory Value
  imports Ordered_Map
begin

unbundle bit_operations_syntax

text \<open>
  Primitive values (\<^verbatim>\<open>rdb-analyzer/src/data/value.rs\<close>) and their order-preserving
  key encoding. An \<^verbatim>\<open>i64\<close> is a \<^typ>\<open>64 word\<close> read with \<^const>\<open>sint\<close>; a double is
  its bit pattern, as in the source. The record \<open>externs\<close> holds the functions of
  other packages that the analyzer calls; they are parameters of the model.
\<close>

section \<open>Definitions\<close>

datatype primitive_type = Int64T | DoubleT | StringT | BytesT

datatype primitive_value =
    PString string
  | PBytes bytes
  | PInt64 "64 word"
  | PDouble "64 word"

text \<open>
  \<open>write_u64\<close> is \<^verbatim>\<open>byteorder::BigEndian::write_u64\<close> on an eight byte buffer;
  \<open>rmp_to_vec\<close> and \<open>rmp_from_slice\<close> are \<^verbatim>\<open>rmp_serde\<close> on primitive values;
  \<open>base64_encode\<close> and \<open>base64_decode\<close> are the \<^verbatim>\<open>base64\<close> package; \<open>f64_add\<close> and
  \<open>f64_sub\<close> are IEEE addition and subtraction on bit patterns.
\<close>

record externs =
  write_u64 :: "64 word \<Rightarrow> bytes"
  rmp_to_vec :: "primitive_value \<Rightarrow> bytes"
  rmp_from_slice :: "bytes \<Rightarrow> primitive_value option"
  hex_encode :: "bytes \<Rightarrow> string"
  base64_encode :: "bytes \<Rightarrow> string"
  base64_decode :: "string \<Rightarrow> bytes option"
  f64_add :: "64 word \<Rightarrow> 64 word \<Rightarrow> 64 word"
  f64_sub :: "64 word \<Rightarrow> 64 word \<Rightarrow> 64 word"

definition TOP_BIT :: "64 word" where
  "TOP_BIT = push_bit 63 1"

fun get_type :: "primitive_value \<Rightarrow> primitive_type" where
  "get_type (PBytes _) = BytesT"
| "get_type (PString _) = StringT"
| "get_type (PInt64 _) = Int64T"
| "get_type (PDouble _) = DoubleT"

fun unwrap_string :: "primitive_value \<Rightarrow> ('e, string) outcome" where
  "unwrap_string (PString x) = Inr x"
| "unwrap_string _ = Inl (Panic ''PrimitiveValue::unwrap_string: not a string'')"

text \<open>The byte escape of the \<^verbatim>\<open>Bytes\<close> arm: a zero byte becomes \<^verbatim>\<open>0x00 0xff\<close>.\<close>

definition escape_byte :: "byte \<Rightarrow> bytes" where
  "escape_byte x = (if x = 0 then [0, 255] else [x])"

fun serialize_for_key_component :: "externs \<Rightarrow> primitive_value \<Rightarrow> bytes" where
  "serialize_for_key_component E (PBytes x) = [1] @ concat (map escape_byte x) @ [0]"
| "serialize_for_key_component E (PString x) = [2] @ as_bytes x"
| "serialize_for_key_component E (PInt64 x) = [3] @ write_u64 E (x XOR TOP_BIT)"
| "serialize_for_key_component E (PDouble x) =
     [4] @ write_u64 E (if x AND TOP_BIT \<noteq> 0 then NOT x else x XOR TOP_BIT)"

fun default_value_for_type :: "primitive_type \<Rightarrow> primitive_value" where
  "default_value_for_type BytesT = PBytes []"
| "default_value_for_type StringT = PString []"
| "default_value_for_type Int64T = PInt64 0"
| "default_value_for_type DoubleT = PDouble 0"

text \<open>
  The documented layout of a big-endian write: the most significant byte first.
  \<open>be_bytes n x\<close> are the \<open>n\<close> low bytes of \<open>x\<close> in that order.
\<close>

primrec be_bytes :: "nat \<Rightarrow> nat \<Rightarrow> bytes" where
  "be_bytes 0 x = []"
| "be_bytes (Suc n) x = be_bytes n (x div 256) @ [word_of_nat (x mod 256)]"

definition big_endian_u64 :: "externs \<Rightarrow> bool" where
  "big_endian_u64 E \<longleftrightarrow> (\<forall>x. write_u64 E x = be_bytes 8 (unat x))"

text \<open>
  The order the encoding is meant to keep: values of one type in the order of the
  type, types in the order of their tags. Doubles are in the IEEE total order of
  their bit patterns: sign first, then magnitude.
\<close>

definition double_rank :: "64 word \<Rightarrow> int" where
  "double_rank x = (if bit x 63 then 2 ^ 63 - 1 - uint x else uint x)"

fun type_rank :: "primitive_type \<Rightarrow> nat" where
  "type_rank BytesT = 1"
| "type_rank StringT = 2"
| "type_rank Int64T = 3"
| "type_rank DoubleT = 4"

fun value_less :: "primitive_value \<Rightarrow> primitive_value \<Rightarrow> bool" where
  "value_less (PBytes x) (PBytes y) = (x < y)"
| "value_less (PString x) (PString y) = (as_bytes x < as_bytes y)"
| "value_less (PInt64 x) (PInt64 y) = (sint x < sint y)"
| "value_less (PDouble x) (PDouble y) = (double_rank x < double_rank y)"
| "value_less v w = (type_rank (get_type v) < type_rank (get_type w))"

text \<open>No zero byte inside a string value.\<close>

fun nul_free :: "primitive_value \<Rightarrow> bool" where
  "nul_free (PString x) = (0 \<notin> set (as_bytes x))"
| "nul_free _ = True"

text \<open>An instance of the parameters, for concrete runs.\<close>

definition sample_externs :: externs where
  "sample_externs = \<lparr>write_u64 = (\<lambda>x. be_bytes 8 (unat x)),
     rmp_to_vec = (\<lambda>v. case v of PString s \<Rightarrow> 0 # as_bytes s | PBytes b \<Rightarrow> 1 # b
        | PInt64 x \<Rightarrow> 2 # be_bytes 8 (unat x) | PDouble x \<Rightarrow> 3 # be_bytes 8 (unat x)),
     rmp_from_slice = (\<lambda>b. case b of [] \<Rightarrow> None | t # r \<Rightarrow>
        if t = 0 then Some (PString (map (\<lambda>x. char_of (unat x)) r))
        else if t = 1 then Some (PBytes r)
        else if t = 2 then Some (PInt64 (word_of_nat (foldl (\<lambda>a x. 256 * a + unat x) 0 r)))
        else if t = 3 then Some (PDouble (word_of_nat (foldl (\<lambda>a x. 256 * a + unat x) 0 r)))
        else None),
     hex_encode = map (\<lambda>x. char_of (unat x)),
     base64_encode = map (\<lambda>x. char_of (unat x)), base64_decode = (\<lambda>s. Some (as_bytes s)),
     f64_add = (+), f64_sub = (-)\<rparr>"

section \<open>Big-endian order\<close>

lemma length_be_bytes [simp]: "length (be_bytes n x) = n"
  by (induction n arbitrary: x) auto

lemma less_snoc_same_length:
  fixes xs ys :: "'a::linorder list"
  shows "length xs = length ys \<Longrightarrow> xs @ [a] < ys @ [b] \<longleftrightarrow> xs < ys \<or> xs = ys \<and> a < b"
  by (induction xs ys rule: list_induct2) auto

lemma byte_of_mod_less: "(word_of_nat (x mod 256) :: byte) < word_of_nat (y mod 256) \<longleftrightarrow>
    x mod 256 < y mod 256"
  by (simp add: word_less_nat_alt unat_of_nat)

lemma byte_of_mod_eq: "(word_of_nat (x mod 256) :: byte) = word_of_nat (y mod 256) \<longleftrightarrow>
    x mod 256 = y mod 256"
  by (simp add: word_unat_eq_iff unat_of_nat)

lemma be_bytes_inject:
  "x < 256 ^ n \<Longrightarrow> y < 256 ^ n \<Longrightarrow> be_bytes n x = be_bytes n y \<longleftrightarrow> x = y"
proof (induction n arbitrary: x y)
  case (Suc n)
  have "x div 256 < 256 ^ n" "y div 256 < 256 ^ n"
    using Suc.prems by (simp_all add: less_mult_imp_div_less mult.commute)
  then show ?case
    using Suc.IH by (auto simp: byte_of_mod_eq) (metis div_mult_mod_eq)
qed simp

lemma less_div_mod_256:
  fixes x y :: nat
  shows "x < y \<longleftrightarrow> x div 256 < y div 256 \<or> x div 256 = y div 256 \<and> x mod 256 < y mod 256"
proof -
  have "x = 256 * (x div 256) + x mod 256" "y = 256 * (y div 256) + y mod 256" by simp_all
  moreover have "x mod 256 < 256" "y mod 256 < 256" by simp_all
  ultimately show ?thesis by linarith
qed

lemma be_bytes_less:
  "x < 256 ^ n \<Longrightarrow> y < 256 ^ n \<Longrightarrow> be_bytes n x < be_bytes n y \<longleftrightarrow> x < y"
proof (induction n arbitrary: x y)
  case (Suc n)
  have b: "x div 256 < 256 ^ n" "y div 256 < 256 ^ n"
    using Suc.prems by (simp_all add: less_mult_imp_div_less mult.commute)
  have "x < y \<longleftrightarrow> x div 256 < y div 256 \<or> x div 256 = y div 256 \<and> x mod 256 < y mod 256"
    by (rule less_div_mod_256)
  then show ?case
    using Suc.IH [OF b] be_bytes_inject [OF b]
    by (simp add: less_snoc_same_length byte_of_mod_less)
qed simp

lemma unat_u64_bound: "unat (x :: 64 word) < 256 ^ 8"
  using unsigned_less [of x, where 'a = nat] by simp

lemma write_u64_less:
  "big_endian_u64 E \<Longrightarrow> write_u64 E x < write_u64 E y \<longleftrightarrow> x < y"
  using be_bytes_less [OF unat_u64_bound unat_u64_bound]
  by (simp add: big_endian_u64_def word_less_nat_alt)

lemma write_u64_inject:
  "big_endian_u64 E \<Longrightarrow> write_u64 E x = write_u64 E y \<longleftrightarrow> x = y"
  using be_bytes_inject [OF unat_u64_bound unat_u64_bound]
  by (simp add: big_endian_u64_def word_unat_eq_iff)

lemma length_write_u64: "big_endian_u64 E \<Longrightarrow> length (write_u64 E x) = 8"
  by (simp add: big_endian_u64_def)

section \<open>The bit tricks\<close>

lemma uint_flip_top: "uint (x XOR TOP_BIT) = (if bit x 63 then uint x - 2 ^ 63 else uint x + 2 ^ 63)"
proof -
  have "uint (x XOR TOP_BIT) = flip_bit 63 (uint x)"
    by (simp add: TOP_BIT_def flip_bit_eq_xor unsigned_xor_eq unsigned_push_bit_eq)
  also have "\<dots> = (if bit (uint x) 63 then uint x - 2 ^ 63 else uint x + 2 ^ 63)"
    by (simp add: flip_bit_eq_if set_bit_eq unset_bit_eq)
  finally show ?thesis by (simp add: bit_unsigned_iff)
qed

lemma bit_top_iff: "bit (x :: 64 word) 63 \<longleftrightarrow> 2 ^ 63 \<le> uint x"
proof -
  have range: "0 \<le> uint x" "uint x < 2 ^ 64"
    using unsigned_greater_eq [of x, where 'a = int] unsigned_less [of x, where 'a = int] by simp_all
  have "bit x 63 \<longleftrightarrow> bit (uint x) 63" by (simp add: bit_unsigned_iff)
  also have "\<dots> \<longleftrightarrow> odd (uint x div 2 ^ 63)" by (simp only: bit_iff_odd)
  moreover have "uint x div 2 ^ 63 = (if 2 ^ 63 \<le> uint x then 1 else 0)"
    using range by (auto simp: div_pos_pos_trivial int_div_pos_eq [of _ _ 1 "uint x - 2 ^ 63"])
  ultimately show ?thesis by simp
qed

lemma sint_cases: "sint (x :: 64 word) = (if bit x 63 then uint x - 2 ^ 64 else uint x)"
proof -
  have "take_bit 64 (uint x) = uint x"
    using take_bit_word_eq_self [of 64 x] by (simp flip: unsigned_take_bit_eq)
  then show ?thesis
    by (simp add: sint_uint signed_take_bit_eq_take_bit_minus bit_unsigned_iff)
qed

lemma flip_top_less_iff_signed: "x XOR TOP_BIT < y XOR TOP_BIT \<longleftrightarrow> sint x < sint y"
  using unsigned_less [of x, where 'a = int] unsigned_less [of y, where 'a = int]
  by (auto simp: word_less_alt uint_flip_top sint_cases)

lemma flip_top_inject: "x XOR TOP_BIT = y XOR TOP_BIT \<longleftrightarrow> x = y"
proof
  assume "x XOR TOP_BIT = y XOR TOP_BIT"
  then have "(x XOR TOP_BIT) XOR TOP_BIT = (y XOR TOP_BIT) XOR TOP_BIT" by simp
  then show "x = y" by (simp only: xor.assoc xor_self_eq xor.right_neutral)
qed simp

lemma and_top_iff: "x AND TOP_BIT \<noteq> 0 \<longleftrightarrow> bit x 63"
  using and_exp_eq_0_iff_not_bit [of x 63] by (simp add: TOP_BIT_def push_bit_eq_mult)

lemma uint_not: "uint (NOT x) = 2 ^ 64 - 1 - uint (x :: 64 word)"
proof -
  have "take_bit 64 (uint x) = uint x"
    using take_bit_word_eq_self [of 64 x] by (simp flip: unsigned_take_bit_eq)
  then show ?thesis
    by (simp add: unsigned_not_eq take_bit_not_eq_mask_diff mask_eq_exp_minus_1)
qed

definition double_key :: "64 word \<Rightarrow> 64 word" where
  "double_key x = (if x AND TOP_BIT \<noteq> 0 then NOT x else x XOR TOP_BIT)"

lemma uint_double_key: "uint (double_key x) = double_rank x + 2 ^ 63"
  by (simp add: double_key_def and_top_iff uint_not uint_flip_top double_rank_def)

lemma double_key_less: "double_key x < double_key y \<longleftrightarrow> double_rank x < double_rank y"
  by (simp add: word_less_alt uint_double_key)

section \<open>The byte escape\<close>

lemma escape_byte_nonempty: "escape_byte x \<noteq> []"
  by (simp add: escape_byte_def)

abbreviation escape :: "bytes \<Rightarrow> bytes" where
  "escape x \<equiv> concat (map escape_byte x)"

lemma escape_less: "escape x @ [0] < escape y @ [0] \<longleftrightarrow> x < y"
proof (induction x arbitrary: y)
  case Nil
  then show ?case by (cases y) (auto simp: escape_byte_def word_gt_0)
next
  case (Cons a x)
  then show ?case
    by (cases y) (auto simp: escape_byte_def word_gt_0)
qed

lemma escape_prefix_free: "prefix (escape x @ [0, 0]) (escape y @ [0, 0] @ r) \<Longrightarrow> x = y"
proof (induction x arbitrary: y)
  case Nil
  then show ?case by (cases y) (auto simp: escape_byte_def split: if_splits)
next
  case (Cons a x)
  then show ?case by (cases y) (auto simp: escape_byte_def split: if_splits)
qed

section \<open>Properties of the key encoding\<close>

lemma serialize_double: "serialize_for_key_component E (PDouble x) = 4 # write_u64 E (double_key x)"
  by (simp add: double_key_def)

lemmas serialize_simps =
  serialize_for_key_component.simps(1-3) serialize_double

declare serialize_for_key_component.simps(4) [simp del]

lemma be_bytes_0: "be_bytes m 0 = replicate m 0"
  by (induction m) (simp_all add: replicate_append_same)

text \<open>
  C24. The key encoding is order preserving: comparing encoded values byte by byte is
  comparing the values (signed integers, IEEE total order on doubles, byte order on
  strings and byte arrays; values of different types in the order of their tags).
\<close>

theorem serialize_order_preserving:
  assumes "big_endian_u64 E"
  shows "serialize_for_key_component E v < serialize_for_key_component E w \<longleftrightarrow> value_less v w"
  using assms
  by (cases v; cases w)
    (simp_all add: serialize_double write_u64_less flip_top_less_iff_signed double_key_less escape_less)

theorem serialize_order_preserving_witness:
  "serialize_for_key_component sample_externs (PInt64 (-1)) < serialize_for_key_component sample_externs (PInt64 2)"
proof -
  have "big_endian_u64 sample_externs" by (simp add: big_endian_u64_def sample_externs_def)
  from serialize_order_preserving [OF this, of "PInt64 (-1)" "PInt64 2"] show ?thesis by simp
qed

lemma double_key_inject: "double_key x = double_key y \<longleftrightarrow> x = y"
proof
  assume "double_key x = double_key y"
  then have "double_rank x = double_rank y"
    using uint_double_key [of x] uint_double_key [of y] by simp
  moreover have "0 \<le> uint x" "0 \<le> uint y"
    using unsigned_greater_eq [of x, where 'a = int] unsigned_greater_eq [of y, where 'a = int]
    by simp_all
  ultimately have "uint x = uint y"
    unfolding double_rank_def bit_top_iff by (simp only: split: if_splits; linarith)
  then show "x = y" by (simp add: word_uint_eq_iff)
qed simp

text \<open>
  The key encoding is injective: two primary keys share an encoding only when they
  are the same value, so a set never merges two members.
\<close>

theorem serialize_injective:
  assumes "big_endian_u64 E"
  shows "serialize_for_key_component E v = serialize_for_key_component E w \<longleftrightarrow> v = w"
proof
  assume eq: "serialize_for_key_component E v = serialize_for_key_component E w"
  then show "v = w"
  proof (cases v; cases w)
    fix x y
    assume v: "v = PBytes x" and w: "w = PBytes y"
    then have "\<not> x < y" "\<not> y < x"
      using eq escape_less [of x y] escape_less [of y x] by auto
    then show ?thesis using v w by simp
  qed (use assms eq in \<open>auto simp: serialize_double write_u64_inject flip_top_inject double_key_inject\<close>)
qed simp

theorem serialize_injective_witness:
  "serialize_for_key_component sample_externs (PBytes [0]) \<noteq> serialize_for_key_component sample_externs (PBytes [])"
proof -
  have "big_endian_u64 sample_externs" by (simp add: big_endian_u64_def sample_externs_def)
  from serialize_injective [OF this, of "PBytes [0]" "PBytes []"] show ?thesis by simp
qed

lemma prefix_same_length:
  "length xs = length ys \<Longrightarrow> prefix (xs @ us) (ys @ vs) \<longleftrightarrow> xs = ys \<and> prefix us vs"
  by (induction xs ys rule: list_induct2) auto

lemma prefix_until_zero:
  fixes xs ys :: bytes
  assumes "0 \<notin> set xs" "0 \<notin> set ys" "prefix (xs @ [0]) (ys @ 0 # r)"
  shows "xs = ys"
  using assms
proof (induction xs arbitrary: ys)
  case Nil
  then show ?case by (cases ys) auto
next
  case (Cons a xs)
  then show ?case by (cases ys) auto
qed

lemma encoding_prefix_free:
  assumes "big_endian_u64 E" "nul_free v" "nul_free w"
    and "prefix (serialize_for_key_component E v @ [0]) (serialize_for_key_component E w @ [0] @ r)"
  shows "v = w"
  using assms
proof (cases v; cases w)
  fix x y
  assume v: "v = PBytes x" and w: "w = PBytes y"
  then have "prefix (escape x @ [0, 0]) (escape y @ [0, 0] @ r)" using assms(4) by simp
  then show ?thesis using v w escape_prefix_free by blast
next
  fix x y
  assume v: "v = PString x" and w: "w = PString y"
  then have "as_bytes x = as_bytes y"
    using assms(2-4) prefix_until_zero [of "as_bytes x" "as_bytes y" r] by simp
  then show ?thesis using v w by simp
qed (auto simp: serialize_double prefix_same_length length_write_u64 write_u64_inject
  flip_top_inject double_key_inject)

text \<open>
  C25. Closed with the separator byte \<^verbatim>\<open>0x00\<close> that the path walker appends, encodings are
  prefix free on values whose strings hold no zero byte: no key below one set member
  starts with the prefix of another member.
\<close>

theorem serialize_prefix_free:
  assumes "big_endian_u64 E" "nul_free v" "nul_free w"
    and "prefix (serialize_for_key_component E v @ [0]) (serialize_for_key_component E w @ [0] @ r)"
  shows "v = w"
  using assms by (rule encoding_prefix_free)

theorem serialize_prefix_free_witness:
  "\<not> prefix (serialize_for_key_component sample_externs (PString ''a'') @ [0])
     (serialize_for_key_component sample_externs (PString ''ab'') @ [0] @ [7])"
proof
  have be: "big_endian_u64 sample_externs" by (simp add: big_endian_u64_def sample_externs_def)
  assume "prefix (serialize_for_key_component sample_externs (PString ''a'') @ [0])
     (serialize_for_key_component sample_externs (PString ''ab'') @ [0] @ [7])"
  from serialize_prefix_free [OF be _ _ this] show False by (simp add: as_bytes_def)
qed

text \<open>
  The hypothesis on zero bytes is needed: the prefix of the string member \<open>x\<close> is a
  prefix of every key below the member \<open>x @ NUL @ y\<close>, because the string arm of the
  encoding neither escapes zero bytes nor terminates the string.
\<close>

theorem serialize_string_nul_overlap:
  "prefix (serialize_for_key_component E (PString x) @ [0])
     (serialize_for_key_component E (PString (x @ CHR 0x00 # y)) @ [0] @ r)"
  by (simp add: as_bytes_def)

end
