(* ===== verification/Schema_Compile.thy ===== *)
theory Schema_Compile
  imports Value
begin

text \<open>
  Schemas: the syntax tree of \<^verbatim>\<open>schema/grammar/ast.rs\<close> and the compiler of
  \<^verbatim>\<open>schema/compile.rs\<close>, which specialises the generic types reachable from the
  exports. The hash maps of the source whose order is never observed are ordered
  maps here. \<open>resolve_type_expr\<close> recurses on fuel, since the source recurses through
  the types a schema names and need not stop.
\<close>

section \<open>Syntax trees\<close>

datatype literal = LInteger "64 word" | LString string | LBytes bytes

record annotation =
  ann_name :: string
  ann_args :: "literal list"

datatype type_expr = Unit string | Specialize string "type_expr list"

record type_field =
  tf_annotations :: "annotation list"
  tf_location :: nat
  tf_name :: string
  tf_value :: type_expr

record type_item =
  ti_annotations :: "annotation list"
  ti_location :: nat
  ti_name :: string
  ti_generics :: "string list"
  ti_fields :: "type_field list"

record export_item =
  ei_location :: nat
  ei_ty :: type_expr
  ei_table_name :: string

datatype schema_item = SType type_item | SExport export_item

type_synonym schema_ast = "schema_item list"

section \<open>Compiled schemas\<close>

datatype schema_compile_error =
    DuplicateType string
  | DuplicateExport string
  | DuplicateField string string
  | RecursiveTypes
  | MissingType string
  | ArgCountMismatch nat string nat
  | CannotSpecializeTypeParameter string
  | CannotSpecializePrimitiveType string
  | BadSetTypeParameter
  | UnknownAnnotationOnField string string string
  | IndexOnNonPrimitiveField string string
  | MultiplePrimaryKeys string
  | TypeNameMustStartWithUpperCaseLetter string

fun display_primitive_type :: "primitive_type \<Rightarrow> string" where
  "display_primitive_type Int64T = ''int64''"
| "display_primitive_type DoubleT = ''double''"
| "display_primitive_type StringT = ''string''"
| "display_primitive_type BytesT = ''bytes''"

definition PRIMITIVE_TYPES :: "string \<Rightarrow> primitive_type option" where
  "PRIMITIVE_TYPES s =
     (if s = ''int64'' then Some Int64T
      else if s = ''double'' then Some DoubleT
      else if s = ''string'' then Some StringT
      else if s = ''bytes'' then Some BytesT
      else None)"

datatype field_annotation = PrimaryKey | Unique | Index | RenameFrom string

datatype field_type = FTable string | FPrimitive primitive_type | FSet field_type

record specialized_type =
  st_name :: string
  st_fields :: "(string, field_type \<times> field_annotation list) btree"

record compiled_schema =
  cs_types :: "(string, specialized_type) btree"
  cs_exports :: "(string, field_type) btree"

fun ann_is_index :: "field_annotation \<Rightarrow> bool" where
  "ann_is_index Index = True"
| "ann_is_index _ = False"

fun ann_is_unique :: "field_annotation \<Rightarrow> bool" where
  "ann_is_unique Unique = True"
| "ann_is_unique _ = False"

fun ann_is_primary :: "field_annotation \<Rightarrow> bool" where
  "ann_is_primary PrimaryKey = True"
| "ann_is_primary _ = False"

definition is_primary :: "field_annotation list \<Rightarrow> bool" where
  "is_primary xs = (find ann_is_primary xs \<noteq> None)"

definition is_unique :: "field_annotation list \<Rightarrow> bool" where
  "is_unique xs = (find ann_is_unique xs \<noteq> None)"

definition is_index :: "field_annotation list \<Rightarrow> bool" where
  "is_index xs = (find ann_is_index xs \<noteq> None)"

record indexed_field =
  if_ty :: field_type
  if_annotations :: "field_annotation list"
  if_is_unique :: bool

definition lookup_indexed_field :: "specialized_type \<Rightarrow> string \<Rightarrow> indexed_field option" where
  "lookup_indexed_field st name =
     (case bt_get (st_fields st) name of
        None \<Rightarrow> None
      | Some (ty, anns) \<Rightarrow>
          if is_primary anns \<or> is_unique anns \<or> is_index anns
          then Some \<lparr>if_ty = ty, if_annotations = anns, if_is_unique = is_unique anns\<rparr>
          else None)"

fun display_field_type :: "field_type \<Rightarrow> string" where
  "display_field_type (FTable x) = x"
| "display_field_type (FPrimitive x) = display_primitive_type x"
| "display_field_type (FSet x) = ''set<'' @ display_field_type x @ ''>''"

section \<open>The compiler\<close>

type_synonym unresolved = "(string, type_item) btree"
type_synonym resolved = "(string, specialized_type) btree"
type_synonym local_context = "(string, field_type) btree"

definition starts_upper :: "string \<Rightarrow> bool" where
  "starts_upper s = (case s of [] \<Rightarrow> False | c # _ \<Rightarrow> CHR ''A'' \<le> c \<and> c \<le> CHR ''Z'')"

fun new_context_item :: "unresolved \<Rightarrow> schema_item \<Rightarrow> (schema_compile_error, unresolved) outcome" where
  "new_context_item U (SType x) =
     (if bt_get U (ti_name x) \<noteq> None then Inl (Err (DuplicateType (ti_name x)))
      else if \<not> starts_upper (ti_name x)
      then Inl (Err (TypeNameMustStartWithUpperCaseLetter (ti_name x)))
      else Inr (bt_insert (ti_name x) x U))"
| "new_context_item U (SExport _) = Inr U"

definition new_context :: "schema_ast \<Rightarrow> (schema_compile_error, unresolved) outcome" where
  "new_context items = foldR new_context_item [] items"

fun expr_parts :: "type_expr \<Rightarrow> string \<times> type_expr list" where
  "expr_parts (Unit x) = (x, [])"
| "expr_parts (Specialize x args) = (x, args)"

definition type_repr :: "string \<Rightarrow> field_type list \<Rightarrow> string" where
  "type_repr tid args = tid @ ''<'' @ join '', '' (map display_field_type args) @ ''>''"

definition resolve_annotation ::
  "string \<Rightarrow> string \<Rightarrow> annotation \<Rightarrow> (schema_compile_error, field_annotation) outcome" where
  "resolve_annotation field repr ann =
     (if ann_name ann = ''primary'' \<and> ann_args ann = [] then Inr PrimaryKey
      else if ann_name ann = ''unique'' \<and> ann_args ann = [] then Inr Unique
      else if ann_name ann = ''index'' \<and> ann_args ann = [] then Inr Index
      else case ann_args ann of
          [LString x] \<Rightarrow>
            (if ann_name ann = ''rename_from'' then Inr (RenameFrom x)
             else Inl (Err (UnknownAnnotationOnField field repr (ann_name ann))))
        | _ \<Rightarrow> Inl (Err (UnknownAnnotationOnField field repr (ann_name ann))))"

fun is_primitive_field :: "field_type \<Rightarrow> bool" where
  "is_primitive_field (FPrimitive _) = True"
| "is_primitive_field _ = False"

definition has_index_annotation :: "field_annotation list \<Rightarrow> bool" where
  "has_index_annotation anns =
     (find (\<lambda>x. ann_is_primary x \<or> ann_is_unique x \<or> ann_is_index x) anns \<noteq> None)"

text \<open>One iteration of the loop over the fields of a type; \<open>rc\<close> is the recursive call.\<close>

definition resolve_field ::
  "(type_expr \<Rightarrow> resolved \<Rightarrow> (schema_compile_error, field_type \<times> resolved) outcome) \<Rightarrow>
   type_item \<Rightarrow> string \<Rightarrow>
   (string, field_type \<times> field_annotation list) btree \<times> resolved \<Rightarrow> type_field \<Rightarrow>
   (schema_compile_error, (string, field_type \<times> field_annotation list) btree \<times> resolved) outcome"
  where
  "resolve_field rc ty repr st x =
     (case st of (flds, R) \<Rightarrow>
       if bt_get flds (tf_name x) \<noteq> None then Inl (Err (DuplicateField (tf_name x) (ti_name ty)))
       else
         bindR (rc (tf_value x) R) (\<lambda>(field_ty, R').
         bindR (mapR (resolve_annotation (tf_name x) repr) (tf_annotations x)) (\<lambda>anns.
           if has_index_annotation anns \<and> \<not> is_primitive_field field_ty
           then Inl (Err (IndexOnNonPrimitiveField (tf_name x) (ti_name ty)))
           else Inr (bt_insert (tf_name x) (field_ty, anns) flds, R'))))"

definition primary_key_count :: "(string, field_type \<times> field_annotation list) btree \<Rightarrow> nat" where
  "primary_key_count flds = length (filter (\<lambda>(_, _, anns). is_primary anns) flds)"

definition set_type_fields ::
  "string \<Rightarrow> (string, field_type \<times> field_annotation list) btree \<Rightarrow> resolved \<Rightarrow>
   (schema_compile_error, resolved) outcome" where
  "set_type_fields repr flds R =
     (case bt_get R repr of
        None \<Rightarrow> Inl (Panic ''called `Option::unwrap()` on a `None` value'')
      | Some st \<Rightarrow> Inr (bt_insert repr (st\<lparr>st_fields := flds\<rparr>) R))"

definition resolve_table ::
  "(local_context \<Rightarrow> type_expr \<Rightarrow> resolved \<Rightarrow> (schema_compile_error, field_type \<times> resolved) outcome) \<Rightarrow>
   unresolved \<Rightarrow> string \<Rightarrow> field_type list \<Rightarrow> resolved \<Rightarrow>
   (schema_compile_error, field_type \<times> resolved) outcome" where
  "resolve_table rc U tid args R =
     bindR (ok_or (MissingType tid) (bt_get U tid)) (\<lambda>ty.
     if length (ti_generics ty) \<noteq> length args
     then Inl (Err (ArgCountMismatch (length (ti_generics ty)) tid (length args)))
     else
       let repr = type_repr tid args in
       if bt_get R repr \<noteq> None then Inr (FTable repr, R)
       else
         let R1 = bt_insert repr \<lparr>st_name = repr, st_fields = []\<rparr> R;
             ctx = bt_collect (zip (ti_generics ty) args) in
         bindR (foldR (resolve_field (rc ctx) ty repr) ([], R1) (ti_fields ty)) (\<lambda>(flds, R2).
         if primary_key_count flds > 1 then Inl (Err (MultiplePrimaryKeys (ti_name ty)))
         else bindR (set_type_fields repr flds R2) (\<lambda>R3. Inr (FTable repr, R3))))"

definition resolve_head ::
  "(local_context \<Rightarrow> type_expr \<Rightarrow> resolved \<Rightarrow> (schema_compile_error, field_type \<times> resolved) outcome) \<Rightarrow>
   unresolved \<Rightarrow> local_context \<Rightarrow> string \<Rightarrow> field_type list \<Rightarrow> resolved \<Rightarrow>
   (schema_compile_error, field_type \<times> resolved) outcome" where
  "resolve_head rc U ctx tid args R =
     (case bt_get ctx tid of
        Some x \<Rightarrow>
          if length args \<noteq> 0 then Inl (Err (CannotSpecializeTypeParameter tid)) else Inr (x, R)
      | None \<Rightarrow>
     (case PRIMITIVE_TYPES tid of
        Some ty \<Rightarrow>
          if length args \<noteq> 0 then Inl (Err (CannotSpecializePrimitiveType tid))
          else Inr (FPrimitive ty, R)
      | None \<Rightarrow>
          if tid = ''set'' then
            (case args of
               [FTable t] \<Rightarrow> Inr (FSet (FTable t), R)
             | _ \<Rightarrow> Inl (Err BadSetTypeParameter))
          else resolve_table rc U tid args R))"

fun resolve_type_expr ::
  "nat \<Rightarrow> unresolved \<Rightarrow> local_context \<Rightarrow> type_expr \<Rightarrow> resolved \<Rightarrow>
   (schema_compile_error, field_type \<times> resolved) outcome" where
  "resolve_type_expr 0 U ctx e R = Inl OutOfFuel"
| "resolve_type_expr (Suc n) U ctx e R =
     (case expr_parts e of (tid, args) \<Rightarrow>
       bindR (mapSR (resolve_type_expr n U ctx) args R) (\<lambda>(args', R').
       resolve_head (resolve_type_expr n U) U ctx tid args' R'))"

fun compile_item ::
  "nat \<Rightarrow> unresolved \<Rightarrow> (string, field_type) btree \<times> resolved \<Rightarrow> schema_item \<Rightarrow>
   (schema_compile_error, (string, field_type) btree \<times> resolved) outcome" where
  "compile_item n U (ex, R) (SExport x) =
     (if bt_get ex (ei_table_name x) \<noteq> None then Inl (Err (DuplicateExport (ei_table_name x)))
      else bindR (resolve_type_expr n U [] (ei_ty x) R) (\<lambda>(ty, R').
        Inr (bt_insert (ei_table_name x) ty ex, R')))"
| "compile_item n U (ex, R) (SType _) = Inr (ex, R)"

definition compile :: "nat \<Rightarrow> schema_ast \<Rightarrow> (schema_compile_error, compiled_schema) outcome" where
  "compile n items =
     bindR (new_context items) (\<lambda>U.
     bindR (foldR (compile_item n U) ([], []) items) (\<lambda>(ex, R).
     Inr \<lparr>cs_types = R, cs_exports = ex\<rparr>))"

section \<open>Sample schemas\<close>

text \<open>Builders for the sample schemas below.\<close>

definition mk_field :: "string list \<Rightarrow> string \<Rightarrow> type_expr \<Rightarrow> type_field" where
  "mk_field anns n e = \<lparr>tf_annotations = map (\<lambda>a. \<lparr>ann_name = a, ann_args = []\<rparr>) anns,
     tf_location = 0, tf_name = n, tf_value = e\<rparr>"

definition mk_type :: "string \<Rightarrow> string list \<Rightarrow> type_field list \<Rightarrow> type_item" where
  "mk_type n gs fs = \<lparr>ti_annotations = [], ti_location = 0, ti_name = n, ti_generics = gs, ti_fields = fs\<rparr>"

definition mk_export :: "type_expr \<Rightarrow> string \<Rightarrow> schema_item" where
  "mk_export e n = SExport \<lparr>ei_location = 0, ei_ty = e, ei_table_name = n\<rparr>"

text \<open>\<^verbatim>\<open>type A<T> { next: A<A<T>> } export A<int64> a;\<close>\<close>

definition nested_item :: type_item where
  "nested_item = mk_type ''A'' [''T''] [mk_field [] ''next'' (Specialize ''A'' [Specialize ''A'' [Unit ''T'']])]"

definition nested_schema :: schema_ast where
  "nested_schema = [SType nested_item, mk_export (Specialize ''A'' [Unit ''int64'']) ''a'']"

lemmas nested_defs = nested_item_def mk_type_def mk_field_def mk_export_def

text \<open>\<^verbatim>\<open>type Node<T> { @primary key: string, value: T, children: set<Node<T>> }\<close>
  \<^verbatim>\<open>export set<Node<int64>> nodes;\<close>\<close>

definition tree_item :: type_item where
  "tree_item = mk_type ''Node'' [''T''] [mk_field [''primary''] ''key'' (Unit ''string''),
     mk_field [] ''value'' (Unit ''T''),
     mk_field [] ''children'' (Specialize ''set'' [Specialize ''Node'' [Unit ''T'']])]"

definition tree_schema :: schema_ast where
  "tree_schema = [SType tree_item,
     mk_export (Specialize ''set'' [Specialize ''Node'' [Unit ''int64'']]) ''nodes'']"

section \<open>Well-formed schemas\<close>

text \<open>
  What the rest of the system relies on: every table named by a field or an export
  is a type of the schema, sets hold tables, indexes sit on primitive fields, a type
  has at most one primary key, and each type is stored under its own name.
\<close>

fun ft_closed :: "string set \<Rightarrow> field_type \<Rightarrow> bool" where
  "ft_closed T (FTable t) = (t \<in> T)"
| "ft_closed T (FPrimitive _) = True"
| "ft_closed T (FSet (FTable t)) = (t \<in> T)"
| "ft_closed T (FSet _) = False"

definition field_ok :: "string set \<Rightarrow> field_type \<times> field_annotation list \<Rightarrow> bool" where
  "field_ok T f \<longleftrightarrow> ft_closed T (fst f) \<and> (has_index_annotation (snd f) \<longrightarrow> is_primitive_field (fst f))"

definition type_ok :: "string set \<Rightarrow> string \<Rightarrow> specialized_type \<Rightarrow> bool" where
  "type_ok T n st \<longleftrightarrow> st_name st = n \<and> bt_ok (st_fields st) \<and>
     (\<forall>f \<in> snd ` set (st_fields st). field_ok T f) \<and> primary_key_count (st_fields st) \<le> 1"

definition resolved_ok :: "resolved \<Rightarrow> bool" where
  "resolved_ok R \<longleftrightarrow> bt_ok R \<and> (\<forall>(n, st) \<in> set R. type_ok (bt_keys R) n st)"

definition schema_ok :: "compiled_schema \<Rightarrow> bool" where
  "schema_ok s \<longleftrightarrow> resolved_ok (cs_types s) \<and> bt_ok (cs_exports s) \<and>
     (\<forall>ty \<in> snd ` set (cs_exports s). ft_closed (bt_keys (cs_types s)) ty)"

definition context_ok :: "resolved \<Rightarrow> local_context \<Rightarrow> bool" where
  "context_ok R ctx \<longleftrightarrow> (\<forall>k ty. bt_get ctx k = Some ty \<longrightarrow> ft_closed (bt_keys R) ty)"

text \<open>The contract of a recursive call of the resolver.\<close>

definition grown :: "resolved \<Rightarrow> resolved \<Rightarrow> bool" where
  "grown R R' \<longleftrightarrow> resolved_ok R' \<and> bt_keys R \<subseteq> bt_keys R'"

locale type_resolver =
  fixes rc :: "local_context \<Rightarrow> type_expr \<Rightarrow> resolved \<Rightarrow>
    (schema_compile_error, field_type \<times> resolved) outcome"
  assumes rc_ok: "rc ctx e R = Inr (ty, R') \<Longrightarrow> resolved_ok R \<Longrightarrow> context_ok R ctx \<Longrightarrow>
    grown R R' \<and> ft_closed (bt_keys R') ty"

lemma ft_closed_mono: "ft_closed T ty \<Longrightarrow> T \<subseteq> T' \<Longrightarrow> ft_closed T' ty"
  by (induction T ty rule: ft_closed.induct) auto

lemma field_ok_mono: "field_ok T f \<Longrightarrow> T \<subseteq> T' \<Longrightarrow> field_ok T' f"
  by (auto simp: field_ok_def ft_closed_mono)

lemma type_ok_mono: "type_ok T n st \<Longrightarrow> T \<subseteq> T' \<Longrightarrow> type_ok T' n st"
  by (auto simp: type_ok_def field_ok_mono)

lemma context_ok_mono: "context_ok R ctx \<Longrightarrow> bt_keys R \<subseteq> bt_keys R' \<Longrightarrow> context_ok R' ctx"
  unfolding context_ok_def by (meson ft_closed_mono)

lemma grown_refl: "resolved_ok R \<Longrightarrow> grown R R"
  by (simp add: grown_def)

lemma grown_trans: "grown R R1 \<Longrightarrow> grown R1 R2 \<Longrightarrow> grown R R2"
  by (auto simp: grown_def)

lemma resolved_ok_insert:
  assumes "resolved_ok R" "type_ok (insert n (bt_keys R)) n st"
  shows "grown R (bt_insert n st R)"
  using assms set_bt_insert_subset [of n st R]
  by (fastforce simp: grown_def resolved_ok_def elim: type_ok_mono)

lemma set_type_fields_grown:
  assumes "resolved_ok R" "set_type_fields n flds R = Inr R'" "bt_ok flds"
    and "\<forall>f \<in> snd ` set flds. field_ok (bt_keys R) f" "primary_key_count flds \<le> 1"
  shows "grown R R'"
proof -
  obtain st where st: "bt_get R n = Some st" "R' = bt_insert n (st\<lparr>st_fields := flds\<rparr>) R"
    using assms(2) by (auto simp: set_type_fields_def split: option.splits)
  then have "(n, st) \<in> set R" by (simp add: map_of_SomeD)
  then have "st_name st = n" "insert n (bt_keys R) = bt_keys R"
    using assms(1) by (auto simp: resolved_ok_def type_ok_def dest: entry_in_bt_keys)
  then show ?thesis
    using st assms by (intro resolved_ok_insert [of R n, folded st(2)] | simp add: type_ok_def)+
qed

lemma mapSR_grown:
  assumes "mapSR f xs R = Inr (tys, R')" "resolved_ok R"
    and "\<And>R x ty R'. x \<in> set xs \<Longrightarrow> f x R = Inr (ty, R') \<Longrightarrow> resolved_ok R \<Longrightarrow> context_ok R ctx \<Longrightarrow>
      grown R R' \<and> ft_closed (bt_keys R') ty"
    and "context_ok R ctx"
  shows "grown R R' \<and> (\<forall>ty \<in> set tys. ft_closed (bt_keys R') ty)"
  using assms
proof (induction xs arbitrary: R tys)
  case Nil
  then show ?case by (simp add: grown_refl)
next
  case (Cons x xs)
  from Cons.prems(1) obtain ty R1 tys' where
    1: "f x R = Inr (ty, R1)" "mapSR f xs R1 = Inr (tys', R')" "tys = ty # tys'"
    by (auto split: prod.splits)
  have g: "grown R R1" "ft_closed (bt_keys R1) ty"
    using Cons.prems(3) [OF _ 1(1) Cons.prems(2,4)] by auto
  then have "resolved_ok R1" "context_ok R1 ctx"
    using context_ok_mono [OF Cons.prems(4)] by (simp_all add: grown_def)
  then have "grown R1 R' \<and> (\<forall>ty \<in> set tys'. ft_closed (bt_keys R') ty)"
    using Cons.IH [OF 1(2)] Cons.prems(3) by (meson list.set_intros(2))
  with g 1(3) show ?case by (auto simp: grown_def ft_closed_mono)
qed

context type_resolver
begin

lemma resolve_field_grown:
  assumes "resolve_field (rc ctx) ty repr (flds, R) x = Inr (flds', R')"
    and "resolved_ok R" "context_ok R ctx" "bt_ok flds" "\<forall>f \<in> snd ` set flds. field_ok (bt_keys R) f"
  shows "grown R R' \<and> bt_ok flds' \<and> (\<forall>f \<in> snd ` set flds'. field_ok (bt_keys R') f)"
proof -
  from assms(1) obtain fty anns where
    f: "rc ctx (tf_value x) R = Inr (fty, R')" "flds' = bt_insert (tf_name x) (fty, anns) flds"
      "has_index_annotation anns \<longrightarrow> is_primitive_field fty"
    by (auto simp: resolve_field_def split: if_splits prod.splits)
  have g: "grown R R'" "ft_closed (bt_keys R') fty"
    using rc_ok [OF f(1) assms(2,3)] by auto
  have "field_ok (bt_keys R') f" if "f \<in> snd ` set flds'" for f
  proof -
    have "f = (fty, anns) \<or> f \<in> snd ` set flds"
      using that f(2) set_bt_insert_subset [of "tf_name x" "(fty, anns)" flds] by auto
    then show ?thesis
    proof
      assume "f = (fty, anns)"
      then show ?thesis using f(3) g by (simp add: field_ok_def)
    next
      assume "f \<in> snd ` set flds"
      then show ?thesis using assms(5) g(1) field_ok_mono unfolding grown_def by blast
    qed
  qed
  with g f(2) assms(4) show ?thesis by simp
qed

lemma resolve_fields_grown:
  assumes "foldR (resolve_field (rc ctx) ty repr) (flds, R) xs = Inr (flds', R')"
    and "resolved_ok R" "context_ok R ctx" "bt_ok flds" "\<forall>f \<in> snd ` set flds. field_ok (bt_keys R) f"
  shows "grown R R' \<and> bt_ok flds' \<and> (\<forall>f \<in> snd ` set flds'. field_ok (bt_keys R') f)"
proof -
  define P where "P s \<longleftrightarrow> grown R (snd (s :: (string, _) btree \<times> _)) \<and> bt_ok (fst s) \<and>
     (\<forall>f \<in> snd ` set (fst s). field_ok (bt_keys (snd s)) f)" for s
  have "P (flds', R')"
  proof (rule foldR_invariant [OF assms(1)])
    show "P (flds, R)" using assms by (simp add: P_def grown_refl)
  next
    fix s x s' assume "P s" "resolve_field (rc ctx) ty repr s x = Inr s'"
    then show "P s'"
      using resolve_field_grown [of ctx ty repr "fst s" "snd s" x "fst s'" "snd s'"]
        context_ok_mono [OF assms(3)]
      by (auto simp: P_def grown_def)
  qed
  then show ?thesis by (simp add: P_def)
qed

lemma resolve_table_grown:
  assumes "resolve_table rc U tid args R = Inr (ty, R')" "resolved_ok R"
    and args: "\<forall>a \<in> set args. ft_closed (bt_keys R) a"
  shows "grown R R' \<and> ft_closed (bt_keys R') ty"
proof (cases "bt_get R (type_repr tid args)")
  case (Some st)
  then have "type_repr tid args \<in> bt_keys R" by (simp add: bt_keys_iff)
  moreover have "R' = R \<and> ty = FTable (type_repr tid args)"
    using Some assms(1) by (auto simp: resolve_table_def Let_def split: if_splits)
  ultimately show ?thesis using assms(2) by (simp add: grown_refl)
next
  case None
  let ?r = "type_repr tid args"
  let ?R1 = "bt_insert ?r \<lparr>st_name = ?r, st_fields = []\<rparr> R"
  from assms(1) None obtain it flds R2 where
    it: "foldR (resolve_field (rc (bt_collect (zip (ti_generics it) args))) it ?r) ([], ?R1) (ti_fields it)
       = Inr (flds, R2)" "primary_key_count flds \<le> 1" "set_type_fields ?r flds R2 = Inr R'" "ty = FTable ?r"
    by (auto simp: resolve_table_def Let_def not_less split: if_splits prod.splits)
  have g1: "grown R ?R1"
    using assms(2) by (intro resolved_ok_insert) (simp_all add: type_ok_def primary_key_count_def)
  have ctx: "context_ok ?R1 (bt_collect (zip (ti_generics it) args))"
    using args bt_get_collect_zip [of "ti_generics it" args]
    by (fastforce simp: context_ok_def intro: ft_closed_mono)
  have g2: "grown ?R1 R2" "bt_ok flds" "\<forall>f \<in> snd ` set flds. field_ok (bt_keys R2) f"
    using resolve_fields_grown [OF it(1) _ ctx] g1 by (auto simp: grown_def)
  have g3: "grown R2 R'"
    using set_type_fields_grown [OF _ it(3) g2(2,3) it(2)] g2(1) by (simp add: grown_def)
  have "?r \<in> bt_keys ?R1" by simp
  with g2(1) g3 it(4) have "ft_closed (bt_keys R') ty" by (auto simp: grown_def)
  with g1 g2(1) g3 show ?thesis using grown_trans by blast
qed

lemma resolve_head_grown:
  assumes "resolve_head rc U ctx tid args R = Inr (ty, R')" "resolved_ok R" "context_ok R ctx"
    and "\<forall>a \<in> set args. ft_closed (bt_keys R) a"
  shows "grown R R' \<and> ft_closed (bt_keys R') ty"
  using assms resolve_table_grown [of U tid args R ty R']
  by (auto simp: resolve_head_def grown_refl context_ok_def
      split: option.splits if_splits list.splits field_type.splits)

end

lemma resolver_step: "type_resolver (resolve_type_expr n U)"
proof (induction n)
  case 0
  show ?case by unfold_locales simp
next
  case (Suc n)
  show ?case
  proof
    fix ctx e R ty R'
    assume r: "resolve_type_expr (Suc n) U ctx e R = Inr (ty, R')" and ok: "resolved_ok R" "context_ok R ctx"
    obtain tid args where e: "expr_parts e = (tid, args)" by force
    from r e obtain args' R1 where
      1: "mapSR (resolve_type_expr n U ctx) args R = Inr (args', R1)"
         "resolve_head (resolve_type_expr n U) U ctx tid args' R1 = Inr (ty, R')"
      by auto
    have g: "grown R R1" "\<forall>a \<in> set args'. ft_closed (bt_keys R1) a"
      using mapSR_grown [OF 1(1) ok(1) type_resolver.rc_ok [OF Suc.IH] ok(2)] by auto
    then have "grown R1 R' \<and> ft_closed (bt_keys R') ty"
      using type_resolver.resolve_head_grown [OF Suc.IH 1(2)] context_ok_mono [OF ok(2)]
      by (simp add: grown_def)
    with g(1) show "grown R R' \<and> ft_closed (bt_keys R') ty" using grown_trans by blast
  qed
qed

interpretation resolve: type_resolver "resolve_type_expr n U" for n U
  by (rule resolver_step)

lemma compile_item_ok:
  assumes "compile_item n U (ex, R) x = Inr (ex', R')" "resolved_ok R" "bt_ok ex"
    and "\<forall>ty \<in> snd ` set ex. ft_closed (bt_keys R) ty"
  shows "grown R R' \<and> bt_ok ex' \<and> (\<forall>ty \<in> snd ` set ex'. ft_closed (bt_keys R') ty)"
proof (cases x)
  case (SExport y)
  with assms(1) obtain ty where
    y: "resolve_type_expr n U [] (ei_ty y) R = Inr (ty, R')" "ex' = bt_insert (ei_table_name y) ty ex"
    by (auto split: if_splits)
  have g: "grown R R'" "ft_closed (bt_keys R') ty"
    using resolve.rc_ok [OF y(1) assms(2)] by (auto simp: context_ok_def)
  have "ft_closed (bt_keys R') t" if "t \<in> snd ` set ex'" for t
  proof -
    have "t = ty \<or> t \<in> snd ` set ex"
      using that y(2) set_bt_insert_subset [of "ei_table_name y" ty ex] by auto
    then show ?thesis using g assms(4) ft_closed_mono unfolding grown_def by blast
  qed
  then show ?thesis using g y(2) assms(3) by simp
next
  case (SType y)
  then show ?thesis using assms by (simp add: grown_refl)
qed

lemma resolved_ok_Nil [simp]: "resolved_ok []"
  by (simp add: resolved_ok_def bt_ok_def)

lemma compiled_schema_ok: "compile n items = Inr s \<Longrightarrow> schema_ok s"
proof -
  assume "compile n items = Inr s"
  then obtain U ex R where s: "foldR (compile_item n U) ([], []) items = Inr (ex, R)"
      "s = \<lparr>cs_types = R, cs_exports = ex\<rparr>"
    by (auto simp: compile_def)
  let ?P = "\<lambda>(ex, R). resolved_ok R \<and> bt_ok ex \<and> (\<forall>ty \<in> snd ` set ex. ft_closed (bt_keys R) ty)"
  have "?P (ex, R)"
  proof (rule foldR_invariant [OF s(1)])
    show "?P ([], [])" by (simp add: bt_ok_def)
  next
    fix st x st' assume "?P st" "compile_item n U st x = Inr st'"
    then show "?P st'" using compile_item_ok [of n U "fst st" "snd st" x "fst st'" "snd st'"]
      by (simp add: case_prod_beta grown_def)
  qed
  then show ?thesis by (simp add: s(2) schema_ok_def)
qed

lemma tree_compiles: "\<exists>s. compile 24 tree_schema = Inr s \<and> length (cs_types s) = 1"
proof -
  have "case compile 24 tree_schema of Inr s \<Rightarrow> length (cs_types s) = 1 | _ \<Rightarrow> False" by code_simp
  then show ?thesis by (auto split: sum.splits)
qed

text \<open>
  C23. A schema that compiles is well-formed: it is closed (every table a field, a set
  or an export names is one of its types, under its own name), indexes and primary
  keys sit on primitive fields, and no type has two primary keys.
\<close>

theorem compile_wf: "compile n items = Inr s \<Longrightarrow> schema_ok s"
  by (rule compiled_schema_ok)

theorem compile_wf_witness:
  "\<exists>s. compile 24 tree_schema = Inr s \<and> length (cs_types s) = 1 \<and> schema_ok s"
  using tree_compiles compile_wf by blast

section \<open>Names\<close>

definition type_names :: "schema_ast \<Rightarrow> string list" where
  "type_names items = concat (map (\<lambda>it. case it of SType x \<Rightarrow> [ti_name x] | SExport _ \<Rightarrow> []) items)"

definition export_names :: "schema_ast \<Rightarrow> string list" where
  "export_names items = concat (map (\<lambda>it. case it of SExport x \<Rightarrow> [ei_table_name x] | SType _ \<Rightarrow> []) items)"

lemma new_context_names:
  assumes "foldR new_context_item U items = Inr U'" "distinct ns" "bt_keys U = set ns" "\<forall>n \<in> set ns. starts_upper n"
  shows "distinct (ns @ type_names items) \<and> bt_keys U' = set (ns @ type_names items) \<and>
    (\<forall>n \<in> set (ns @ type_names items). starts_upper n)"
  using assms
proof (induction items arbitrary: U ns)
  case (Cons x items)
  show ?case
  proof (cases x)
    case (SType y)
    with Cons.prems have "distinct (ns @ [ti_name y])" "bt_keys (bt_insert (ti_name y) y U) = set (ns @ [ti_name y])"
      "\<forall>n \<in> set (ns @ [ti_name y]). starts_upper n" "foldR new_context_item (bt_insert (ti_name y) y U) items = Inr U'"
      using bt_keys_iff [of "ti_name y" U] by (auto split: if_splits)
    from Cons.IH [OF this(4,1,2,3)] show ?thesis using SType by (simp add: type_names_def)
  next
    case (SExport y)
    with Cons show ?thesis by (simp add: type_names_def)
  qed
qed (simp add: type_names_def)

lemma compile_export_names:
  assumes "foldR (compile_item n U) (ex, R) items = Inr (ex', R')" "distinct ns" "bt_keys ex = set ns"
  shows "distinct (ns @ export_names items) \<and> bt_keys ex' = set (ns @ export_names items)"
  using assms
proof (induction items arbitrary: ex R ns)
  case (Cons x items)
  show ?case
  proof (cases x)
    case (SExport y)
    with Cons.prems(1) obtain ty R1 where
      *: "bt_get ex (ei_table_name y) = None" "foldR (compile_item n U) (bt_insert (ei_table_name y) ty ex, R1) items = Inr (ex', R')"
      by (auto split: if_splits)
    then have "distinct (ns @ [ei_table_name y])" "bt_keys (bt_insert (ei_table_name y) ty ex) = set (ns @ [ei_table_name y])"
      using Cons.prems(2,3) bt_keys_iff [of "ei_table_name y" ex] by auto
    from Cons.IH [OF *(2) this] show ?thesis using SExport by (simp add: export_names_def)
  next
    case (SType y)
    with Cons show ?thesis by (simp add: export_names_def)
  qed
qed (simp add: export_names_def)

text \<open>
  The names of a schema that compiles: no type is declared twice, every type name
  starts with an upper-case letter, no table is exported twice, and the exports of
  the result are exactly the declared ones.
\<close>

theorem compile_names:
  assumes "compile n items = Inr s"
  shows "distinct (type_names items) \<and> (\<forall>t \<in> set (type_names items). starts_upper t) \<and>
    distinct (export_names items) \<and> bt_keys (cs_exports s) = set (export_names items)"
proof -
  from assms obtain U ex R where *: "foldR new_context_item [] items = Inr U"
    "foldR (compile_item n U) ([], []) items = Inr (ex, R)" "s = \<lparr>cs_types = R, cs_exports = ex\<rparr>"
    by (auto simp: compile_def new_context_def)
  show ?thesis
    using new_context_names [OF *(1), of "[]"] compile_export_names [OF *(2), of "[]"] *(3) by simp
qed

theorem compile_names_witness:
  "distinct (type_names tree_schema) \<and> distinct (export_names tree_schema) \<and> export_names tree_schema = [''nodes'']"
proof -
  obtain s where "compile 24 tree_schema = Inr s" using tree_compiles by blast
  from compile_names [OF this] show ?thesis by (simp add: export_names_def tree_schema_def mk_export_def)
qed

end
