(* ===== verification/Schema_Termination.thy ===== *)
theory Schema_Termination
  imports Schema_Compile
begin

text \<open>
  When the schema compiler returns. Its recursion follows the type instances that
  the exports reach; a finite closed set of them gives a bound on the depth, and a
  type nested in its own argument has no bound.
\<close>

text \<open>
  The type an expression denotes, without the table of resolved types, and the type
  instances whose resolution an expression triggers.
\<close>

fun denote_head :: "local_context \<Rightarrow> string \<Rightarrow> field_type list \<Rightarrow> field_type" where
  "denote_head ctx tid args =
     (case bt_get ctx tid of
        Some x \<Rightarrow> x
      | None \<Rightarrow>
     (case PRIMITIVE_TYPES tid of
        Some p \<Rightarrow> FPrimitive p
      | None \<Rightarrow> if tid = ''set'' then FSet (hd args) else FTable (type_repr tid args)))"

fun denote :: "local_context \<Rightarrow> type_expr \<Rightarrow> field_type" where
  "denote ctx (Unit x) = denote_head ctx x []"
| "denote ctx (Specialize x args) = denote_head ctx x (map (denote ctx) args)"

definition is_table_head :: "local_context \<Rightarrow> string \<Rightarrow> bool" where
  "is_table_head ctx tid \<longleftrightarrow> bt_get ctx tid = None \<and> PRIMITIVE_TYPES tid = None \<and> tid \<noteq> ''set''"

fun instances :: "local_context \<Rightarrow> type_expr \<Rightarrow> (string \<times> field_type list) list" where
  "instances ctx (Unit x) = (if is_table_head ctx x then [(x, [])] else [])"
| "instances ctx (Specialize x args) =
     (if is_table_head ctx x then [(x, map (denote ctx) args)] else []) @
     concat (map (instances ctx) args)"

fun expr_size :: "type_expr \<Rightarrow> nat" where
  "expr_size (Unit x) = 1"
| "expr_size (Specialize x args) = Suc (sum_list (map expr_size args))"

definition instance_context :: "type_item \<Rightarrow> field_type list \<Rightarrow> local_context" where
  "instance_context it args = bt_collect (zip (ti_generics it) args)"

text \<open>A set of instances that the fields of its own members do not leave.\<close>

definition instances_closed :: "unresolved \<Rightarrow> (string \<times> field_type list) set \<Rightarrow> bool" where
  "instances_closed U S \<longleftrightarrow> (\<forall>(tid, args) \<in> S. \<forall>it. bt_get U tid = Some it \<longrightarrow>
     (\<forall>f \<in> set (ti_fields it). set (instances (instance_context it args) (tf_value f)) \<subseteq> S))"

definition max_field_size :: "unresolved \<Rightarrow> nat" where
  "max_field_size U =
     Max (insert 0 (set (concat (map (\<lambda>(_, it). map (\<lambda>f. expr_size (tf_value f)) (ti_fields it)) U))))"

definition pending_instances :: "(string \<times> field_type list) set \<Rightarrow> resolved \<Rightarrow> (string \<times> field_type list) set" where
  "pending_instances S R = {i \<in> S. type_repr (fst i) (snd i) \<notin> bt_keys R}"

definition fuel_bound :: "unresolved \<Rightarrow> (string \<times> field_type list) set \<Rightarrow> resolved \<Rightarrow> type_expr \<Rightarrow> nat" where
  "fuel_bound U S R e = card (pending_instances S R) * Suc (max_field_size U) + expr_size e"

lemma field_size_le: "bt_get U tid = Some it \<Longrightarrow> f \<in> set (ti_fields it) \<Longrightarrow> expr_size (tf_value f) \<le> max_field_size U"
  unfolding max_field_size_def
  by (rule Max_ge) (auto dest: map_of_SomeD)

lemma expr_size_pos: "expr_size e > 0"
  by (cases e) simp_all

lemma expr_parts_smaller: "expr_parts e = (tid, args) \<Longrightarrow> a \<in> set args \<Longrightarrow> expr_size a < expr_size e"
  by (cases e) (auto simp: less_Suc_eq_le member_le_sum_list)

lemma instances_parts:
  "expr_parts e = (tid, args) \<Longrightarrow>
   set (instances ctx e) = (if is_table_head ctx tid then {(tid, map (denote ctx) args)} else {}) \<union>
     (\<Union>a \<in> set args. set (instances ctx a))"
  by (cases e) auto

lemma denote_parts: "expr_parts e = (tid, args) \<Longrightarrow> denote ctx e = denote_head ctx tid (map (denote ctx) args)"
  by (cases e) auto

lemma resolve_denote:
  "resolve_type_expr n U ctx e R = Inr (ty, R') \<Longrightarrow> ty = denote ctx e"
proof (induction n arbitrary: ctx e R ty R')
  case (Suc n)
  obtain tid args where e: "expr_parts e = (tid, args)" by force
  with Suc.prems obtain args' R1 where
    1: "mapSR (resolve_type_expr n U ctx) args R = Inr (args', R1)"
       "resolve_head (resolve_type_expr n U) U ctx tid args' R1 = Inr (ty, R')"
    by auto
  have "args' = map (denote ctx) args"
    using 1(1)
  proof (induction args arbitrary: R args')
    case (Cons a args)
    then show ?case by (auto dest: Suc.IH)
  qed simp
  moreover have "ty = denote_head ctx tid args'"
    using 1(2) by (auto simp: resolve_head_def resolve_table_def Let_def
        split: option.splits if_splits list.splits field_type.splits)
  ultimately show ?case using denote_parts [OF e] by simp
qed simp

lemma mapSR_denote:
  "mapSR (resolve_type_expr n U ctx) args R = Inr (args', R1) \<Longrightarrow> args' = map (denote ctx) args"
proof (induction args arbitrary: R args')
  case (Cons a args)
  then show ?case by (auto dest: resolve_denote)
qed simp

lemma fuel_bound_mono:
  assumes "finite S" "bt_keys R \<subseteq> bt_keys R'" "expr_size e' \<le> expr_size e"
  shows "fuel_bound U S R' e' \<le> fuel_bound U S R e"
proof -
  have "pending_instances S R' \<subseteq> pending_instances S R" "finite (pending_instances S R)"
    using assms by (auto simp: pending_instances_def)
  then have "card (pending_instances S R') \<le> card (pending_instances S R)" by (rule card_mono [rotated])
  then show ?thesis using assms(3) by (simp add: fuel_bound_def add_mono mult_le_mono1 del: mult_Suc_right)
qed

lemma fuel_bound_field:
  assumes "finite S" "(tid, args) \<in> S" "bt_get R (type_repr tid args) = None"
    and "bt_get U tid = Some it" "f \<in> set (ti_fields it)"
    and "insert (type_repr tid args) (bt_keys R) \<subseteq> bt_keys R'"
  shows "fuel_bound U S R' (tf_value f) < fuel_bound U S R e"
proof -
  have "(tid, args) \<in> pending_instances S R" "(tid, args) \<notin> pending_instances S R'"
    using assms(2,3,6) by (auto simp: pending_instances_def) (simp add: bt_keys_iff)
  moreover have "pending_instances S R' \<subseteq> pending_instances S R" "finite (pending_instances S R)"
    using assms(1,6) by (auto simp: pending_instances_def)
  ultimately have "pending_instances S R' \<subset> pending_instances S R" "finite (pending_instances S R)"
    by auto
  then have "card (pending_instances S R') < card (pending_instances S R)"
    by (rule psubset_card_mono [rotated])
  then have "Suc (card (pending_instances S R')) * Suc (max_field_size U)
      \<le> card (pending_instances S R) * Suc (max_field_size U)"
    by (intro mult_le_mono1) simp
  then show ?thesis
    using field_size_le [OF assms(4,5)] expr_size_pos [of e] by (simp add: fuel_bound_def)
qed

lemma settled_resolve_annotation: "settled (resolve_annotation field repr a)"
  by (simp add: resolve_annotation_def split: list.splits literal.splits)

lemma settled_resolve_field:
  "settled (rc (tf_value x) R) \<Longrightarrow> settled (resolve_field rc ty repr (flds, R) x)"
  by (auto simp: resolve_field_def intro!: settled_bindR settled_mapR settled_resolve_annotation)

lemma settled_set_type_fields: "n \<in> bt_keys R \<Longrightarrow> settled (set_type_fields n flds R)"
  by (auto simp: set_type_fields_def bt_keys_iff)


lemma resolve_table_settled:
  assumes "finite S" "instances_closed U S" "(tid, args) \<in> S" "resolved_ok R"
    and args: "\<forall>a \<in> set args. ft_closed (bt_keys R) a"
    and rc: "\<And>ctx e R. resolved_ok R \<Longrightarrow> context_ok R ctx \<Longrightarrow> set (instances ctx e) \<subseteq> S \<Longrightarrow>
      fuel_bound U S R e \<le> n \<Longrightarrow> settled (resolve_type_expr n U ctx e R)"
    and n: "fuel_bound U S R e \<le> Suc n"
  shows "settled (resolve_table (resolve_type_expr n U) U tid args R)"
proof -
  let ?r = "type_repr tid args"
  let ?R1 = "bt_insert ?r \<lparr>st_name = ?r, st_fields = []\<rparr> R"
  have main: "settled (foldR (resolve_field (resolve_type_expr n U (instance_context it args)) it ?r)
      ([], ?R1) (ti_fields it))" (is ?A) and
    key: "foldR (resolve_field (resolve_type_expr n U (instance_context it args)) it ?r)
      ([], ?R1) (ti_fields it) = Inr (flds, R2) \<Longrightarrow> ?r \<in> bt_keys R2"
    if it: "bt_get U tid = Some it" "bt_get R ?r = None" for it flds R2
  proof -
    let ?ctx = "instance_context it args"
    let ?P = "\<lambda>st. grown ?R1 (snd st) \<and> bt_ok (fst st) \<and>
      (\<forall>f \<in> snd ` set (fst st). field_ok (bt_keys (snd st)) f)"
    have g1: "grown R ?R1"
      using assms(4) by (intro resolved_ok_insert) (simp_all add: type_ok_def primary_key_count_def)
    have ctx: "context_ok ?R1 ?ctx"
      using args bt_get_collect_zip [of "ti_generics it" args]
      by (fastforce simp: context_ok_def instance_context_def intro: ft_closed_mono)
    have P0: "?P ([], ?R1)" using g1 by (simp add: grown_def)
    have step: "?P s'" if "?P s" "resolve_field (resolve_type_expr n U ?ctx) it ?r s x = Inr s'" for s x s'
      using that resolve.resolve_field_grown [of n U ?ctx it ?r "fst s" "snd s" x "fst s'" "snd s'"]
        context_ok_mono [OF ctx] grown_trans [of ?R1 "snd s" "snd s'"] by (simp add: grown_def)
    show ?A
    proof (rule settled_foldR [where P = ?P])
      fix s :: "(string, field_type \<times> field_annotation list) btree \<times> resolved" and x
      assume s: "x \<in> set (ti_fields it)" "?P s"
      have "settled (resolve_type_expr n U ?ctx (tf_value x) (snd s))"
      proof (rule rc)
        show "fuel_bound U S (snd s) (tf_value x) \<le> n"
          using fuel_bound_field [OF assms(1,3) it(2,1) s(1), of "snd s" e] s(2) n by (simp add: grown_def)
        show "set (instances ?ctx (tf_value x)) \<subseteq> S"
          using assms(2,3) it(1) s(1) unfolding instances_closed_def by blast
      qed (use s(2) context_ok_mono [OF ctx] in \<open>auto simp: grown_def\<close>)
      then show "settled (resolve_field (resolve_type_expr n U ?ctx) it ?r s x)"
        using settled_resolve_field [of "resolve_type_expr n U ?ctx" x "snd s" it ?r "fst s"] by simp
    qed (use P0 in simp, rule step)
    assume "foldR (resolve_field (resolve_type_expr n U ?ctx) it ?r) ([], ?R1) (ti_fields it) = Inr (flds, R2)"
    then have "?P (flds, R2)" using P0 step by (rule foldR_invariant)
    then show "?r \<in> bt_keys R2" by (auto simp: grown_def)
  qed
  show ?thesis
    unfolding resolve_table_def Let_def instance_context_def [symmetric]
    by (intro settled_bindR) (auto intro!: settled_bindR settled_set_type_fields main key)
qed

lemma resolve_head_settled:
  assumes "is_table_head ctx tid \<Longrightarrow> settled (resolve_table rc U tid args R)"
  shows "settled (resolve_head rc U ctx tid args R)"
  using assms
  by (auto simp: resolve_head_def is_table_head_def split: option.splits list.splits field_type.splits)

lemma resolve_settled:
  assumes "finite S" "instances_closed U S"
  shows "resolved_ok R \<Longrightarrow> context_ok R ctx \<Longrightarrow> set (instances ctx e) \<subseteq> S \<Longrightarrow>
    fuel_bound U S R e \<le> n \<Longrightarrow> settled (resolve_type_expr n U ctx e R)"
proof (induction n arbitrary: ctx e R)
  case 0
  then show ?case using expr_size_pos [of e] by (simp add: fuel_bound_def)
next
  case (Suc n)
  obtain tid args where e: "expr_parts e = (tid, args)" by force
  let ?m = "mapSR (resolve_type_expr n U ctx) args R"
  have m: "settled ?m"
  proof (rule settled_mapSR [where P = "grown R"])
    show "grown R R" using Suc.prems(1) by (rule grown_refl)
  next
    fix R1 a assume a: "a \<in> set args" "grown R R1"
    have "fuel_bound U S R1 a \<le> fuel_bound U S R a" "fuel_bound U S R a < fuel_bound U S R e"
      using fuel_bound_mono [OF assms(1), of R R1 a a U] expr_parts_smaller [OF e a(1)] a(2)
      by (simp_all add: grown_def fuel_bound_def)
    moreover have "set (instances ctx a) \<subseteq> S"
      using Suc.prems(3) a(1) instances_parts [OF e, of ctx] by auto
    ultimately show "settled (resolve_type_expr n U ctx a R1)"
      using Suc.IH [of R1 ctx a] Suc.prems(4) a(2) context_ok_mono [OF Suc.prems(2), of R1]
      by (simp add: grown_def)
  next
    fix R1 a y R2 assume "grown R R1" "resolve_type_expr n U ctx a R1 = Inr (y, R2)"
    then show "grown R R2"
      using resolve.rc_ok [of n U ctx a R1 y R2] context_ok_mono [OF Suc.prems(2), of R1] grown_trans
      by (auto simp: grown_def)
  qed
  have "settled (resolve_head (resolve_type_expr n U) U ctx tid args' R1)"
    if r: "?m = Inr (args', R1)" for args' R1
  proof (rule resolve_head_settled)
    assume "is_table_head ctx tid"
    then have "(tid, args') \<in> S"
      using Suc.prems(3) instances_parts [OF e, of ctx] mapSR_denote [OF r] by auto
    moreover have g: "grown R R1" "\<forall>a \<in> set args'. ft_closed (bt_keys R1) a"
      using mapSR_grown [OF r Suc.prems(1) resolve.rc_ok Suc.prems(2)] by auto
    moreover have "fuel_bound U S R1 e \<le> Suc n"
      using fuel_bound_mono [OF assms(1), of R R1 e e U] g(1) Suc.prems(4) by (simp add: grown_def)
    ultimately show "settled (resolve_table (resolve_type_expr n U) U tid args' R1)"
      by (intro resolve_table_settled [OF assms]) (auto simp: grown_def intro: Suc.IH)
  qed
  with m show ?case by (auto simp: e intro!: settled_bindR)
qed

text \<open>Enough fuel for a whole schema: one round per instance, and the largest export.\<close>

definition compile_fuel :: "unresolved \<Rightarrow> nat \<Rightarrow> schema_ast \<Rightarrow> nat" where
  "compile_fuel U k items = k * Suc (max_field_size U) +
     sum_list (map (\<lambda>it. case it of SExport x \<Rightarrow> expr_size (ei_ty x) | SType _ \<Rightarrow> 0) items)"

definition exports_within :: "(string \<times> field_type list) set \<Rightarrow> schema_ast \<Rightarrow> bool" where
  "exports_within S items \<longleftrightarrow> (\<forall>x. SExport x \<in> set items \<longrightarrow> set (instances [] (ei_ty x)) \<subseteq> S)"

lemma new_context_settled: "settled (new_context items)"
  unfolding new_context_def
proof (rule settled_foldR [where P = "\<lambda>_. True"])
  fix U x show "settled (new_context_item U x)" by (cases x) simp_all
qed simp_all

lemma compile_fuel_export:
  assumes "SExport x \<in> set items" "finite S"
  shows "fuel_bound U S R (ei_ty x) \<le> compile_fuel U (card S) items"
proof -
  have "expr_size (ei_ty x) \<in> set (map (\<lambda>it. case it of SExport x \<Rightarrow> expr_size (ei_ty x) | SType _ \<Rightarrow> 0) items)"
    using assms(1) by force
  moreover have "card (pending_instances S R) \<le> card S"
    using assms(2) by (intro card_mono) (auto simp: pending_instances_def)
  ultimately show ?thesis
    unfolding fuel_bound_def compile_fuel_def by (intro add_mono mult_le_mono1 member_le_sum_list) auto
qed

text \<open>
  C28. Compilation returns: when the type instances reachable from the exports lie in
  a finite set, \<open>compile\<close> with the stated fuel ends with a schema or one of its
  own errors. It neither panics (the \<open>unwrap\<close> of the entry it inserted before) nor
  recurses without end.
\<close>

theorem compile_terminates:
  assumes "new_context items = Inr U" "finite S" "instances_closed U S" "exports_within S items"
    and "compile_fuel U (card S) items \<le> n"
  shows "(\<exists>s. compile n items = Inr s) \<or> (\<exists>e. compile n items = Inl (Err e))"
proof -
  let ?P = "\<lambda>(ex, R). resolved_ok R \<and> bt_ok ex \<and> (\<forall>ty \<in> snd ` set ex. ft_closed (bt_keys R) ty)"
  have "settled (foldR (compile_item n U) ([], []) items)"
  proof (rule settled_foldR [where P = ?P])
    fix s :: "(string, field_type) btree \<times> resolved" and x assume s: "x \<in> set items" "?P s"
    show "settled (compile_item n U s x)"
    proof (cases x)
      case (SExport y)
      have "settled (resolve_type_expr n U [] (ei_ty y) (snd s))"
        using s SExport assms compile_fuel_export [of y items S U "snd s"]
        by (intro resolve_settled [OF assms(2,3)])
          (auto simp: context_ok_def exports_within_def)
      then show ?thesis using SExport by (cases s) (auto intro!: settled_bindR)
    qed (cases s, simp)
  next
    fix s x s' assume "?P s" "compile_item n U s x = Inr s'"
    then show "?P s'" using compile_item_ok [of n U "fst s" "snd s" x "fst s'" "snd s'"]
      by (simp add: case_prod_beta grown_def)
  qed (simp add: bt_ok_def)
  then have "settled (compile n items)"
    using assms(1) by (auto simp: compile_def intro!: settled_bindR)
  then show ?thesis by (simp add: settled_cases)
qed

lemma tree_context: "new_context tree_schema = Inr [(''Node'', tree_item)]"
  by code_simp

theorem compile_terminates_witness:
  "(\<exists>s. compile 24 tree_schema = Inr s) \<or> (\<exists>e. compile 24 tree_schema = Inl (Err e))"
proof (rule compile_terminates [where S = "{(''Node'', [FPrimitive Int64T])}", OF tree_context])
  show "instances_closed [(''Node'', tree_item)] {(''Node'', [FPrimitive Int64T])}"
    by (simp add: instances_closed_def tree_item_def mk_type_def mk_field_def instance_context_def
        is_table_head_def PRIMITIVE_TYPES_def bt_collect_def)
  show "exports_within {(''Node'', [FPrimitive Int64T])} tree_schema"
    by (simp add: exports_within_def tree_schema_def mk_export_def is_table_head_def PRIMITIVE_TYPES_def)
  show "compile_fuel [(''Node'', tree_item)] (card {(''Node'', [FPrimitive Int64T])}) tree_schema \<le> 24"
    by (simp add: compile_fuel_def max_field_size_def tree_schema_def tree_item_def mk_export_def mk_type_def mk_field_def)
qed simp

lemma nested_diverges:
  assumes "type_repr ''A'' [ty] \<in> bt_keys R"
    and "\<forall>k \<in> bt_keys R. length k \<le> length (type_repr ''A'' [ty])"
  shows "resolve_type_expr n [(''A'', nested_item)] [(''T'', ty)]
    (Specialize ''A'' [Specialize ''A'' [Unit ''T'']]) R = Inl OutOfFuel"
  using assms
proof (induction n arbitrary: ty R)
  case (Suc n)
  let ?U = "[(''A'', nested_item)]"
  let ?t = "FTable (type_repr ''A'' [ty])"
  let ?R1 = "bt_insert (type_repr ''A'' [?t]) \<lparr>st_name = type_repr ''A'' [?t], st_fields = []\<rparr> R"
  have len: "length (type_repr ''A'' [ty]) < length (type_repr ''A'' [?t])"
    by (simp add: type_repr_def)
  then have new: "bt_get R (type_repr ''A'' [?t]) = None"
    using Suc.prems(2) by (metis bt_keys_iff not_less)
  have inner: "resolve_type_expr n ?U [(''T'', ty)] (Specialize ''A'' [Unit ''T'']) R
      \<in> {Inl OutOfFuel, Inr (?t, R)}"
    using Suc.prems(1)
    by (cases n; cases "n - 1")
      (auto simp: resolve_head_def PRIMITIVE_TYPES_def resolve_table_def nested_defs Let_def bt_keys_iff)
  have "resolve_type_expr n ?U [(''T'', ?t)]
      (Specialize ''A'' [Specialize ''A'' [Unit ''T'']]) ?R1 = Inl OutOfFuel"
    using Suc.prems(2) len by (intro Suc.IH) auto
  then show ?case
    using inner new
    by (auto simp: resolve_head_def PRIMITIVE_TYPES_def resolve_table_def nested_defs Let_def
        resolve_field_def bt_collect_def)
qed simp


lemma resolve_head_fuel_le:
  assumes "\<And>ctx e R. fuel_le (rc ctx e R) (rc' ctx e R)"
  shows "fuel_le (resolve_head rc U ctx tid args R) (resolve_head rc' U ctx tid args R)"
  using assms
  by (auto simp: resolve_head_def resolve_table_def resolve_field_def Let_def case_prod_beta
      split: option.splits list.splits field_type.splits intro!: fuel_le_bindR fuel_le_foldR)

lemma resolve_fuel_mono: "fuel_le (resolve_type_expr n U ctx e R) (resolve_type_expr (n + k) U ctx e R)"
proof (induction n arbitrary: ctx e R)
  case (Suc n)
  then show ?case
    by (auto split: prod.splits intro!: fuel_le_bindR fuel_le_mapSR resolve_head_fuel_le)
qed simp

text \<open>
  The fuel is no part of the result: once \<open>compile\<close> has an outcome, every larger
  amount gives the same one.
\<close>

theorem compile_fuel_mono:
  assumes "compile n items \<noteq> Inl OutOfFuel" "n \<le> m"
  shows "compile m items = compile n items"
proof -
  obtain k where m: "m = n + k" using assms(2) le_Suc_ex by blast
  have "fuel_le (compile_item n U st x) (compile_item m U st x)" for U st x
    unfolding m by (cases st; cases x) (auto intro!: fuel_le_bindR resolve_fuel_mono)
  then have "fuel_le (compile n items) (compile m items)"
    unfolding compile_def by (auto intro!: fuel_le_bindR fuel_le_foldR)
  with assms(1) show ?thesis by (auto simp: fuel_le_def)
qed

theorem compile_fuel_mono_witness: "compile 1000 tree_schema = compile 24 tree_schema"
proof (rule compile_fuel_mono)
  show "compile 24 tree_schema \<noteq> Inl OutOfFuel" by code_simp
qed simp

end
