(* ===== verification/Storage_Plan.thy ===== *)
theory Storage_Plan
  imports Schema_Compile
begin

text \<open>
  Storage plans: the trees of \<^verbatim>\<open>storage_plan/mod.rs\<close> that give every exported field its
  storage key, and the conversion of their keys to and from base64 text of
  \<^verbatim>\<open>storage_plan/conversion.rs\<close>. A node is generic in its key, as in the source;
  \<open>node_keys\<close> lists the keys of a tree from the root.
\<close>

section \<open>Plans\<close>

type_synonym storage_key = bytes

datatype 'k storage_node =
  StorageNode (sn_key: 'k) (sn_flattened: bool) (subspace_reference: "'k option")
    (sn_set: "'k storage_node option") (sn_children: "(string \<times> 'k storage_node) list")

type_synonym 'k storage_plan = "(string, 'k storage_node) btree"

text \<open>\<open>Display\<close>: one line per node, its name, key, reference and layout.\<close>

fun display_fmt :: "externs \<Rightarrow> nat \<Rightarrow> storage_key storage_node \<Rightarrow> string" where
  "display_fmt E indent (StorageNode k fl ref st ch) =
     '' '' @ hex_encode E k @
     (case ref of Some x \<Rightarrow> '' subspace_reference('' @ base64_encode E x @ '')'' | None \<Rightarrow> '''') @
     (if fl then '' flattened'' else '''') @ [CHR 0x0A] @
     (case st of
        Some x \<Rightarrow> replicate (indent + 1) CHR ''.'' @ ''<set_member>'' @ display_fmt E (indent + 1) x
      | None \<Rightarrow>
          concat (map (\<lambda>c. replicate (indent + 1) CHR ''.'' @ fst c @ display_fmt E (indent + 1) (snd c)) ch))"

definition display_plan :: "externs \<Rightarrow> storage_key storage_plan \<Rightarrow> string" where
  "display_plan E p = concat (map (\<lambda>(n, x). ''top-level node: '' @ n @ display_fmt E 0 x) p)"

section \<open>Keys as text\<close>

datatype storage_key_conversion_error = Base64Decode

fun node_to_text :: "externs \<Rightarrow> storage_key storage_node \<Rightarrow> string storage_node" where
  "node_to_text E (StorageNode k fl ref st ch) =
     StorageNode (base64_encode E k) fl (map_option (base64_encode E) ref)
       (map_option (node_to_text E) st)
       (bt_collect (map (\<lambda>c. (fst c, node_to_text E (snd c))) ch))"

definition plan_to_text :: "externs \<Rightarrow> storage_key storage_plan \<Rightarrow> string storage_plan" where
  "plan_to_text E p = bt_collect (map (\<lambda>c. (fst c, node_to_text E (snd c))) p)"

definition key_of_text :: "externs \<Rightarrow> string \<Rightarrow> (storage_key_conversion_error, storage_key) outcome" where
  "key_of_text E s =
     (case base64_decode E s of
        None \<Rightarrow> Inl (Err Base64Decode)
      | Some b \<Rightarrow> if length b = 12 then Inr b else Inl (Err Base64Decode))"

fun node_of_text ::
  "externs \<Rightarrow> string storage_node \<Rightarrow> (storage_key_conversion_error, storage_key storage_node) outcome" where
  "node_of_text E (StorageNode k fl ref st ch) =
     bindR (key_of_text E k) (\<lambda>k'.
     bindR (option_mapR (key_of_text E) ref) (\<lambda>ref'.
     bindR (option_mapR (node_of_text E) st) (\<lambda>st'.
     bindR (mapR (\<lambda>c. bindR (node_of_text E (snd c)) (\<lambda>v. Inr (fst c, v))) ch) (\<lambda>ch'.
     Inr (StorageNode k' fl ref' st' (bt_collect ch'))))))"

definition plan_of_text ::
  "externs \<Rightarrow> string storage_plan \<Rightarrow> (storage_key_conversion_error, storage_key storage_plan) outcome" where
  "plan_of_text E p =
     bindR (mapR (\<lambda>c. bindR (node_of_text E (snd c)) (\<lambda>v. Inr (fst c, v))) p) (\<lambda>p'. Inr (bt_collect p'))"

section \<open>Keys of a tree and the shape invariant\<close>

fun node_keys :: "'k storage_node \<Rightarrow> 'k list" where
  "node_keys (StorageNode k fl ref st ch) =
     k # (case st of None \<Rightarrow> [] | Some x \<Rightarrow> node_keys x) @ concat (map (\<lambda>c. node_keys (snd c)) ch)"

definition plan_keys :: "'k storage_plan \<Rightarrow> 'k list" where
  "plan_keys p = concat (map (\<lambda>c. node_keys (snd c)) p)"

fun node_shape :: "storage_key storage_node \<Rightarrow> bool" where
  "node_shape (StorageNode k fl ref st ch) \<longleftrightarrow>
     length k = 12 \<and> (case ref of None \<Rightarrow> True | Some r \<Rightarrow> length r = 12) \<and>
     (case st of None \<Rightarrow> True | Some x \<Rightarrow> node_shape x) \<and>
     bt_ok ch \<and> list_all (\<lambda>c. node_shape (snd c)) ch"

definition plan_shape :: "storage_key storage_plan \<Rightarrow> bool" where
  "plan_shape p \<longleftrightarrow> bt_ok p \<and> (\<forall>c \<in> set p. node_shape (snd c))"

text \<open>What the conversion relies on of the \<^verbatim>\<open>base64\<close> crate.\<close>

definition base64_roundtrip :: "externs \<Rightarrow> bool" where
  "base64_roundtrip E \<longleftrightarrow> (\<forall>b. base64_decode E (base64_encode E b) = Some b)"

section \<open>Theorems\<close>

lemma bt_collect_map_sorted:
  assumes "bt_ok m" "map fst m' = map fst m"
  shows "bt_collect m' = m'"
  using assms by (auto simp: bt_ok_def intro: bt_collect_sorted)

lemma length_as_bytes: "length (as_bytes s) = length s"
  by (simp add: as_bytes_def)

lemma byte_of_char: "of_char (char_of (unat x)) = (x :: byte)"
proof -
  have "(of_char (char_of (unat x)) :: byte) = of_nat (of_char (char_of (unat x)))"
    by (simp only: of_nat_of_char)
  also have "\<dots> = x" using unsigned_less [of x, where 'a = nat] by simp
  finally show ?thesis .
qed

lemma key_roundtrip:
  "base64_roundtrip E \<Longrightarrow> length k = 12 \<Longrightarrow> key_of_text E (base64_encode E k) = Inr k"
  by (simp add: base64_roundtrip_def key_of_text_def)

lemma mapR_map_ident:
  "(\<And>x. x \<in> set xs \<Longrightarrow> f (g x) = Inr x) \<Longrightarrow> mapR f (map g xs) = Inr xs"
  by (induction xs) simp_all

lemma node_roundtrip:
  assumes "base64_roundtrip E" "node_shape n"
  shows "node_of_text E (node_to_text E n) = Inr n"
  using assms
proof (induction n rule: node_shape.induct)
  case (1 k fl ref st ch)
  have ch: "bt_ok ch" using 1 by simp
  have "mapR (\<lambda>c. bindR (node_of_text E (snd c)) (\<lambda>v. Inr (fst c, v)))
      (map (\<lambda>c. (fst c, node_to_text E (snd c))) ch) = Inr ch"
    using 1 by (intro mapR_map_ident) (auto simp: list_all_iff)
  then show ?case
    using 1 ch bt_collect_map_sorted [OF ch, of "map (\<lambda>c. (fst c, node_to_text E (snd c))) ch"]
    by (cases ref; cases st) (auto simp: key_roundtrip bt_collect_sorted comp_def)
qed

text \<open>Writing a storage plan with base64 keys and reading it back gives the same plan.\<close>

lemma plan_roundtrip:
  assumes "base64_roundtrip E" "plan_shape p"
  shows "plan_of_text E (plan_to_text E p) = Inr p"
proof -
  have ok: "bt_ok p" using assms(2) by (simp add: plan_shape_def)
  have "plan_to_text E p = map (\<lambda>c. (fst c, node_to_text E (snd c))) p"
    unfolding plan_to_text_def by (rule bt_collect_map_sorted [OF ok]) (simp add: comp_def)
  moreover have "mapR (\<lambda>c. bindR (node_of_text E (snd c)) (\<lambda>v. Inr (fst c, v)))
      (map (\<lambda>c. (fst c, node_to_text E (snd c))) p) = Inr p"
    using assms by (intro mapR_map_ident) (auto simp: plan_shape_def node_roundtrip)
  ultimately show ?thesis using ok by (simp add: plan_of_text_def bt_collect_sorted)
qed

lemma key_of_text_length: "key_of_text E s = Inr k \<Longrightarrow> length k = 12"
  by (auto simp: key_of_text_def split: option.splits if_splits)

lemma mapR_values:
  assumes "mapR (\<lambda>c. bindR (f (snd c)) (\<lambda>v. Inr (fst c, v))) cs = Inr cs'" "c \<in> set (bt_collect cs')"
  obtains d where "d \<in> set cs" "f (snd d) = Inr (snd c)"
proof -
  have "c \<in> set cs'" using assms(2) set_bt_collect by blast
  then obtain i where i: "i < length cs'" "c = cs' ! i" by (auto simp: in_set_conv_nth)
  have "list_all2 (\<lambda>d c. f (snd d) = Inr (snd c)) cs cs'"
    using assms(1) by (auto simp: mapR_Inr_iff elim!: list_all2_mono)
  then have "i < length cs" "f (snd (cs ! i)) = Inr (snd c)"
    using i by (simp_all add: list_all2_conv_all_nth)
  then show ?thesis by (intro that [of "cs ! i"]) simp_all
qed

lemma node_of_text_shape: "node_of_text E t = Inr n \<Longrightarrow> node_shape n"
proof (induction t arbitrary: n rule: node_of_text.induct)
  case (1 E k fl ref st ch)
  from 1(3) obtain k' ref' st' ch' where
    n: "n = StorageNode k' fl ref' st' (bt_collect ch')" "key_of_text E k = Inr k'"
       "option_mapR (key_of_text E) ref = Inr ref'" "option_mapR (node_of_text E) st = Inr st'"
       "mapR (\<lambda>c. bindR (node_of_text E (snd c)) (\<lambda>v. Inr (fst c, v))) ch = Inr ch'"
    by auto
  have ref: "case ref' of None \<Rightarrow> True | Some r \<Rightarrow> length r = 12"
    using n(3) by (cases ref) (auto simp: key_of_text_length)
  have st: "case st' of None \<Rightarrow> True | Some x \<Rightarrow> node_shape x"
    using n(2,3,4) 1(1) by (cases st) auto
  have "node_shape (snd c)" if "c \<in> set (bt_collect ch')" for c
    using mapR_values [OF n(5) that] 1(2) [OF n(2,3,4)] by (metis)
  with n(1,2) ref st show ?case by (simp add: key_of_text_length list_all_iff)
qed

text \<open>
  Reading never yields a malformed key: whatever text comes in, a plan that is
  accepted has twelve-byte keys and references and ordered children.
\<close>

lemma plan_of_text_shaped:
  assumes "plan_of_text E t = Inr p"
  shows "plan_shape p"
proof -
  from assms obtain p' where
    p: "mapR (\<lambda>c. bindR (node_of_text E (snd c)) (\<lambda>v. Inr (fst c, v))) t = Inr p'" "p = bt_collect p'"
    by (auto simp: plan_of_text_def)
  have "node_shape (snd c)" if "c \<in> set p" for c
    using mapR_values [OF p(1)] that p(2) node_of_text_shape by metis
  with p(2) show ?thesis by (simp add: plan_shape_def)
qed

end
