(* ===== verification/Planner.thy ===== *)
theory Planner
  imports Storage_Plan
begin

text \<open>
  The planner of \<^verbatim>\<open>storage_plan/planner.rs\<close>: it walks the types of a schema from the
  exports, gives every field a storage key and keeps the keys of an older plan where
  name and type agree. The clock and the random generator are a sequence of draws
  (milliseconds, six bytes) with a read position in the state. Two recursions need
  fuel: the walk, whose depth the schema bounds, and the retry loop of
  \<open>rand_storage_key\<close>, which ends as soon as a draw is new.
\<close>

section \<open>State\<close>

datatype planner_error = PMissingType string | SetMemberTypeWithoutPrimaryKey string

record plan_state =
  ps_old_schema :: compiled_schema
  used_storage_keys :: "storage_key set"
  recursive_types :: "string set"
  set_member_types :: "string set"
  fields_in_stack :: "string \<rightharpoonup> storage_key"
  ps_rng :: "nat \<Rightarrow> 64 word \<times> bytes"
  ps_pos :: nat

record old_tree_point =
  otp_name :: string
  otp_ty :: field_type
  otp_annotations :: "field_annotation list"
  otp_node :: "storage_key storage_node"

section \<open>Points of the old tree\<close>

definition reduce_set :: "old_tree_point \<Rightarrow> old_tree_point option" where
  "reduce_set p =
     (case otp_ty p of
        FSet x \<Rightarrow>
          (case sn_set (otp_node p) of
             Some y \<Rightarrow> Some (p\<lparr>otp_ty := x, otp_node := y\<rparr>)
           | None \<Rightarrow> None)
      | _ \<Rightarrow> None)"

definition validate_type :: "old_tree_point \<Rightarrow> field_type \<Rightarrow> old_tree_point option" where
  "validate_type p expected = (if otp_ty p \<noteq> expected then None else Some p)"

definition resolve_subfield ::
  "compiled_schema \<Rightarrow> old_tree_point \<Rightarrow> string list \<Rightarrow> old_tree_point option" where
  "resolve_subfield olds p altnames =
     (case find_map (\<lambda>x. map_option (Pair x) (bt_get (sn_children (otp_node p)) x)) altnames of
        None \<Rightarrow> None
      | Some (name, child) \<Rightarrow>
          (case otp_ty p of
             FTable t \<Rightarrow>
               (case bt_get (cs_types olds) t of
                  None \<Rightarrow> None
                | Some ty \<Rightarrow>
                    (case bt_get (st_fields ty) name of
                       None \<Rightarrow> None
                     | Some (cty, anns) \<Rightarrow>
                         Some \<lparr>otp_name = name, otp_ty = cty, otp_annotations = anns, otp_node = child\<rparr>))
           | _ \<Rightarrow> None))"

section \<open>Storage keys\<close>

definition draw_key :: "externs \<Rightarrow> 64 word \<times> bytes \<Rightarrow> storage_key" where
  "draw_key E d = drop 2 (write_u64 E (fst d)) @ snd d"

fun rand_storage_key ::
  "nat \<Rightarrow> externs \<Rightarrow> plan_state \<Rightarrow> (planner_error, storage_key \<times> plan_state) outcome" where
  "rand_storage_key 0 E st = Inl OutOfFuel"
| "rand_storage_key (Suc k) E st =
     (let d = ps_rng st (ps_pos st);
          st' = st\<lparr>ps_pos := Suc (ps_pos st)\<rparr>;
          timebuf = write_u64 E (fst d) in
      if timebuf ! 0 \<noteq> 0 then Inl (Panic ''assertion failed: timebuf[0] == 0'')
      else if timebuf ! 1 \<noteq> 0 then Inl (Panic ''assertion failed: timebuf[1] == 0'')
      else let ret = draw_key E d in
        if ret \<in> used_storage_keys st' then rand_storage_key k E st'
        else Inr (ret, st'\<lparr>used_storage_keys := insert ret (used_storage_keys st')\<rparr>))"

fun collect_storage_keys :: "'k storage_node \<Rightarrow> 'k set \<Rightarrow> 'k set" where
  "collect_storage_keys (StorageNode k fl ref st ch) sink =
     fold (\<lambda>c s. collect_storage_keys (snd c) s) ch
       (case st of None \<Rightarrow> insert k sink | Some x \<Rightarrow> collect_storage_keys x (insert k sink))"

definition key_or_rand ::
  "nat \<Rightarrow> externs \<Rightarrow> old_tree_point option \<Rightarrow> plan_state \<Rightarrow>
   (planner_error, storage_key \<times> plan_state) outcome" where
  "key_or_rand k E old st =
     (case old of Some p \<Rightarrow> Inr (sn_key (otp_node p), st) | None \<Rightarrow> rand_storage_key k E st)"

section \<open>Recursive types and set members\<close>

record special_types =
  sp_state :: "string set"
  sp_recursive :: "string set"
  sp_set_members :: "string set"

fun collect_special_types ::
  "nat \<Rightarrow> compiled_schema \<Rightarrow> special_types \<Rightarrow> field_type \<Rightarrow> (planner_error, special_types) outcome" where
  "collect_special_types 0 schema s ty = Inl OutOfFuel"
| "collect_special_types (Suc n) schema s (FSet x) =
     collect_special_types n schema
       (case x of FTable t \<Rightarrow> s\<lparr>sp_set_members := insert t (sp_set_members s)\<rparr> | _ \<Rightarrow> s) x"
| "collect_special_types (Suc n) schema s (FPrimitive _) = Inr s"
| "collect_special_types (Suc n) schema s (FTable t) =
     (if t \<in> sp_state s then Inr (s\<lparr>sp_recursive := insert t (sp_recursive s)\<rparr>)
      else
        bindR (ok_or (PMissingType t) (bt_get (cs_types schema) t)) (\<lambda>ty.
        bindR (foldR (\<lambda>s f. collect_special_types n schema s (fst (snd f)))
            (s\<lparr>sp_state := insert t (sp_state s)\<rparr>) (st_fields ty)) (\<lambda>s'.
        Inr (s'\<lparr>sp_state := sp_state s' - {t}\<rparr>))))"

section \<open>The walk\<close>

definition altnames :: "string \<Rightarrow> field_annotation list \<Rightarrow> string list" where
  "altnames name anns =
     name # concat (map (\<lambda>a. case a of RenameFrom x \<Rightarrow> [x] | _ \<Rightarrow> []) anns)"

definition subfield_old_point ::
  "compiled_schema \<Rightarrow> old_tree_point option \<Rightarrow> string \<times> field_type \<times> field_annotation list \<Rightarrow>
   old_tree_point option" where
  "subfield_old_point olds old f =
     Option.bind (Option.bind old (\<lambda>p. resolve_subfield olds p (altnames (fst f) (snd (snd f)))))
       (\<lambda>p. validate_type p (fst (snd f)))"

text \<open>One iteration of the loop over the fields of a table; \<open>rc\<close> is the recursive call.\<close>

definition generate_subfield ::
  "(field_type \<Rightarrow> old_tree_point option \<Rightarrow> plan_state \<Rightarrow>
     (planner_error, storage_key storage_node \<times> plan_state) outcome) \<Rightarrow>
   old_tree_point option \<Rightarrow> (string, storage_key storage_node) btree \<times> bool \<times> plan_state \<Rightarrow>
   string \<times> field_type \<times> field_annotation list \<Rightarrow>
   (planner_error, (string, storage_key storage_node) btree \<times> bool \<times> plan_state) outcome" where
  "generate_subfield rc old acc f =
     (case acc of (children, has_pk, st) \<Rightarrow>
       bindR (rc (fst (snd f)) (subfield_old_point (ps_old_schema st) old f) st) (\<lambda>(x, st').
       Inr (bt_insert (fst f) x children, has_pk \<or> is_primary (snd (snd f)), st')))"

definition generate_table ::
  "(field_type \<Rightarrow> old_tree_point option \<Rightarrow> plan_state \<Rightarrow>
     (planner_error, storage_key storage_node \<times> plan_state) outcome) \<Rightarrow>
   nat \<Rightarrow> externs \<Rightarrow> compiled_schema \<Rightarrow> string \<Rightarrow> old_tree_point option \<Rightarrow> plan_state \<Rightarrow>
   (planner_error, storage_key storage_node \<times> plan_state) outcome" where
  "generate_table rc k E schema t old st =
     (case fields_in_stack st t of
        Some key \<Rightarrow>
          bindR (key_or_rand k E old st) (\<lambda>(key', st').
          Inr (StorageNode key' False (Some key) None [], st'))
      | None \<Rightarrow>
          bindR (ok_or (PMissingType t) (bt_get (cs_types schema) t)) (\<lambda>ty.
          bindR (key_or_rand k E old st) (\<lambda>(storage_key, st1).
          let is_recursive_type = (t \<in> recursive_types st1);
              st2 = (if is_recursive_type
                then st1\<lparr>fields_in_stack := (fields_in_stack st1)(t \<mapsto> storage_key)\<rparr> else st1) in
          bindR (foldR (generate_subfield rc old) ([], False, st2) (st_fields ty)) (\<lambda>(children, has_pk, st3).
          let st4 = (if is_recursive_type
                then st3\<lparr>fields_in_stack := (fields_in_stack st3)(t := None)\<rparr> else st3) in
          if t \<in> set_member_types st4 \<and> \<not> has_pk
          then Inl (Err (SetMemberTypeWithoutPrimaryKey (st_name ty)))
          else Inr (StorageNode storage_key True None None children, st4)))))"

fun generate_field ::
  "nat \<Rightarrow> nat \<Rightarrow> externs \<Rightarrow> compiled_schema \<Rightarrow> field_type \<Rightarrow> old_tree_point option \<Rightarrow> plan_state \<Rightarrow>
   (planner_error, storage_key storage_node \<times> plan_state) outcome" where
  "generate_field 0 k E schema field old st = Inl OutOfFuel"
| "generate_field (Suc n) k E schema (FTable t) old st =
     generate_table (generate_field n k E schema) k E schema t old st"
| "generate_field (Suc n) k E schema (FPrimitive _) old st =
     bindR (key_or_rand k E old st) (\<lambda>(key, st'). Inr (StorageNode key False None None [], st'))"
| "generate_field (Suc n) k E schema (FSet x) old st =
     bindR (generate_field n k E schema x
        (Option.bind (Option.bind old reduce_set) (\<lambda>y. validate_type y x)) st) (\<lambda>(inner, st1).
     bindR (key_or_rand k E old st1) (\<lambda>(key, st2).
     Inr (StorageNode key False None (Some inner) [], st2)))"

definition export_old_point ::
  "storage_key storage_plan \<Rightarrow> compiled_schema \<Rightarrow> string \<Rightarrow> field_type \<Rightarrow> old_tree_point option" where
  "export_old_point old_plan olds name field =
     Option.bind
       (map_option (\<lambda>(ty, node). \<lparr>otp_name = name, otp_ty = ty, otp_annotations = [], otp_node = node\<rparr>)
         (Option.bind (bt_get (cs_exports olds) name) (\<lambda>ty.
            map_option (Pair ty) (bt_get old_plan name))))
       (\<lambda>p. validate_type p field)"

definition generate_export ::
  "nat \<Rightarrow> nat \<Rightarrow> externs \<Rightarrow> compiled_schema \<Rightarrow> storage_key storage_plan \<Rightarrow>
   storage_key storage_plan \<times> plan_state \<Rightarrow> string \<times> field_type \<Rightarrow>
   (planner_error, storage_key storage_plan \<times> plan_state) outcome" where
  "generate_export n k E schema old_plan acc x =
     bindR (generate_field n k E schema (snd x)
         (export_old_point old_plan (ps_old_schema (snd acc)) (fst x) (snd x)) (snd acc)) (\<lambda>(node, st').
     Inr (bt_insert (fst x) node (fst acc), st'))"

definition initial_plan_state ::
  "(nat \<Rightarrow> 64 word \<times> bytes) \<Rightarrow> storage_key storage_plan \<Rightarrow> compiled_schema \<Rightarrow> special_types \<Rightarrow> plan_state" where
  "initial_plan_state rng old_plan olds sp =
     \<lparr>ps_old_schema = olds,
      used_storage_keys = fold (\<lambda>x s. collect_storage_keys (snd x) s) old_plan {},
      recursive_types = sp_recursive sp, set_member_types = sp_set_members sp,
      fields_in_stack = Map.empty, ps_rng = rng, ps_pos = 0\<rparr>"

definition special_types_of :: "nat \<Rightarrow> compiled_schema \<Rightarrow> (planner_error, special_types) outcome" where
  "special_types_of n schema =
     foldR (\<lambda>s x. collect_special_types n schema (s\<lparr>sp_state := {}\<rparr>) (snd x))
       \<lparr>sp_state = {}, sp_recursive = {}, sp_set_members = {}\<rparr> (cs_exports schema)"

definition generate_plan_for_schema ::
  "nat \<Rightarrow> nat \<Rightarrow> externs \<Rightarrow> (nat \<Rightarrow> 64 word \<times> bytes) \<Rightarrow>
   storage_key storage_plan \<Rightarrow> compiled_schema \<Rightarrow> compiled_schema \<Rightarrow>
   (planner_error, storage_key storage_plan) outcome" where
  "generate_plan_for_schema n k E rng old_plan olds schema =
     bindR (special_types_of n schema) (\<lambda>sp.
     bindR (foldR (generate_export n k E schema old_plan)
        ([], initial_plan_state rng old_plan olds sp) (cs_exports schema)) (\<lambda>(plan, _).
     Inr plan))"

section \<open>Samples\<close>

definition sample_rng :: "nat \<Rightarrow> 64 word \<times> bytes" where
  "sample_rng i = (0, [0, 0, 0, 0, 0, word_of_nat i])"

definition table_schema :: "(string \<times> field_type \<times> field_annotation list) list \<Rightarrow> compiled_schema" where
  "table_schema flds = \<lparr>cs_types = [(''A<>'', \<lparr>st_name = ''A<>'', st_fields = flds\<rparr>)],
     cs_exports = [(''a'', FTable ''A<>'')]\<rparr>"

definition schema_v1 :: compiled_schema where
  "schema_v1 = table_schema [(''x'', FPrimitive Int64T, [])]"

definition schema_v2 :: compiled_schema where
  "schema_v2 = table_schema [(''x'', FPrimitive Int64T, []), (''y'', FPrimitive Int64T, [RenameFrom ''x''])]"

definition schema_v3 :: compiled_schema where
  "schema_v3 = table_schema [(''x'', FPrimitive Int64T, []), (''z'', FPrimitive Int64T, [])]"

definition sample_key :: "nat \<Rightarrow> storage_key" where
  "sample_key i = [0, 0, 0, 0, 0, 0, 0, 0, 0, 0, 0, word_of_nat i]"

definition plan_v1 :: "storage_key storage_plan" where
  "plan_v1 = [(''a'', StorageNode (sample_key 0) True None None
     [(''x'', StorageNode (sample_key 1) False None None [])])]"

text \<open>The compiled form of \<open>tree_schema\<close>: a table that holds a set of itself.\<close>

definition tree_compiled :: compiled_schema where
  "tree_compiled = \<lparr>cs_types = [(''Node<int64>'', \<lparr>st_name = ''Node<int64>'', st_fields =
       [(''children'', FSet (FTable ''Node<int64>''), []), (''key'', FPrimitive StringT, [PrimaryKey]),
        (''value'', FPrimitive Int64T, [])]\<rparr>)],
     cs_exports = [(''nodes'', FSet (FTable ''Node<int64>''))]\<rparr>"

definition tree_plan :: "storage_key storage_plan" where
  "tree_plan = [(''nodes'', StorageNode (sample_key 5) False None (Some
     (StorageNode (sample_key 0) True None None
       [(''children'', StorageNode (sample_key 2) False None
          (Some (StorageNode (sample_key 1) False (Some (sample_key 0)) None [])) []),
        (''key'', StorageNode (sample_key 3) False None None []),
        (''value'', StorageNode (sample_key 4) False None None [])])) [])]"

section \<open>Plans that conform to a schema\<close>

definition has_primary :: "(string, field_type \<times> field_annotation list) btree \<Rightarrow> bool" where
  "has_primary flds \<longleftrightarrow> list_ex (\<lambda>f. is_primary (snd (snd f))) flds"

fun node_conf :: "compiled_schema \<Rightarrow> string set \<Rightarrow> string set \<Rightarrow> (string \<rightharpoonup> 'k) \<Rightarrow> field_type \<Rightarrow> 'k storage_node \<Rightarrow> bool" where
  "node_conf sch rt sm stk (FPrimitive _) (StorageNode k fl ref st ch) \<longleftrightarrow>
     \<not> fl \<and> ref = None \<and> st = None \<and> ch = []"
| "node_conf sch rt sm stk (FSet x) (StorageNode k fl ref st ch) \<longleftrightarrow>
     \<not> fl \<and> ref = None \<and> ch = [] \<and>
     (case st of None \<Rightarrow> False | Some m \<Rightarrow> node_conf sch rt sm stk x m)"
| "node_conf sch rt sm stk (FTable t) (StorageNode k fl ref st ch) \<longleftrightarrow> st = None \<and>
     (case stk t of
        Some r \<Rightarrow> \<not> fl \<and> ref = Some r \<and> ch = []
      | None \<Rightarrow> fl \<and> ref = None \<and>
          (case bt_get (cs_types sch) t of
             None \<Rightarrow> False
           | Some ty \<Rightarrow> (t \<in> sm \<longrightarrow> has_primary (st_fields ty)) \<and>
               map fst ch = map fst (st_fields ty) \<and>
               list_all (\<lambda>c. case bt_get (st_fields ty) (fst c) of
                    None \<Rightarrow> False
                  | Some f \<Rightarrow> node_conf sch rt sm (if t \<in> rt then stk(t \<mapsto> k) else stk)
                      (fst f) (snd c)) ch))"

fun node_fits :: "nat \<Rightarrow> 'k storage_node \<Rightarrow> bool" where
  "node_fits 0 x = False"
| "node_fits (Suc n) (StorageNode k fl ref st ch) \<longleftrightarrow>
     (case st of None \<Rightarrow> True | Some x \<Rightarrow> node_fits n x) \<and> list_all (\<lambda>c. node_fits n (snd c)) ch"

inductive gen_chain for rc old where
  gen_Nil: "gen_chain rc old st [] [] st"
| gen_Cons: "rc (fst (snd f)) (subfield_old_point (ps_old_schema st) old f) st = Inr (x, st1) \<Longrightarrow>
    gen_chain rc old st1 fs cs st' \<Longrightarrow> gen_chain rc old st (f # fs) ((fst f, x) # cs) st'"

inductive_cases gen_chain_NilE: "gen_chain rc old st [] cs st'"
inductive_cases gen_chain_ConsE: "gen_chain rc old st (f # fs) cs st'"

lemma foldR_gen_chain:
  assumes "sorted_wrt (<) (map fst ch @ map fst fs)"
  shows "foldR (generate_subfield rc old) (ch, pk, st) fs = Inr (ch', pk', st') \<longleftrightarrow>
    (\<exists>cs. gen_chain rc old st fs cs st' \<and> ch' = ch @ cs \<and> pk' = (pk \<or> has_primary fs))"
  using assms
proof (induction fs arbitrary: ch pk st)
  case Nil
  show ?case by (auto simp: has_primary_def intro: gen_Nil elim: gen_chain_NilE)
next
  case (Cons f fs)
  have ins: "bt_insert (fst f) x ch = ch @ [(fst f, x)]" for x
    using Cons.prems by (intro bt_insert_last) (auto simp: sorted_wrt_append)
  have IH: "foldR (generate_subfield rc old) (ch @ [(fst f, x)], pk, st) fs = Inr (ch', pk', st') \<longleftrightarrow>
    (\<exists>cs. gen_chain rc old st fs cs st' \<and> ch' = (ch @ [(fst f, x)]) @ cs \<and> pk' = (pk \<or> has_primary fs))"
    for x pk st
    by (rule Cons.IH) (use Cons.prems in simp)
  note step = generate_subfield_def [of rc old "(ch, pk, st)" f]
  show ?case (is "?l \<longleftrightarrow> ?r")
  proof
    assume ?l
    then obtain x st1 where "rc (fst (snd f)) (subfield_old_point (ps_old_schema st) old f) st = Inr (x, st1)"
      "foldR (generate_subfield rc old) (ch @ [(fst f, x)], pk \<or> is_primary (snd (snd f)), st1) fs = Inr (ch', pk', st')"
      by (auto simp: step ins)
    then show ?r unfolding IH by (auto simp: has_primary_def intro: gen_Cons)
  next
    assume ?r
    then obtain x st1 cs where *: "rc (fst (snd f)) (subfield_old_point (ps_old_schema st) old f) st = Inr (x, st1)"
      "gen_chain rc old st1 fs cs st'" "ch' = ch @ (fst f, x) # cs" "pk' = (pk \<or> has_primary (f # fs))"
      by (auto elim!: gen_chain_ConsE)
    then have "foldR (generate_subfield rc old) (ch @ [(fst f, x)], pk \<or> is_primary (snd (snd f)), st1) fs
        = Inr (ch', pk', st')"
      unfolding IH by (auto simp: has_primary_def)
    with *(1) show ?l by (simp add: step ins)
  qed
qed

section \<open>What a step of the walk may change\<close>

definition plan_frame :: "plan_state \<Rightarrow> plan_state \<Rightarrow> bool" where
  "plan_frame st st' \<longleftrightarrow> st' = st\<lparr>used_storage_keys := used_storage_keys st', ps_pos := ps_pos st'\<rparr> \<and>
     used_storage_keys st \<subseteq> used_storage_keys st' \<and> ps_pos st \<le> ps_pos st'"

lemma plan_frame_refl [simp]: "plan_frame st st"
  by (simp add: plan_frame_def)

lemma plan_frameD:
  assumes "plan_frame st st'"
  shows "ps_old_schema st' = ps_old_schema st" "recursive_types st' = recursive_types st"
    "set_member_types st' = set_member_types st" "fields_in_stack st' = fields_in_stack st"
    "ps_rng st' = ps_rng st" "used_storage_keys st \<subseteq> used_storage_keys st'" "ps_pos st \<le> ps_pos st'"
proof -
  obtain u p where "st' = st\<lparr>used_storage_keys := u, ps_pos := p\<rparr>" "used_storage_keys st \<subseteq> u" "ps_pos st \<le> p"
    using assms by (metis plan_frame_def)
  then show "ps_old_schema st' = ps_old_schema st" "recursive_types st' = recursive_types st"
    "set_member_types st' = set_member_types st" "fields_in_stack st' = fields_in_stack st"
    "ps_rng st' = ps_rng st" "used_storage_keys st \<subseteq> used_storage_keys st'" "ps_pos st \<le> ps_pos st'"
    by simp_all
qed

lemma plan_frameI:
  assumes "ps_old_schema st' = ps_old_schema st" "recursive_types st' = recursive_types st"
    "set_member_types st' = set_member_types st" "fields_in_stack st' = fields_in_stack st"
    "ps_rng st' = ps_rng st" "used_storage_keys st \<subseteq> used_storage_keys st'" "ps_pos st \<le> ps_pos st'"
  shows "plan_frame st st'"
  using assms by (simp add: plan_frame_def)

lemma plan_frame_trans: "plan_frame st st1 \<Longrightarrow> plan_frame st1 st2 \<Longrightarrow> plan_frame st st2"
  by (rule plan_frameI) (use plan_frameD [of st st1] plan_frameD [of st1 st2] in auto)

definition fresh_between :: "plan_state \<Rightarrow> plan_state \<Rightarrow> storage_key list \<Rightarrow> bool" where
  "fresh_between st st' ks \<longleftrightarrow> distinct ks \<and> set ks \<inter> used_storage_keys st = {} \<and> set ks \<subseteq> used_storage_keys st'"

lemma rand_storage_key_fresh:
  "rand_storage_key k E st = Inr (key, st') \<Longrightarrow> plan_frame st st' \<and> fresh_between st st' [key]"
proof (induction k arbitrary: st)
  case (Suc k)
  show ?case
  proof (cases "draw_key E (ps_rng st (ps_pos st)) \<in> used_storage_keys st")
    case True
    then have "rand_storage_key k E (st\<lparr>ps_pos := Suc (ps_pos st)\<rparr>) = Inr (key, st')"
      using Suc.prems by (auto simp: Let_def split: if_splits)
    from Suc.IH [OF this] show ?thesis
      by (auto simp: plan_frame_def fresh_between_def)
  next
    case False
    then show ?thesis using Suc.prems
      by (auto simp: Let_def plan_frame_def fresh_between_def split: if_splits)
  qed
qed simp

lemma key_or_rand_cases:
  assumes "key_or_rand k E old st = Inr (key, st')"
  obtains (kept) p where "old = Some p" "key = sn_key (otp_node p)" "st' = st"
    | (fresh) "old = None" "plan_frame st st'" "fresh_between st st' [key]"
  using assms rand_storage_key_fresh by (auto simp: key_or_rand_def split: option.splits)


definition generates :: "nat \<Rightarrow> compiled_schema \<Rightarrow> field_type \<Rightarrow> old_tree_point option \<Rightarrow>
   plan_state \<Rightarrow> storage_key storage_node \<Rightarrow> plan_state \<Rightarrow> bool" where
  "generates n sch field old st node st' \<longleftrightarrow> plan_frame st st' \<and> node_fits n node \<and>
     node_conf sch (recursive_types st) (set_member_types st) (fields_in_stack st) field node \<and>
     (old = None \<longrightarrow> fresh_between st st' (node_keys node))"

locale field_generator =
  fixes n :: nat
    and sch :: compiled_schema
    and rc :: "field_type \<Rightarrow> old_tree_point option \<Rightarrow> plan_state \<Rightarrow>
      (planner_error, storage_key storage_node \<times> plan_state) outcome"
  assumes rc_generates: "rc field old st = Inr (node, st') \<Longrightarrow> resolved_ok (cs_types sch) \<Longrightarrow>
    generates n sch field old st node st'"

lemma fresh_between_append:
  assumes "fresh_between st st1 xs" "fresh_between st1 st2 ys" "plan_frame st st1" "plan_frame st1 st2"
  shows "fresh_between st st2 (xs @ ys)" "fresh_between st st2 (ys @ xs)"
  using assms(1,2) plan_frameD(6) [OF assms(3)] plan_frameD(6) [OF assms(4)]
  unfolding fresh_between_def by auto

lemma generate_table_run:
  assumes "generate_table rc k E sch t old st = Inr (node, st')" "fields_in_stack st t = None"
  obtains ty key st1 children pk st3 where
    "bt_get (cs_types sch) t = Some ty" "key_or_rand k E old st = Inr (key, st1)"
    "foldR (generate_subfield rc old) ([], False,
        if t \<in> recursive_types st1 then st1\<lparr>fields_in_stack := (fields_in_stack st1)(t \<mapsto> key)\<rparr> else st1)
      (st_fields ty) = Inr (children, pk, st3)"
    "t \<in> set_member_types st3 \<longrightarrow> pk" "node = StorageNode key True None None children"
    "st' = (if t \<in> recursive_types st1 then st3\<lparr>fields_in_stack := (fields_in_stack st3)(t := None)\<rparr> else st3)"
  using assms by (auto simp: generate_table_def Let_def split: if_splits)

lemma list_all2_lookup:
  assumes "list_all2 (\<lambda>f c. P (snd f) (snd c)) fs cs" "map fst cs = map fst fs" "distinct (map fst fs)"
  shows "list_all (\<lambda>c. case map_of fs (fst c) of None \<Rightarrow> False | Some f \<Rightarrow> P f (snd c)) cs"
  unfolding list_all_length
proof (intro allI impI)
  fix i assume i: "i < length cs"
  have len: "length fs = length cs" using assms(1) by (rule list_all2_lengthD)
  then have "fst (cs ! i) = fst (fs ! i)" using i assms(2) by (metis nth_map)
  then have "map_of fs (fst (cs ! i)) = Some (snd (fs ! i))"
    using i len assms(3) by (simp add: map_of_eq_Some_iff)
  then show "case map_of fs (fst (cs ! i)) of None \<Rightarrow> False | Some f \<Rightarrow> P f (snd (cs ! i))"
    using list_all2_nthD2 [OF assms(1) i] by simp
qed

context field_generator
begin

lemma chain_generates:
  assumes "gen_chain rc old st fs cs st'" "resolved_ok (cs_types sch)"
  shows "plan_frame st st' \<and> map fst cs = map fst fs \<and> list_all (\<lambda>c. node_fits n (snd c)) cs \<and>
    (old = None \<longrightarrow> fresh_between st st' (concat (map (\<lambda>c. node_keys (snd c)) cs))) \<and>
    list_all2 (\<lambda>f c. node_conf sch (recursive_types st) (set_member_types st) (fields_in_stack st)
      (fst (snd f)) (snd c)) fs cs"
  using assms
proof (induction rule: gen_chain.induct)
  case (gen_Nil st)
  then show ?case by (simp add: fresh_between_def)
next
  case (gen_Cons f st x st1 fs cs st')
  have g: "generates n sch (fst (snd f)) (subfield_old_point (ps_old_schema st) old f) st x st1"
    using rc_generates [OF gen_Cons.hyps(1) assms(2)] .
  have "old = None \<Longrightarrow> subfield_old_point (ps_old_schema st) old f = None"
    by (simp add: subfield_old_point_def)
  with g gen_Cons.IH assms(2) show ?case
    by (auto simp: generates_def plan_frameD intro: plan_frame_trans fresh_between_append)
qed

lemma generate_table_generates:
  assumes "generate_table rc k E sch t old st = Inr (node, st')" "resolved_ok (cs_types sch)"
  shows "generates (Suc n) sch (FTable t) old st node st'"
proof (cases "fields_in_stack st t")
  case (Some r)
  with assms(1) obtain key where "key_or_rand k E old st = Inr (key, st')"
    "node = StorageNode key False (Some r) None []"
    by (auto simp: generate_table_def)
  with Some show ?thesis by (auto simp: generates_def elim: key_or_rand_cases)
next
  case None
  obtain ty key st1 children pk st3 where
    ty: "bt_get (cs_types sch) t = Some ty" and
    key: "key_or_rand k E old st = Inr (key, st1)" and
    loop: "foldR (generate_subfield rc old) ([], False,
        if t \<in> recursive_types st1 then st1\<lparr>fields_in_stack := (fields_in_stack st1)(t \<mapsto> key)\<rparr> else st1)
      (st_fields ty) = Inr (children, pk, st3)" and
    fin: "t \<in> set_member_types st3 \<longrightarrow> pk" "node = StorageNode key True None None children"
      "st' = (if t \<in> recursive_types st1 then st3\<lparr>fields_in_stack := (fields_in_stack st3)(t := None)\<rparr> else st3)"
    by (rule generate_table_run [OF assms(1) None])
  let ?st2 = "if t \<in> recursive_types st1 then st1\<lparr>fields_in_stack := (fields_in_stack st1)(t \<mapsto> key)\<rparr> else st1"
  let ?stk = "if t \<in> recursive_types st then (fields_in_stack st)(t \<mapsto> key) else fields_in_stack st"
  have fr1: "plan_frame st st1" using key by (auto elim: key_or_rand_cases)
  note f1 = plan_frameD [OF fr1]
  have srt: "sorted_wrt (<) (map fst (st_fields ty))" "distinct (map fst (st_fields ty))"
    using ty assms(2) by (auto simp: resolved_ok_def type_ok_def bt_ok_def strict_sorted_iff dest!: map_of_SomeD)
  obtain cs where ch: "gen_chain rc old ?st2 (st_fields ty) cs st3" "children = cs" "pk = has_primary (st_fields ty)"
    using loop foldR_gen_chain [of "[]" "st_fields ty" rc old False ?st2 children pk st3] srt(1) by auto
  note c = chain_generates [OF ch(1) assms(2)]
  have fr2: "plan_frame st1 st'"
  proof (rule plan_frameI)
  qed (use plan_frameD [of ?st2 st3] c fin(3) None f1 in \<open>auto split: if_splits\<close>)
  have stk2: "fields_in_stack ?st2 = ?stk" using f1 by simp
  have pk: "t \<in> set_member_types st \<longrightarrow> has_primary (st_fields ty)"
    using fin(1) ch(3) plan_frameD(3) [of ?st2 st3] c f1 by (auto split: if_splits)
  have "list_all2 (\<lambda>f x. node_conf sch (recursive_types st) (set_member_types st) ?stk (fst (snd f)) (snd x))
      (st_fields ty) cs"
    using c stk2 f1 by (simp split: if_splits)
  then have "list_all (\<lambda>x. case bt_get (st_fields ty) (fst x) of None \<Rightarrow> False
      | Some f \<Rightarrow> node_conf sch (recursive_types st) (set_member_types st) ?stk (fst f) (snd x)) cs"
    using list_all2_lookup [OF _ _ srt(2)] c by fastforce
  then have "node_conf sch (recursive_types st) (set_member_types st) (fields_in_stack st) (FTable t) node"
    using None ty fin(2) ch(2) pk c by (simp add: option.case_eq_if list_all_iff)
  moreover have "old = None \<longrightarrow> fresh_between st st' (node_keys node)"
  proof
    assume old: "old = None"
    then have "fresh_between st st1 [key]" using key by (auto elim: key_or_rand_cases)
    moreover have "fresh_between st1 st' (concat (map (\<lambda>c. node_keys (snd c)) cs))"
      using c old fin(3) by (auto simp: fresh_between_def split: if_splits)
    ultimately show "fresh_between st st' (node_keys node)"
      using fresh_between_append(1) [OF _ _ fr1 fr2] fin(2) ch(2) by fastforce
  qed
  ultimately show ?thesis using plan_frame_trans [OF fr1 fr2] c fin(2) ch(2) by (simp add: generates_def)
qed

end


lemma generate_field_generator:
  "field_generator n sch (generate_field n k E sch)"
proof (induction n)
  case 0
  show ?case by unfold_locales simp
next
  case (Suc n)
  show ?case
  proof
    fix field old st node st'
    assume r: "generate_field (Suc n) k E sch field old st = Inr (node, st')" and ok: "resolved_ok (cs_types sch)"
    show "generates (Suc n) sch field old st node st'"
    proof (cases field)
      case (FTable t)
      then show ?thesis
        using r field_generator.generate_table_generates [OF Suc.IH _ ok] by simp
    next
      case (FPrimitive p)
      with r obtain key where "key_or_rand k E old st = Inr (key, st')" "node = StorageNode key False None None []"
        by auto
      then show ?thesis using FPrimitive by (auto simp: generates_def elim: key_or_rand_cases)
    next
      case (FSet x)
      let ?old = "Option.bind (Option.bind old reduce_set) (\<lambda>y. validate_type y x)"
      from r FSet obtain inner st1 key where
        i: "generate_field n k E sch x ?old st = Inr (inner, st1)" and
        k: "key_or_rand k E old st1 = Inr (key, st')" "node = StorageNode key False None (Some inner) []"
        by auto
      have g: "generates n sch x ?old st inner st1"
        using field_generator.rc_generates [OF Suc.IH i ok] .
      have fr: "plan_frame st st1" "plan_frame st1 st'"
        using g k(1) by (auto simp: generates_def elim: key_or_rand_cases)
      have "fresh_between st st' (node_keys node)" if "old = None"
        using g k that fr fresh_between_append(2) [of st st1 "node_keys inner" st' "[key]"]
        by (auto simp: generates_def elim: key_or_rand_cases)
      then show ?thesis
        using g k(2) FSet plan_frame_trans [OF fr] by (simp add: generates_def)
    qed
  qed
qed

interpretation walk: field_generator n sch "generate_field n k E sch" for n k E sch
  by (rule generate_field_generator)

definition plan_conf :: "compiled_schema \<Rightarrow> string set \<Rightarrow> string set \<Rightarrow> 'k storage_plan \<Rightarrow> bool" where
  "plan_conf sch rt sm plan \<longleftrightarrow> map fst plan = map fst (cs_exports sch) \<and>
     list_all2 (\<lambda>x c. node_conf sch rt sm Map.empty (snd x) (snd c)) (cs_exports sch) plan"

lemma generate_exports:
  assumes "foldR (generate_export n k E sch old_plan) (acc, st) xs = Inr (acc', st')"
    and "sorted_wrt (<) (map fst acc @ map fst xs)" "resolved_ok (cs_types sch)"
  shows "\<exists>cs. acc' = acc @ cs \<and> map fst cs = map fst xs \<and> plan_frame st st' \<and>
    list_all2 (\<lambda>x c. node_conf sch (recursive_types st) (set_member_types st) (fields_in_stack st)
      (snd x) (snd c) \<and> node_fits n (snd c)) xs cs \<and>
    (old_plan = [] \<longrightarrow> fresh_between st st' (plan_keys cs))"
  using assms
proof (induction xs arbitrary: acc st)
  case Nil
  then show ?case by (simp add: fresh_between_def plan_keys_def)
next
  case (Cons x xs)
  let ?old = "export_old_point old_plan (ps_old_schema st) (fst x) (snd x)"
  from Cons.prems(1) obtain node st1 where
    g: "generate_field n k E sch (snd x) ?old st = Inr (node, st1)"
       "foldR (generate_export n k E sch old_plan) (bt_insert (fst x) node acc, st1) xs = Inr (acc', st')"
    by (auto simp: generate_export_def [of n k E sch old_plan "(acc, st)"])
  have ins: "bt_insert (fst x) node acc = acc @ [(fst x, node)]"
    using Cons.prems(2) by (intro bt_insert_last) (auto simp: sorted_wrt_append)
  note w = walk.rc_generates [OF g(1) Cons.prems(3)]
  have old: "?old = None" if "old_plan = []"
    using that by (simp add: export_old_point_def bind_eq_None_conv)
  from Cons.IH [OF g(2)] Cons.prems(2,3) ins obtain cs where
    cs: "acc' = acc @ (fst x, node) # cs" "map fst cs = map fst xs" "plan_frame st1 st'"
      "list_all2 (\<lambda>x c. node_conf sch (recursive_types st1) (set_member_types st1) (fields_in_stack st1)
        (snd x) (snd c) \<and> node_fits n (snd c)) xs cs"
      "old_plan = [] \<longrightarrow> fresh_between st1 st' (plan_keys cs)"
    by auto
  have "fresh_between st st' (node_keys node @ plan_keys cs)" if "old_plan = []"
    using w cs(3,5) old [OF that] that by (intro fresh_between_append(1)) (auto simp: generates_def)
  then show ?case
    using w cs plan_frame_trans [OF _ cs(3), of st]
    by (intro exI [of _ "(fst x, node) # cs"]) (auto simp: generates_def plan_frameD plan_keys_def)
qed

lemma generate_plan_run:
  assumes "generate_plan_for_schema n k E rng old_plan olds sch = Inr plan" "schema_ok sch"
  obtains sp st' where "special_types_of n sch = Inr sp" "plan_conf sch (sp_recursive sp) (sp_set_members sp) plan"
    "list_all (\<lambda>c. node_fits n (snd c)) plan"
    "old_plan = [] \<longrightarrow> fresh_between (initial_plan_state rng old_plan olds sp) st' (plan_keys plan)"
proof -
  from assms(1) obtain sp st' where sp: "special_types_of n sch = Inr sp"
    "foldR (generate_export n k E sch old_plan) ([], initial_plan_state rng old_plan olds sp) (cs_exports sch) = Inr (plan, st')"
    by (auto simp: generate_plan_for_schema_def)
  have *: "sorted_wrt (<) (map fst [] @ map fst (cs_exports sch))" "resolved_ok (cs_types sch)"
    using assms(2) by (auto simp: schema_ok_def bt_ok_def)
  from generate_exports [OF sp(2) *] show ?thesis
    by (intro that [OF sp(1)])
      (auto simp: plan_conf_def initial_plan_state_def list_all2_conv_all_nth list_all_length)
qed

lemma sample_time [simp]: "write_u64 sample_externs (fst (sample_rng i)) = replicate 8 0"
  by (simp add: sample_rng_def sample_externs_def be_bytes_0)

lemma sample_draw [simp]: "draw_key sample_externs (sample_rng i) = sample_key i"
  unfolding draw_key_def sample_time by (simp add: sample_rng_def sample_key_def drop_replicate numeral_eq_Suc)

lemma sample_key_eq [simp]: "sample_key i = sample_key j \<longleftrightarrow> (word_of_nat i :: byte) = word_of_nat j"
  by (simp add: sample_key_def)

lemmas plan_eval = generate_plan_for_schema_def special_types_of_def initial_plan_state_def
  generate_export_def export_old_point_def generate_table_def generate_subfield_def
  subfield_old_point_def resolve_subfield_def validate_type_def altnames_def key_or_rand_def
  Let_def is_primary_def

lemmas schema_defs = schema_v1_def schema_v2_def schema_v3_def table_schema_def plan_v1_def

lemma plan_v1_generated:
  "generate_plan_for_schema (Suc (Suc (Suc (Suc 0)))) (Suc 0) sample_externs sample_rng [] schema_v1 schema_v1 = Inr plan_v1"
  by (simp add: plan_eval schema_defs)

lemma tree_plan_generated:
  "generate_plan_for_schema (Suc (Suc (Suc (Suc 0)))) (Suc 0) sample_externs sample_rng [] tree_compiled tree_compiled
    = Inr tree_plan"
  by (simp add: plan_eval tree_compiled_def tree_plan_def sample_key_def)

lemma sample_schemas_ok: "schema_ok schema_v1" "schema_ok schema_v2" "schema_ok schema_v3" "schema_ok tree_compiled"
  by (simp_all add: schema_ok_def resolved_ok_def type_ok_def field_ok_def bt_ok_def bt_keys_def
      schema_defs tree_compiled_def primary_key_count_def is_primary_def has_index_annotation_def)

text \<open>
  C21. A generated plan conforms to its schema: it has one node per export and, below each,
  one child per field of the table, sets carry a member node, tables that hold set
  members have a primary key, and a subspace reference holds exactly the key
  of an enclosing node of the same table type.
\<close>

theorem generated_plan_conforms:
  assumes "generate_plan_for_schema n k E rng old_plan olds sch = Inr plan" "schema_ok sch"
  shows "\<exists>sp. special_types_of n sch = Inr sp \<and> plan_conf sch (sp_recursive sp) (sp_set_members sp) plan"
  using generate_plan_run [OF assms] by metis

theorem generated_plan_conforms_witness:
  "\<exists>sp. special_types_of (Suc (Suc (Suc (Suc 0)))) tree_compiled = Inr sp \<and>
    plan_conf tree_compiled (sp_recursive sp) (sp_set_members sp) tree_plan"
  using generated_plan_conforms [OF tree_plan_generated sample_schemas_ok(4)] .

text \<open>
  C26. In a plan made from scratch no two nodes share a storage key.
\<close>

theorem fresh_plan_keys_distinct:
  assumes "generate_plan_for_schema n k E rng [] olds sch = Inr plan" "schema_ok sch"
  shows "distinct (plan_keys plan)"
  using generate_plan_run [OF assms] by (metis fresh_between_def)

theorem fresh_plan_keys_distinct_witness: "distinct (plan_keys tree_plan)"
  using fresh_plan_keys_distinct [OF tree_plan_generated sample_schemas_ok(4)] .

section \<open>Planning the same schema again\<close>

lemma gen_chain_stays:
  assumes "list_all2 (\<lambda>f c. fst c = fst f \<and>
      rc (fst (snd f)) (subfield_old_point (ps_old_schema st) old f) st = Inr (snd c, st)) fs cs"
  shows "gen_chain rc old st fs cs st"
  using assms
proof (induction fs cs rule: list_all2_induct)
  case Nil
  show ?case by (rule gen_Nil)
next
  case (Cons f fs c cs)
  then show ?case using gen_Cons [of rc f st old "snd c" st fs cs st] by (metis prod.collapse)
qed

lemma subfield_old_point_same:
  assumes "otp_ty p = FTable t" "bt_get (cs_types sch) t = Some ty" "bt_get (st_fields ty) (fst f) = Some (snd f)"
    and "bt_get (sn_children (otp_node p)) (fst f) = Some c"
  shows "\<exists>q. subfield_old_point sch (Some p) f = Some q \<and> otp_ty q = fst (snd f) \<and> otp_node q = c"
  using assms by (cases f) (simp add: subfield_old_point_def resolve_subfield_def altnames_def validate_type_def)

lemma regenerate_table:
  assumes p: "otp_ty p = FTable t" "otp_node p = StorageNode key True None None ch"
    and st: "fields_in_stack st t = None" "ps_old_schema st = sch" "resolved_ok (cs_types sch)"
    and ty: "bt_get (cs_types sch) t = Some ty" "t \<in> set_member_types st \<longrightarrow> has_primary (st_fields ty)"
      "map fst ch = map fst (st_fields ty)"
    and rc: "\<And>q c f st'. c \<in> set ch \<Longrightarrow> bt_get (st_fields ty) (fst c) = Some f \<Longrightarrow> otp_ty q = fst f \<Longrightarrow>
      otp_node q = snd c \<Longrightarrow> st' = (if t \<in> recursive_types st
        then st\<lparr>fields_in_stack := (fields_in_stack st)(t \<mapsto> key)\<rparr> else st) \<Longrightarrow>
      rc (fst f) (Some q) st' = Inr (snd c, st')"
  shows "generate_table rc k E sch t (Some p) st = Inr (otp_node p, st)"
proof -
  define st2 where "st2 = (if t \<in> recursive_types st
        then st\<lparr>fields_in_stack := (fields_in_stack st)(t \<mapsto> key)\<rparr> else st)"
  have srt: "sorted_wrt (<) (map fst (st_fields ty))" "distinct (map fst (st_fields ty))"
    using ty(1) st(3) by (auto simp: resolved_ok_def type_ok_def bt_ok_def strict_sorted_iff dest!: map_of_SomeD)
  have "gen_chain rc (Some p) st2 (st_fields ty) ch st2"
  proof (rule gen_chain_stays, unfold list_all2_conv_all_nth, intro conjI allI impI)
    show len: "length (st_fields ty) = length ch" using ty(3) by (metis length_map)
    fix i assume i: "i < length (st_fields ty)"
    let ?f = "st_fields ty ! i" and ?c = "ch ! i"
    show fc: "fst ?c = fst ?f" using i len ty(3) by (metis nth_map)
    have f: "bt_get (st_fields ty) (fst ?f) = Some (snd ?f)"
      using i srt(2) by (simp add: map_of_eq_Some_iff)
    have c: "bt_get ch (fst ?f) = Some (snd ?c)"
      using i len srt(2) ty(3) fc by (metis map_of_eq_Some_iff nth_mem prod.collapse)
    obtain q where q: "subfield_old_point sch (Some p) ?f = Some q" "otp_ty q = fst (snd ?f)" "otp_node q = snd ?c"
      using subfield_old_point_same [of p t sch ty ?f "snd ?c"] p ty(1) f c by auto
    have "ps_old_schema st2 = sch" using st(2) by (simp add: st2_def)
    moreover have "rc (fst (snd ?f)) (Some q) st2 = Inr (snd ?c, st2)"
      by (rule rc) (use i len f fc q in \<open>simp_all add: st2_def\<close>)
    ultimately show "rc (fst (snd ?f)) (subfield_old_point (ps_old_schema st2) (Some p) ?f) st2 = Inr (snd ?c, st2)"
      using q(1) by simp
  qed
  then have "foldR (generate_subfield rc (Some p)) ([], False, st2) (st_fields ty)
      = Inr (ch, has_primary (st_fields ty), st2)"
    using foldR_gen_chain [of "[]" "st_fields ty"] srt(1) by simp
  moreover have "st\<lparr>fields_in_stack := (fields_in_stack st)(t := None)\<rparr> = st"
    using st(1) by (cases st) (simp add: fun_upd_idem)
  ultimately show ?thesis
    using st(1) ty p(2) by (cases "t \<in> recursive_types st") (simp_all add: generate_table_def key_or_rand_def Let_def st2_def)
qed

lemma regenerate_field:
  assumes "otp_ty p = field" "node_conf sch (recursive_types st) (set_member_types st) (fields_in_stack st) field (otp_node p)"
    and "node_fits n (otp_node p)" "ps_old_schema st = sch" "resolved_ok (cs_types sch)"
  shows "generate_field n k E sch field (Some p) st = Inr (otp_node p, st)"
  using assms
proof (induction n arbitrary: p field st)
  case (Suc n)
  obtain key fl ref s ch where node: "otp_node p = StorageNode key fl ref s ch" by (cases "otp_node p")
  show ?case
  proof (cases field)
    case (FPrimitive x)
    then show ?thesis using Suc.prems(2) node by (simp add: key_or_rand_def)
  next
    case (FSet x)
    with Suc.prems(2) node obtain m where m: "s = Some m" "\<not> fl" "ref = None" "ch = []"
      "node_conf sch (recursive_types st) (set_member_types st) (fields_in_stack st) x m"
      by (auto split: option.splits)
    let ?q = "p\<lparr>otp_ty := x, otp_node := m\<rparr>"
    have "generate_field n k E sch x (Some ?q) st = Inr (m, st)"
      using Suc.IH [of ?q x st] Suc.prems(3,4,5) m node by simp
    then show ?thesis
      using FSet Suc.prems(1) m node by (simp add: reduce_set_def validate_type_def key_or_rand_def)
  next
    case (FTable t)
    show ?thesis
    proof (cases "fields_in_stack st t")
      case (Some r)
      then show ?thesis using FTable Suc.prems(2) node by (simp add: generate_table_def key_or_rand_def)
    next
      case None
      let ?stk = "if t \<in> recursive_types st then (fields_in_stack st)(t \<mapsto> key) else fields_in_stack st"
      from None FTable Suc.prems(2) node obtain ty where
        ty: "bt_get (cs_types sch) t = Some ty" "t \<in> set_member_types st \<longrightarrow> has_primary (st_fields ty)"
          "map fst ch = map fst (st_fields ty)" "s = None" "fl" "ref = None" and
        conf: "list_all (\<lambda>c. case bt_get (st_fields ty) (fst c) of None \<Rightarrow> False
            | Some f \<Rightarrow> node_conf sch (recursive_types st) (set_member_types st) ?stk (fst f) (snd c)) ch"
        by (auto split: option.splits)
      have "generate_table (generate_field n k E sch) k E sch t (Some p) st = Inr (otp_node p, st)"
      proof (rule regenerate_table [OF _ _ None Suc.prems(4,5) ty(1,2,3)])
        fix q :: old_tree_point and c f st' assume c: "c \<in> set ch" "bt_get (st_fields ty) (fst c) = Some f" "otp_ty q = fst f"
          "otp_node q = snd c" and
          st': "st' = (if t \<in> recursive_types st
            then st\<lparr>fields_in_stack := (fields_in_stack st)(t \<mapsto> key)\<rparr> else st)"
        have "node_conf sch (recursive_types st) (set_member_types st) ?stk (fst f) (snd c)" "node_fits n (snd c)"
          using conf c Suc.prems(3) node by (auto simp: list_all_iff)
        then show "generate_field n k E sch (fst f) (Some q) st' = Inr (snd c, st')"
          using Suc.IH [of q "fst f" st'] c Suc.prems(4,5) st' by (simp split: if_splits)
      qed (use Suc.prems(1) FTable node ty in simp_all)
      then show ?thesis using FTable by simp
    qed
  qed
qed simp


lemma regenerate_exports:
  assumes "list_all2 (\<lambda>x c. fst c = fst x \<and>
      node_conf sch (recursive_types st) (set_member_types st) (fields_in_stack st) (snd x) (snd c) \<and>
      node_fits n (snd c) \<and> bt_get plan (fst x) = Some (snd c) \<and> bt_get (cs_exports sch) (fst x) = Some (snd x)) xs cs"
    and "sorted_wrt (<) (map fst acc @ map fst xs)" "resolved_ok (cs_types sch)" "ps_old_schema st = sch"
  shows "foldR (generate_export n k E sch plan) (acc, st) xs = Inr (acc @ cs, st)"
  using assms
proof (induction xs cs arbitrary: acc rule: list_all2_induct)
  case (Cons x xs c cs)
  let ?p = "\<lparr>otp_name = fst x, otp_ty = snd x, otp_annotations = [], otp_node = snd c\<rparr>"
  have "generate_field n k E sch (snd x) (Some ?p) st = Inr (snd c, st)"
    using Cons.hyps(1) Cons.prems(2,3) regenerate_field [of ?p "snd x" sch st n] by simp
  moreover have "export_old_point plan sch (fst x) (snd x) = Some ?p"
    using Cons.hyps(1) by (simp add: export_old_point_def validate_type_def)
  moreover have "bt_insert (fst x) (snd c) acc = acc @ [c]"
    using Cons.hyps(1) Cons.prems(1) by (subst bt_insert_last) (auto simp: sorted_wrt_append prod_eq_iff)
  ultimately have "generate_export n k E sch plan (acc, st) x = Inr (acc @ [c], st)"
    using Cons.prems(3) by (simp add: generate_export_def)
  moreover have "sorted_wrt (<) (map fst (acc @ [c]) @ map fst xs)"
    using Cons.prems(1) Cons.hyps(1) by simp
  ultimately show ?case using Cons.IH [of "acc @ [c]"] Cons.prems(2,3) by simp
qed simp

lemma replan_same:
  assumes "generate_plan_for_schema n k E rng old_plan olds sch = Inr plan" "schema_ok sch"
  shows "generate_plan_for_schema n k' E' rng' plan sch sch = Inr plan"
proof -
  obtain sp st' where sp: "special_types_of n sch = Inr sp" "plan_conf sch (sp_recursive sp) (sp_set_members sp) plan"
    "list_all (\<lambda>c. node_fits n (snd c)) plan"
    using generate_plan_run [OF assms] by metis
  have ex: "sorted_wrt (<) (map fst (cs_exports sch))" "distinct (map fst (cs_exports sch))" "resolved_ok (cs_types sch)"
    using assms(2) by (auto simp: schema_ok_def bt_ok_def strict_sorted_iff)
  have fp: "map fst plan = map fst (cs_exports sch)" "length (cs_exports sch) = length plan"
    using sp(2) by (auto simp: plan_conf_def list_all2_lengthD)
  let ?st = "initial_plan_state rng' plan sch sp"
  have "list_all2 (\<lambda>x c. fst c = fst x \<and>
      node_conf sch (recursive_types ?st) (set_member_types ?st) (fields_in_stack ?st) (snd x) (snd c) \<and>
      node_fits n (snd c) \<and> bt_get plan (fst x) = Some (snd c) \<and> bt_get (cs_exports sch) (fst x) = Some (snd x))
    (cs_exports sch) plan"
    unfolding list_all2_conv_all_nth
  proof (intro conjI allI impI)
    fix i assume i: "i < length (cs_exports sch)"
    show fc: "fst (plan ! i) = fst (cs_exports sch ! i)" using i fp by (metis nth_map)
    show "node_conf sch (recursive_types ?st) (set_member_types ?st) (fields_in_stack ?st)
        (snd (cs_exports sch ! i)) (snd (plan ! i))"
      using sp(2) i by (simp add: plan_conf_def initial_plan_state_def list_all2_conv_all_nth)
    show "node_fits n (snd (plan ! i))" using sp(3) i fp(2) by (simp add: list_all_length)
    show "bt_get (cs_exports sch) (fst (cs_exports sch ! i)) = Some (snd (cs_exports sch ! i))"
      using i ex(2) by (simp add: map_of_eq_Some_iff)
    show "bt_get plan (fst (cs_exports sch ! i)) = Some (snd (plan ! i))"
      using i ex(2) fp fc by (metis map_of_eq_Some_iff nth_mem prod.collapse)
  qed (rule fp(2))
  then have "foldR (generate_export n k' E' sch plan) ([], ?st) (cs_exports sch) = Inr ([] @ plan, ?st)"
    by (rule regenerate_exports) (use ex in \<open>auto simp: initial_plan_state_def\<close>)
  then show ?thesis using sp(1) by (simp add: generate_plan_for_schema_def)
qed

text \<open>
  C10. Deploying a schema again changes nothing: planning the same schema on top of the
  plan generated for it gives back that plan, key by key, whatever the clock and the
  random generator return. (The server's migration check relies on this.)
\<close>

theorem replanning_is_identity:
  assumes "generate_plan_for_schema n k E rng old_plan olds sch = Inr plan" "schema_ok sch"
  shows "generate_plan_for_schema n k' E' rng' plan sch sch = Inr plan"
  by (rule replan_same [OF assms])

theorem replanning_is_identity_witness:
  "generate_plan_for_schema (Suc (Suc (Suc (Suc 0)))) 0 sample_externs (\<lambda>_. (0, [])) tree_plan tree_compiled tree_compiled
    = Inr tree_plan"
  using replanning_is_identity [OF tree_plan_generated sample_schemas_ok(4)] .

end
