(* ===== verification/Planner_Termination.thy ===== *)
theory Planner_Termination
  imports Planner
begin

text \<open>
  The planner returns. Both of its walks follow the relation \<open>reach\<close>; the first records
  every table that recurs below itself, so the second finds such a table on its stack
  and stops there. The open tables on a path are therefore distinct, which bounds
  the depth by the number of types.
\<close>

text \<open>
  The configurations a walk passes: the tables open on the path and the field type
  at hand. Both walks of the planner follow the same steps.
\<close>

inductive reach :: "compiled_schema \<Rightarrow> string set \<Rightarrow> field_type \<Rightarrow> string set \<Rightarrow> field_type \<Rightarrow> bool" for sch where
  reach_refl: "reach sch A ty A ty"
| reach_set: "reach sch A x B y \<Longrightarrow> reach sch A (FSet x) B y"
| reach_table: "t \<notin> A \<Longrightarrow> bt_get (cs_types sch) t = Some ty \<Longrightarrow> f \<in> set (st_fields ty) \<Longrightarrow>
    reach sch (insert t A) (fst (snd f)) B y \<Longrightarrow> reach sch A (FTable t) B y"

inductive_simps reach_primitive: "reach sch A (FPrimitive p) B y"
inductive_cases reach_setE: "reach sch A (FSet x) B y"
inductive_cases reach_tableE: "reach sch A (FTable t) B y"

lemma reach_trans: "reach sch A x B y \<Longrightarrow> reach sch B y C z \<Longrightarrow> reach sch A x C z"
  by (induction rule: reach.induct) (auto intro: reach.intros)

lemma collect_special_sound:
  assumes "collect_special_types n sch s ty = Inr s'"
  shows "sp_state s' = sp_state s \<and> sp_recursive s \<subseteq> sp_recursive s' \<and> sp_set_members s \<subseteq> sp_set_members s' \<and>
    (\<forall>B t. reach sch (sp_state s) ty B (FTable t) \<longrightarrow> t \<in> B \<longrightarrow> t \<in> sp_recursive s')"
  using assms
proof (induction n arbitrary: s ty s')
  case (Suc n)
  show ?case
  proof (cases ty)
    case (FPrimitive p)
    then show ?thesis using Suc.prems by (auto simp: reach_primitive)
  next
    case (FSet x)
    let ?s = "case x of FTable t \<Rightarrow> s\<lparr>sp_set_members := insert t (sp_set_members s)\<rparr> | _ \<Rightarrow> s"
    have *: "sp_state ?s = sp_state s" "sp_recursive ?s = sp_recursive s" "sp_set_members s \<subseteq> sp_set_members ?s"
      by (auto split: field_type.split)
    from Suc.prems FSet have "collect_special_types n sch ?s x = Inr s'" by simp
    from Suc.IH [OF this] show ?thesis
      unfolding FSet * using *(3) by (auto elim: reach_setE)
  next
    case (FTable t)
    show ?thesis
    proof (cases "t \<in> sp_state s")
      case True
      with Suc.prems FTable show ?thesis by (auto elim: reach_tableE)
    next
      case False
      let ?s0 = "s\<lparr>sp_state := insert t (sp_state s)\<rparr>"
      from False Suc.prems FTable obtain ty' s1 where
        ty: "bt_get (cs_types sch) t = Some ty'" and
        loop: "foldR (\<lambda>s f. collect_special_types n sch s (fst (snd f))) ?s0 (st_fields ty') = Inr s1" and
        s': "s' = s1\<lparr>sp_state := sp_state s1 - {t}\<rparr>"
        by (auto split: if_splits)
      have fields: "sp_state s1 = sp_state u \<and> sp_recursive u \<subseteq> sp_recursive s1 \<and>
          sp_set_members u \<subseteq> sp_set_members s1 \<and>
          (\<forall>f \<in> set fs. \<forall>B t. reach sch (sp_state u) (fst (snd f)) B (FTable t) \<longrightarrow> t \<in> B \<longrightarrow> t \<in> sp_recursive s1)"
        if "foldR (\<lambda>s f. collect_special_types n sch s (fst (snd f))) u fs = Inr s1" for fs u
        using that
      proof (induction fs arbitrary: u)
        case (Cons f fs)
        then obtain s2 where 2: "collect_special_types n sch u (fst (snd f)) = Inr s2"
          "foldR (\<lambda>s f. collect_special_types n sch s (fst (snd f))) s2 fs = Inr s1" by auto
        show ?case using Suc.IH [OF 2(1)] Cons.IH [OF 2(2)] by auto
      qed auto
      show ?thesis
        using fields [OF loop] s' ty False unfolding FTable by (auto elim!: reach_tableE)
    qed
  qed
qed simp

definition walk_fuel :: "compiled_schema \<Rightarrow> string set \<Rightarrow> field_type \<Rightarrow> nat" where
  "walk_fuel sch A ty =
     2 * card (bt_keys (cs_types sch) - A) + (case ty of FSet _ \<Rightarrow> 2 | _ \<Rightarrow> 1)"

lemma walk_fuel_pos: "walk_fuel sch A ty > 0"
  by (simp add: walk_fuel_def split: field_type.split)

lemma walk_fuel_field:
  assumes "t \<notin> A" "t \<in> bt_keys (cs_types sch)" "walk_fuel sch A (FTable t) \<le> Suc n"
  shows "walk_fuel sch (insert t A) ty \<le> n"
proof -
  have "bt_keys (cs_types sch) - insert t A = (bt_keys (cs_types sch) - A) - {t}" by auto
  then have "card (bt_keys (cs_types sch) - A) = Suc (card (bt_keys (cs_types sch) - insert t A))"
    using assms(1,2) by (metis DiffI card_Suc_Diff1 finite_Diff finite_bt_keys)
  then show ?thesis using assms(3) by (simp add: walk_fuel_def split: field_type.split)
qed

lemma field_closed:
  assumes "resolved_ok (cs_types sch)" "bt_get (cs_types sch) t = Some ty" "f \<in> set (st_fields ty)"
  shows "ft_closed (bt_keys (cs_types sch)) (fst (snd f))"
  using assms by (force simp: resolved_ok_def type_ok_def field_ok_def dest!: map_of_SomeD)

lemma ft_closed_FSet: "ft_closed T (FSet x) \<Longrightarrow> \<exists>t. x = FTable t \<and> t \<in> T"
  by (cases x) auto

lemma collect_special_total:
  assumes "resolved_ok (cs_types sch)"
  shows "ft_closed (bt_keys (cs_types sch)) ty \<Longrightarrow> walk_fuel sch (sp_state s) ty \<le> n \<Longrightarrow>
    fails_only (\<lambda>_. False) (collect_special_types n sch s ty)"
proof (induction n arbitrary: s ty)
  case 0
  then show ?case using walk_fuel_pos [of sch "sp_state s" ty] by simp
next
  case (Suc n)
  show ?case
  proof (cases ty)
    case (FSet x)
    with Suc.prems(1) obtain t where t: "x = FTable t" "t \<in> bt_keys (cs_types sch)"
      using ft_closed_FSet by blast
    let ?s = "s\<lparr>sp_set_members := insert t (sp_set_members s)\<rparr>"
    have "fails_only (\<lambda>_. False) (collect_special_types n sch ?s x)"
      by (rule Suc.IH) (use Suc.prems(2) t FSet in \<open>simp_all add: walk_fuel_def\<close>)
    then show ?thesis using FSet t by simp
  next
    case (FTable t)
    have "fails_only (\<lambda>_. False) (foldR (\<lambda>s f. collect_special_types n sch s (fst (snd f)))
        (s\<lparr>sp_state := insert t (sp_state s)\<rparr>) (st_fields ty'))"
      if t: "t \<notin> sp_state s" "bt_get (cs_types sch) t = Some ty'" for ty'
    proof (rule fails_only_foldR [where P = "\<lambda>u. sp_state u = insert t (sp_state s)"])
      fix u :: special_types and f assume u: "f \<in> set (st_fields ty')" "sp_state u = insert t (sp_state s)"
      have "t \<in> bt_keys (cs_types sch)" using t(2) by (simp add: bt_keys_iff)
      then show "fails_only (\<lambda>_. False) (collect_special_types n sch u (fst (snd f)))"
        using Suc.IH [OF field_closed [OF assms t(2) u(1)]] walk_fuel_field [OF t(1)] Suc.prems(2) u(2) FTable
        by simp
    next
      fix u f u' assume "sp_state u = insert t (sp_state s)" "collect_special_types n sch u (fst (snd f)) = Inr u'"
      then show "sp_state u' = insert t (sp_state s)"
        using collect_special_sound [of n sch u "fst (snd f)" u'] by simp
    qed simp
    moreover have "bt_get (cs_types sch) t \<noteq> None" using Suc.prems(1) FTable by (simp add: bt_keys_iff)
    ultimately show ?thesis
      using FTable by (auto intro!: fails_only_bindR fails_only_ok_or)
  qed simp
qed

text \<open>What the walk needs of the clock and the random generator.\<close>

definition good_rng :: "externs \<Rightarrow> nat \<Rightarrow> nat \<Rightarrow> (nat \<Rightarrow> 64 word \<times> bytes) \<Rightarrow> storage_key set \<Rightarrow> bool" where
  "good_rng E k N rng old_keys \<longleftrightarrow> (\<forall>i. unat (fst (rng i)) < 2 ^ 48) \<and>
     (\<forall>i < N. \<exists>j < k. draw_key E (rng (i + j)) \<notin> old_keys \<union> (\<lambda>m. draw_key E (rng m)) ` {..< i + j})"

definition rng_inv :: "externs \<Rightarrow> storage_key set \<Rightarrow> plan_state \<Rightarrow> bool" where
  "rng_inv E old_keys st \<longleftrightarrow>
     used_storage_keys st \<subseteq> old_keys \<union> (\<lambda>m. draw_key E (ps_rng st m)) ` {..< ps_pos st}"

lemma rand_storage_key_inv:
  "rand_storage_key k E st = Inr (key, st') \<Longrightarrow> rng_inv E ok st \<Longrightarrow> rng_inv E ok st'"
proof (induction k arbitrary: st)
  case (Suc k)
  let ?st = "st\<lparr>ps_pos := Suc (ps_pos st)\<rparr>" and ?key = "draw_key E (ps_rng st (ps_pos st))"
  have inv: "rng_inv E ok ?st"
    using Suc.prems(2) by (force simp: rng_inv_def)
  show ?case
  proof (cases "?key \<in> used_storage_keys st")
    case True
    then show ?thesis using Suc.IH [of ?st] Suc.prems(1) inv by (simp add: Let_def split: if_splits)
  next
    case False
    then have "st' = ?st\<lparr>used_storage_keys := insert ?key (used_storage_keys st)\<rparr>"
      using Suc.prems(1) by (auto simp: Let_def split: if_splits)
    then show ?thesis using inv by (simp add: rng_inv_def)
  qed
qed simp

lemma be_bytes_zero: "x < 256 ^ n \<Longrightarrow> be_bytes (m + n) x = replicate m 0 @ be_bytes n x"
proof (induction n arbitrary: x)
  case (Suc n)
  have "x div 256 < 256 ^ n" using Suc.prems by (intro less_mult_imp_div_less) (simp add: mult.commute)
  then show ?case using Suc.IH by simp
qed (simp add: be_bytes_0)

lemma time_prefix:
  assumes "big_endian_u64 E" "unat t < 2 ^ 48"
  shows "write_u64 E t ! 0 = 0" "write_u64 E t ! 1 = 0"
proof -
  have "be_bytes 8 (unat t) = replicate 2 0 @ be_bytes 6 (unat t)"
    using be_bytes_zero [of "unat t" 6 2] assms(2) by simp
  then have "write_u64 E t = replicate 2 0 @ be_bytes 6 (unat t)"
    using assms(1) by (simp add: big_endian_u64_def)
  then show "write_u64 E t ! 0 = 0" "write_u64 E t ! 1 = 0" by (simp_all add: nth_append)
qed

lemma rand_storage_key_total:
  assumes "big_endian_u64 E" "\<forall>i. unat (fst (ps_rng st i)) < 2 ^ 48"
    and "j < k" "draw_key E (ps_rng st (ps_pos st + j)) \<notin> used_storage_keys st"
  shows "fails_only (\<lambda>_. False) (rand_storage_key k E st)"
  using assms
proof (induction k arbitrary: st j)
  case (Suc k)
  note IH = Suc.IH and prems = Suc.prems
  let ?st = "st\<lparr>ps_pos := Suc (ps_pos st)\<rparr>"
  have *: "fails_only (\<lambda>_. False) (rand_storage_key k E ?st)"
    if "draw_key E (ps_rng st (ps_pos st)) \<in> used_storage_keys st"
  proof (cases j)
    case 0
    then show ?thesis using that prems(4) by simp
  next
    case (Suc i)
    then show ?thesis using IH [of ?st i] prems by simp
  qed
  show ?case using * time_prefix [OF prems(1)] prems(2) by (simp add: Let_def)
qed simp


lemma rand_storage_key_pos: "rand_storage_key k E st = Inr (key, st') \<Longrightarrow> ps_pos st' \<le> ps_pos st + k"
proof (induction k arbitrary: st)
  case (Suc k)
  show ?case
  proof (cases "draw_key E (ps_rng st (ps_pos st)) \<in> used_storage_keys st")
    case True
    then show ?thesis
      using Suc.IH [of "st\<lparr>ps_pos := Suc (ps_pos st)\<rparr>"] Suc.prems by (simp add: Let_def split: if_splits)
  next
    case False
    then show ?thesis using Suc.prems by (auto simp: Let_def split: if_splits)
  qed
qed simp

definition only_missing_key :: "planner_error fault \<Rightarrow> bool" where
  "only_missing_key f \<longleftrightarrow> (\<exists>t. f = Err (SetMemberTypeWithoutPrimaryKey t))"

definition walk_inv :: "externs \<Rightarrow> nat \<Rightarrow> nat \<Rightarrow> storage_key set \<Rightarrow> string set \<Rightarrow> string set \<Rightarrow> plan_state \<Rightarrow> bool" where
  "walk_inv E k N ok R A st \<longleftrightarrow> good_rng E k N (ps_rng st) ok \<and> rng_inv E ok st \<and>
     recursive_types st = R \<and> dom (fields_in_stack st) = A \<inter> R"

lemma fails_only_weaken: "fails_only (\<lambda>_. False) r \<Longrightarrow> fails_only Q r"
  by (auto simp: fails_only_def)

lemma key_or_rand_total:
  assumes "big_endian_u64 E" "walk_inv E k N ok R A st" "ps_pos st < N"
  shows "fails_only Q (key_or_rand k E old st)"
proof (cases old)
  case None
  obtain j where j: "j < k" "draw_key E (ps_rng st (ps_pos st + j)) \<notin> ok \<union> (\<lambda>m. draw_key E (ps_rng st m)) ` {..< ps_pos st + j}"
    using assms(2,3) unfolding walk_inv_def good_rng_def by metis
  have "draw_key E (ps_rng st (ps_pos st + j)) \<notin> used_storage_keys st"
  proof
    assume "draw_key E (ps_rng st (ps_pos st + j)) \<in> used_storage_keys st"
    then have "draw_key E (ps_rng st (ps_pos st + j)) \<in> ok \<union> (\<lambda>m. draw_key E (ps_rng st m)) ` {..< ps_pos st}"
      using assms(2) unfolding walk_inv_def rng_inv_def by blast
    moreover have "(\<lambda>m. draw_key E (ps_rng st m)) ` {..< ps_pos st} \<subseteq> (\<lambda>m. draw_key E (ps_rng st m)) ` {..< ps_pos st + j}"
      by (intro image_mono) auto
    ultimately show False using j(2) by blast
  qed
  then show ?thesis
    using rand_storage_key_total [OF assms(1) _ j(1)] assms(2) None
    by (auto simp: key_or_rand_def walk_inv_def good_rng_def intro: fails_only_weaken)
qed (simp add: key_or_rand_def)

lemma key_or_rand_inv:
  "key_or_rand k E old st = Inr (key, st') \<Longrightarrow> rng_inv E ok st \<Longrightarrow> rng_inv E ok st'"
  by (auto simp: key_or_rand_def intro: rand_storage_key_inv split: option.splits)

lemma generate_table_inv:
  assumes "generate_table rc k E sch t old st = Inr (node, st')" "rng_inv E ok st"
    and rc: "\<And>ty old st node st'. rc ty old st = Inr (node, st') \<Longrightarrow> rng_inv E ok st \<Longrightarrow> rng_inv E ok st'"
  shows "rng_inv E ok st'"
proof (cases "fields_in_stack st t")
  case (Some r)
  with assms(1,2) show ?thesis by (auto simp: generate_table_def intro: key_or_rand_inv)
next
  case None
  have upd: "rng_inv E ok (u\<lparr>fields_in_stack := g\<rparr>) \<longleftrightarrow> rng_inv E ok u" for u g
    by (simp add: rng_inv_def)
  obtain ty key st1 children pk st3 where
    "bt_get (cs_types sch) t = Some ty" and
    1: "key_or_rand k E old st = Inr (key, st1)" and
    loop: "foldR (generate_subfield rc old) ([], False,
        if t \<in> recursive_types st1 then st1\<lparr>fields_in_stack := (fields_in_stack st1)(t \<mapsto> key)\<rparr> else st1)
      (st_fields ty) = Inr (children, pk, st3)" and
    "t \<in> set_member_types st3 \<longrightarrow> pk" "node = StorageNode key True None None children" and
    3: "st' = (if t \<in> recursive_types st1 then st3\<lparr>fields_in_stack := (fields_in_stack st3)(t := None)\<rparr> else st3)"
    by (rule generate_table_run [OF assms(1) None])
  have "rng_inv E ok (snd (snd (children, pk, st3)))"
  proof (rule foldR_invariant [OF loop])
    fix s f s' assume "rng_inv E ok (snd (snd s))" "generate_subfield rc old s f = Inr s'"
    then show "rng_inv E ok (snd (snd s'))" using rc by (auto simp: generate_subfield_def split: prod.splits)
  qed (use key_or_rand_inv [OF 1 assms(2)] in \<open>simp add: upd\<close>)
  with 3 show ?thesis by (simp add: upd)
qed

lemma generate_field_inv:
  "generate_field n k E sch ty old st = Inr (node, st') \<Longrightarrow> rng_inv E ok st \<Longrightarrow> rng_inv E ok st'"
proof (induction n arbitrary: ty old st node st')
  case (Suc n)
  then show ?case
  proof (cases ty)
    case (FTable t)
    then show ?thesis using generate_table_inv [OF _ Suc.prems(2) Suc.IH] Suc.prems(1) by simp
  next
    case (FPrimitive p)
    then show ?thesis using Suc.prems by (auto intro: key_or_rand_inv)
  next
    case (FSet x)
    with Suc.prems obtain inner st1 key where
      "generate_field n k E sch x (Option.bind (Option.bind old reduce_set) (\<lambda>y. validate_type y x)) st = Inr (inner, st1)"
      "key_or_rand k E old st1 = Inr (key, st')" by auto
    then show ?thesis using Suc.IH Suc.prems(2) key_or_rand_inv by metis
  qed
qed simp

lemma walk_inv_frame: "walk_inv E k N ok R A st \<Longrightarrow> plan_frame st st' \<Longrightarrow> rng_inv E ok st' \<Longrightarrow> walk_inv E k N ok R A st'"
  by (simp add: walk_inv_def plan_frameD)

text \<open>
  The number of nodes a field calls for, which bounds the keys drawn for it; \<open>A\<close> holds
  the open tables.
\<close>

fun plan_weight :: "nat \<Rightarrow> compiled_schema \<Rightarrow> string set \<Rightarrow> field_type \<Rightarrow> nat" where
  "plan_weight 0 sch A ty = 1"
| "plan_weight (Suc n) sch A (FPrimitive _) = 1"
| "plan_weight (Suc n) sch A (FSet x) = Suc (plan_weight n sch A x)"
| "plan_weight (Suc n) sch A (FTable t) =
     (if t \<in> A then 1
      else case bt_get (cs_types sch) t of
        None \<Rightarrow> 1
      | Some ty \<Rightarrow>
          Suc (sum_list (map (\<lambda>f. plan_weight n sch (insert t A) (fst (snd f))) (st_fields ty))))"

definition schema_weight :: "nat \<Rightarrow> compiled_schema \<Rightarrow> nat" where
  "schema_weight n sch = sum_list (map (\<lambda>x. plan_weight n sch {} (snd x)) (cs_exports sch))"

text \<open>A step that has \<open>d\<close> draws left before \<open>N\<close> ends, keeps the invariant and takes at most \<open>d\<close>.\<close>

definition steady where
  "steady E k N ok R A d sel st r \<longleftrightarrow> fails_only only_missing_key r \<and>
     (\<forall>x. r = Inr x \<longrightarrow> walk_inv E k N ok R A (sel x) \<and> ps_pos (sel x) \<le> ps_pos st + d)"

lemma generate_fields_steady:
  assumes rc: "\<And>f old st. f \<in> set fs \<Longrightarrow> walk_inv E k N ok R A st \<Longrightarrow> ps_pos st + k * w f \<le> N \<Longrightarrow>
      steady E k N ok R A (k * w f) snd st (rc (fst (snd f)) old st)"
  shows "walk_inv E k N ok R A st \<Longrightarrow> ps_pos st + k * sum_list (map w fs) \<le> N \<Longrightarrow>
    steady E k N ok R A (k * sum_list (map w fs)) (\<lambda>x. snd (snd x)) st
      (foldR (generate_subfield rc old) (ch, pk, st) fs)"
  using rc
proof (induction fs arbitrary: ch pk st)
  case Nil
  then show ?case by (simp add: steady_def)
next
  case (Cons f fs)
  let ?r = "rc (fst (snd f)) (subfield_old_point (ps_old_schema st) old f) st"
  have f: "steady E k N ok R A (k * w f) snd st ?r"
    using Cons.prems(2) by (intro Cons.prems(3) Cons.prems(1)) (simp_all add: algebra_simps)
  have rest: "steady E k N ok R A (k * sum_list (map w fs)) (\<lambda>x. snd (snd x)) st1
      (foldR (generate_subfield rc old) (ch', pk', st1) fs)" if "?r = Inr (x, st1)" for x st1 ch' pk'
  proof (rule Cons.IH)
    show "walk_inv E k N ok R A st1" "ps_pos st1 + k * sum_list (map w fs) \<le> N"
      using f that Cons.prems(2) by (auto simp: steady_def algebra_simps)
  qed (simp add: Cons.prems(3))
  show ?case
  proof (cases ?r)
    case (Inl e)
    with f show ?thesis by (simp add: steady_def generate_subfield_def [of rc old "(ch, pk, st)"])
  next
    case (Inr y)
    obtain x st1 where y: "y = (x, st1)" by force
    then show ?thesis
      using f rest [of x st1 "bt_insert (fst f) x ch" "pk \<or> is_primary (snd (snd f))"] Inr
      by (force simp: steady_def generate_subfield_def [of rc old "(ch, pk, st)"] algebra_simps)
  qed
qed

lemma key_or_rand_steady:
  assumes "big_endian_u64 E" "walk_inv E k N ok R A st" "ps_pos st < N"
  shows "steady E k N ok R A k snd st (key_or_rand k E old st)"
  unfolding steady_def
proof (intro conjI allI impI)
  show "fails_only only_missing_key (key_or_rand k E old st)" by (rule key_or_rand_total [OF assms])
  fix x assume x: "key_or_rand k E old st = Inr x"
  then have x': "key_or_rand k E old st = Inr (fst x, snd x)" by simp
  show "walk_inv E k N ok R A (snd x)"
  proof (rule walk_inv_frame [OF assms(2)])
    show "plan_frame st (snd x)" by (rule key_or_rand_cases [OF x']) simp_all
    show "rng_inv E ok (snd x)" using key_or_rand_inv [OF x'] assms(2) by (simp add: walk_inv_def)
  qed
  show "ps_pos (snd x) \<le> ps_pos st + k"
    using x' rand_storage_key_pos [of k E st "fst x" "snd x"]
    by (auto simp: key_or_rand_def split: option.splits)
qed

lemma steady_bindR:
  assumes "steady E k N ok R A d snd st r" "\<And>x st1. r = Inr (x, st1) \<Longrightarrow> walk_inv E k N ok R A st1 \<Longrightarrow>
      ps_pos st1 \<le> ps_pos st + d \<Longrightarrow> steady E k N ok R A' d' sel st1 (c (x, st1))"
  shows "steady E k N ok R A' (d + d') sel st (bindR r c)"
proof (cases r)
  case (Inr y)
  then show ?thesis using assms(1) assms(2) [of "fst y" "snd y"] by (fastforce simp: steady_def)
qed (use assms(1) in \<open>simp add: steady_def\<close>)

lemma generate_table_steady:
  assumes E: "big_endian_u64 E" "0 < k" and sch: "resolved_ok (cs_types sch)" "bt_get (cs_types sch) t = Some ty"
    and inv: "walk_inv E k N ok R A st" and t: "t \<notin> A"
    and N: "ps_pos st + (k + k * sum_list (map w (st_fields ty))) \<le> N"
    and rc: "\<And>f old st. f \<in> set (st_fields ty) \<Longrightarrow> walk_inv E k N ok R (insert t A) st \<Longrightarrow>
        ps_pos st + k * w f \<le> N \<Longrightarrow>
        steady E k N ok R (insert t A) (k * w f) snd st (generate_field n k E sch (fst (snd f)) old st)"
  shows "steady E k N ok R A (k + k * sum_list (map w (st_fields ty))) snd st
    (generate_table (generate_field n k E sch) k E sch t old st)"
proof -
  have none: "fields_in_stack st t = None" using t inv by (auto simp: walk_inv_def domIff)
  let ?push = "\<lambda>key st1. if t \<in> recursive_types st1 then st1\<lparr>fields_in_stack := (fields_in_stack st1)(t \<mapsto> key)\<rparr> else st1"
  let ?pop = "\<lambda>st1 st3. if t \<in> recursive_types st1 then st3\<lparr>fields_in_stack := (fields_in_stack st3)(t := None)\<rparr> else st3"
  have key: "steady E k N ok R A k snd st (key_or_rand k E old st)"
    using N E(2) by (intro key_or_rand_steady [OF E(1) inv]) simp
  have body: "steady E k N ok R A (k * sum_list (map w (st_fields ty))) snd st1
      (bindR (foldR (generate_subfield (generate_field n k E sch) old) ([], False, ?push key st1) (st_fields ty))
        (\<lambda>(children, has_pk, st3). if t \<in> set_member_types (?pop st1 st3) \<and> \<not> has_pk
          then Inl (Err (SetMemberTypeWithoutPrimaryKey (st_name ty)))
          else Inr (StorageNode key True None None children, ?pop st1 st3)))" (is "steady _ _ _ _ _ _ _ _ _ (bindR ?loop ?c)")
    if st1: "walk_inv E k N ok R A st1" "ps_pos st1 \<le> ps_pos st + k" for key st1
  proof -
    have push: "walk_inv E k N ok R (insert t A) (?push key st1)" "ps_pos (?push key st1) = ps_pos st1"
      using st1(1) by (auto simp: walk_inv_def rng_inv_def)
    have "steady E k N ok R (insert t A) (k * sum_list (map w (st_fields ty))) (\<lambda>x. snd (snd x)) (?push key st1) ?loop"
      by (rule generate_fields_steady [OF _ push(1)]) (use rc push(2) st1(2) N in \<open>simp_all\<close>)
    then have l: "steady E k N ok R (insert t A) (k * sum_list (map w (st_fields ty))) (\<lambda>x. snd (snd x)) st1 ?loop"
      using push(2) by (simp add: steady_def)
    have pop: "walk_inv E k N ok R A (?pop st1 st3)" if "walk_inv E k N ok R (insert t A) st3" for st3
      using that st1(1) t by (auto simp: walk_inv_def rng_inv_def)
    show ?thesis
    proof (cases ?loop)
      case (Inr y)
      then show ?thesis using l pop [of "snd (snd y)"]
        by (cases y) (auto simp: steady_def only_missing_key_def)
    qed (use l in \<open>simp add: steady_def\<close>)
  qed
  have "generate_table (generate_field n k E sch) k E sch t old st = bindR (key_or_rand k E old st) (\<lambda>(key, st1).
      bindR (foldR (generate_subfield (generate_field n k E sch) old) ([], False, ?push key st1) (st_fields ty))
        (\<lambda>(children, has_pk, st3). if t \<in> set_member_types (?pop st1 st3) \<and> \<not> has_pk
          then Inl (Err (SetMemberTypeWithoutPrimaryKey (st_name ty)))
          else Inr (StorageNode key True None None children, ?pop st1 st3)))"
    using none sch(2) by (simp add: generate_table_def Let_def)
  then show ?thesis by (simp only:) (rule steady_bindR [OF key], simp only: prod.case, rule body)
qed

lemma generate_field_steady:
  assumes E: "big_endian_u64 E" "0 < k" and sch: "resolved_ok (cs_types sch)"
    and cover: "\<forall>B t. reach sch {} root B (FTable t) \<longrightarrow> t \<in> B \<longrightarrow> t \<in> R"
  shows "reach sch {} root A ty \<Longrightarrow> ft_closed (bt_keys (cs_types sch)) ty \<Longrightarrow> walk_inv E k N ok R A st \<Longrightarrow>
    walk_fuel sch A ty \<le> n \<Longrightarrow> ps_pos st + k * plan_weight n sch A ty \<le> N \<Longrightarrow>
    steady E k N ok R A (k * plan_weight n sch A ty) snd st (generate_field n k E sch ty old st)"
proof (induction n arbitrary: A ty old st)
  case 0
  then show ?case using walk_fuel_pos [of sch A ty] by simp
next
  case (Suc n)
  note prems = Suc.prems
  show ?case
  proof (cases ty)
    case (FTable t)
    obtain ty' where ty': "bt_get (cs_types sch) t = Some ty'"
      using prems(2) FTable by (auto simp: bt_keys_iff)
    show ?thesis
    proof (cases "t \<in> A")
      case True
      then have "t \<in> R" using cover prems(1) FTable by blast
      then obtain r where r: "fields_in_stack st t = Some r" using prems(3) True by (auto simp: walk_inv_def)
      have "steady E k N ok R A (k + 0) snd st (generate_field (Suc n) k E sch (FTable t) old st)"
        unfolding generate_field.simps generate_table_def r option.case
        using prems(5) E True FTable by (intro steady_bindR [OF key_or_rand_steady [OF E(1) prems(3)]]) (simp_all add: steady_def)
      then show ?thesis using FTable True by simp
    next
      case False
      have "steady E k N ok R A (k + k * sum_list (map (\<lambda>f. plan_weight n sch (insert t A) (fst (snd f))) (st_fields ty')))
          snd st (generate_table (generate_field n k E sch) k E sch t old st)"
      proof (rule generate_table_steady [OF E sch ty' prems(3) False])
        show "ps_pos st + (k + k * sum_list (map (\<lambda>f. plan_weight n sch (insert t A) (fst (snd f))) (st_fields ty'))) \<le> N"
          using prems(5) FTable False ty' by (simp add: algebra_simps)
        fix f and old :: "old_tree_point option" and st
        assume f: "f \<in> set (st_fields ty')" and inv: "walk_inv E k N ok R (insert t A) st"
          "ps_pos st + k * plan_weight n sch (insert t A) (fst (snd f)) \<le> N"
        have "reach sch {} root (insert t A) (fst (snd f))"
          using reach_trans [OF prems(1)] reach_table [OF False ty' f reach_refl] FTable by simp
        moreover have "walk_fuel sch (insert t A) (fst (snd f)) \<le> n"
          using walk_fuel_field [OF False] prems(4) FTable ty' by (simp add: bt_keys_iff)
        ultimately show "steady E k N ok R (insert t A) (k * plan_weight n sch (insert t A) (fst (snd f))) snd st
            (generate_field n k E sch (fst (snd f)) old st)"
          using Suc.IH field_closed [OF sch ty' f] inv by simp
      qed
      then show ?thesis using FTable False ty' by (simp add: algebra_simps)
    qed
  next
    case (FPrimitive p)
    have "steady E k N ok R A (k + 0) snd st (generate_field (Suc n) k E sch (FPrimitive p) old st)"
      unfolding generate_field.simps
      using prems(5) E FPrimitive by (intro steady_bindR [OF key_or_rand_steady [OF E(1) prems(3)]]) (simp_all add: steady_def)
    then show ?thesis using FPrimitive by simp
  next
    case (FSet x)
    let ?old = "Option.bind (Option.bind old reduce_set) (\<lambda>y. validate_type y x)"
    obtain t where t: "x = FTable t" "t \<in> bt_keys (cs_types sch)"
      using prems(2) FSet ft_closed_FSet by blast
    have N: "ps_pos st + (k * plan_weight n sch A x + k) \<le> N" using prems(5) FSet by (simp add: algebra_simps)
    have inner: "steady E k N ok R A (k * plan_weight n sch A x) snd st (generate_field n k E sch x ?old st)"
    proof (rule Suc.IH [OF _ _ prems(3)])
      show "reach sch {} root A x"
        using reach_trans [OF prems(1)] reach_set [OF reach_refl] FSet by simp
      show "walk_fuel sch A x \<le> n" using prems(4) FSet t by (simp add: walk_fuel_def)
    qed (use t N in simp_all)
    have "steady E k N ok R A (k * plan_weight n sch A x + (k + 0)) snd st (generate_field (Suc n) k E sch (FSet x) old st)"
      unfolding generate_field.simps
    proof (rule steady_bindR [OF inner], simp only: prod.case)
      fix y st1 assume st1: "walk_inv E k N ok R A st1" "ps_pos st1 \<le> ps_pos st + k * plan_weight n sch A x"
      then have "ps_pos st1 < N" using N E(2) by simp
      then show "steady E k N ok R A (k + 0) snd st1 (bindR (key_or_rand k E old st1)
          (\<lambda>(key, st2). Inr (StorageNode key False None (Some y) [], st2)))"
        by (intro steady_bindR [OF key_or_rand_steady [OF E(1) st1(1)]]) (simp_all add: steady_def)
    qed
    then show ?thesis using FSet by (simp add: algebra_simps)
  qed
qed

lemma special_types_sound:
  assumes "special_types_of n sch = Inr sp" "x \<in> set (cs_exports sch)"
    and "reach sch {} (snd x) B (FTable t)" "t \<in> B"
  shows "t \<in> sp_recursive sp"
proof -
  have "foldR (\<lambda>s x. collect_special_types n sch (s\<lparr>sp_state := {}\<rparr>) (snd x)) s xs = Inr sp \<Longrightarrow>
      sp_recursive s \<subseteq> sp_recursive sp \<and> (\<forall>x \<in> set xs. \<forall>B t. reach sch {} (snd x) B (FTable t) \<longrightarrow> t \<in> B \<longrightarrow> t \<in> sp_recursive sp)"
    for s xs
  proof (induction xs arbitrary: s)
    case (Cons x xs)
    then obtain s1 where s1: "collect_special_types n sch (s\<lparr>sp_state := {}\<rparr>) (snd x) = Inr s1"
      "foldR (\<lambda>s x. collect_special_types n sch (s\<lparr>sp_state := {}\<rparr>) (snd x)) s1 xs = Inr sp" by auto
    show ?case using collect_special_sound [OF s1(1)] Cons.IH [OF s1(2)] by auto
  qed simp
  with assms show ?thesis unfolding special_types_of_def by blast
qed

lemma walk_fuel_le: "walk_fuel sch {} ty \<le> 2 * length (cs_types sch) + 2"
  using card_image_le [of "set (cs_types sch)" fst] card_length [of "cs_types sch"]
  by (simp add: walk_fuel_def bt_keys_def split: field_type.split)

lemma collect_storage_keys_set: "collect_storage_keys x sink = sink \<union> set (node_keys x)"
proof (induction x sink rule: collect_storage_keys.induct)
  case (1 k fl ref st ch sink)
  have "fold (\<lambda>c s. collect_storage_keys (snd c) s) cs u = u \<union> set (concat (map (\<lambda>c. node_keys (snd c)) cs))"
    if "set cs \<subseteq> set ch" for cs u
    using that
  proof (induction cs arbitrary: u)
    case (Cons c cs)
    then show ?case using 1(2) [of c u] by auto
  qed simp
  with 1(1) show ?case by (auto split: option.splits)
qed

lemma collect_all_keys:
  "fold (\<lambda>x s. collect_storage_keys (snd x) s) p sink = sink \<union> set (plan_keys p)"
  by (induction p arbitrary: sink) (auto simp: collect_storage_keys_set plan_keys_def)

lemma special_types_total:
  assumes "schema_ok sch" "2 * length (cs_types sch) + 2 \<le> n"
  shows "\<exists>sp. special_types_of n sch = Inr sp"
proof -
  have "fails_only (\<lambda>_. False) (special_types_of n sch)"
    unfolding special_types_of_def
  proof (rule fails_only_foldR [where P = "\<lambda>_. True"])
    fix s :: special_types and x assume "x \<in> set (cs_exports sch)"
    moreover have "walk_fuel sch {} (snd x) \<le> n"
      using assms(2) walk_fuel_le [of sch "snd x"] by simp
    ultimately show "fails_only (\<lambda>_. False) (collect_special_types n sch (s\<lparr>sp_state := {}\<rparr>) (snd x))"
      using assms(1) by (intro collect_special_total) (auto simp: schema_ok_def)
  qed simp_all
  then show ?thesis by (cases "special_types_of n sch") auto
qed

lemma generate_exports_steady:
  assumes "\<And>x old st. x \<in> set xs \<Longrightarrow> walk_inv E k N ok R {} st \<Longrightarrow> ps_pos st + k * w x \<le> N \<Longrightarrow>
      steady E k N ok R {} (k * w x) snd st (generate_field n k E sch (snd x) old st)"
  shows "walk_inv E k N ok R {} st \<Longrightarrow> ps_pos st + k * sum_list (map w xs) \<le> N \<Longrightarrow>
    steady E k N ok R {} (k * sum_list (map w xs)) snd st
      (foldR (generate_export n k E sch old_plan) (acc, st) xs)"
  using assms
proof (induction xs arbitrary: acc st)
  case Nil
  then show ?case by (simp add: steady_def)
next
  case (Cons x xs)
  let ?r = "generate_field n k E sch (snd x) (export_old_point old_plan (ps_old_schema st) (fst x) (snd x)) st"
  have x: "steady E k N ok R {} (k * w x) snd st ?r"
    using Cons.prems(2) by (intro Cons.prems(3) Cons.prems(1)) (simp_all add: algebra_simps)
  have "steady E k N ok R {} (k * w x + k * sum_list (map w xs)) snd st
      (bindR ?r (\<lambda>(node, st1). foldR (generate_export n k E sch old_plan) (bt_insert (fst x) node acc, st1) xs))"
  proof (rule steady_bindR [OF x], simp only: prod.case)
    fix node st1 assume "walk_inv E k N ok R {} st1" "ps_pos st1 \<le> ps_pos st + k * w x"
    then show "steady E k N ok R {} (k * sum_list (map w xs)) snd st1
        (foldR (generate_export n k E sch old_plan) (bt_insert (fst x) node acc, st1) xs)"
      using Cons.prems(2,3) by (intro Cons.IH) (simp_all add: algebra_simps)
  qed
  moreover have "foldR (generate_export n k E sch old_plan) (acc, st) (x # xs) =
      bindR ?r (\<lambda>(node, st1). foldR (generate_export n k E sch old_plan) (bt_insert (fst x) node acc, st1) xs)"
    by (cases ?r) (auto simp: generate_export_def [of n k E sch old_plan "(acc, st)"])
  ultimately show ?case by (simp add: algebra_simps)
qed

text \<open>
  C22. Planning ends: for a well-formed schema, a clock within 48 bits and a random generator
  that gives a new key within every \<open>k\<close> draws, the planner with fuel linear in the number
  of types returns a plan, or reports a set member type without a primary key. It
  never misses a type, panics or runs on, also for recursive types.
\<close>

theorem planner_terminates:
  assumes "schema_ok sch" "big_endian_u64 E" "0 < k" "good_rng E k N rng (set (plan_keys old_plan))"
    and "2 * length (cs_types sch) + 2 \<le> n" "k * schema_weight n sch \<le> N"
  shows "(\<exists>plan. generate_plan_for_schema n k E rng old_plan olds sch = Inr plan) \<or>
    (\<exists>t. generate_plan_for_schema n k E rng old_plan olds sch = Inl (Err (SetMemberTypeWithoutPrimaryKey t)))"
proof -
  have ok: "resolved_ok (cs_types sch)" using assms(1) by (simp add: schema_ok_def)
  obtain sp where sp: "special_types_of n sch = Inr sp" using special_types_total assms(1,5) by blast
  let ?R = "sp_recursive sp" and ?ks = "set (plan_keys old_plan)" and ?st = "initial_plan_state rng old_plan olds sp"
  have "steady E k N ?ks ?R {} (k * sum_list (map (\<lambda>x. plan_weight n sch {} (snd x)) (cs_exports sch))) snd ?st
      (foldR (generate_export n k E sch old_plan) ([], ?st) (cs_exports sch))"
  proof (rule generate_exports_steady)
    show "walk_inv E k N ?ks ?R {} ?st"
      using assms(4) by (simp add: walk_inv_def rng_inv_def initial_plan_state_def collect_all_keys)
    show "ps_pos ?st + k * sum_list (map (\<lambda>x. plan_weight n sch {} (snd x)) (cs_exports sch)) \<le> N"
      using assms(6) by (simp add: schema_weight_def initial_plan_state_def)
  next
    fix x and old :: "old_tree_point option" and st
    assume x: "x \<in> set (cs_exports sch)" "walk_inv E k N ?ks ?R {} st" "ps_pos st + k * plan_weight n sch {} (snd x) \<le> N"
    have "walk_fuel sch {} (snd x) \<le> n" using assms(5) walk_fuel_le [of sch "snd x"] by simp
    moreover have "ft_closed (bt_keys (cs_types sch)) (snd x)" using assms(1) x(1) by (auto simp: schema_ok_def)
    moreover have "\<forall>B t. reach sch {} (snd x) B (FTable t) \<longrightarrow> t \<in> B \<longrightarrow> t \<in> ?R"
      using special_types_sound [OF sp x(1)] by blast
    ultimately show "steady E k N ?ks ?R {} (k * plan_weight n sch {} (snd x)) snd st (generate_field n k E sch (snd x) old st)"
      using generate_field_steady [OF assms(2,3) ok _ reach_refl] x(2,3) by blast
  qed
  then have "fails_only only_missing_key (generate_plan_for_schema n k E rng old_plan olds sch)"
    using sp by (auto simp: generate_plan_for_schema_def steady_def intro!: fails_only_bindR)
  then show ?thesis
    by (cases "generate_plan_for_schema n k E rng old_plan olds sch") (auto simp: only_missing_key_def)
qed

lemma sample_good_rng: "good_rng sample_externs 1 100 sample_rng {}"
proof -
  have "sample_key i \<notin> sample_key ` {..< i}" if "i < 100" for i
  proof
    assume "sample_key i \<in> sample_key ` {..< i}"
    then obtain m where "m < i" "(word_of_nat i :: byte) = word_of_nat m" by auto
    then show False using that by (simp add: word_of_nat_eq_iff take_bit_nat_eq_self)
  qed
  then show ?thesis by (simp add: good_rng_def) (simp add: sample_rng_def)
qed

theorem planner_terminates_witness:
  "(\<exists>plan. generate_plan_for_schema (Suc (Suc (Suc (Suc 0)))) 1 sample_externs sample_rng [] tree_compiled tree_compiled = Inr plan) \<or>
   (\<exists>t. generate_plan_for_schema (Suc (Suc (Suc (Suc 0)))) 1 sample_externs sample_rng [] tree_compiled tree_compiled
      = Inl (Err (SetMemberTypeWithoutPrimaryKey t)))"
proof (rule planner_terminates [OF sample_schemas_ok(4), where N = 100])
  show "big_endian_u64 sample_externs" by (simp add: big_endian_u64_def sample_externs_def)
  show "good_rng sample_externs 1 100 sample_rng (set (plan_keys []))"
    using sample_good_rng by (simp add: plan_keys_def)
qed (simp_all add: tree_compiled_def schema_weight_def)

end
