(* ===== verification/Path_Walker.thy ===== *)
theory Path_Walker
  imports Planner
begin

text \<open>
  Walking a storage plan: the cursors of \<^verbatim>\<open>data/pathwalker.rs\<close>. A walker holds the storage
  node it stands on, its own key component and the walker it came from; the key under
  which a value is stored is the concatenation of the components on the way, leaving out
  flattened tables above the last one.
\<close>

section \<open>Walkers\<close>

datatype path_walker_error =
    FieldNotFound string
  | EnterFieldOnSet
  | ReferenceNodeNotFound
  | NotSet
  | PathTooDeep

definition MAX_DEPTH :: nat where
  "MAX_DEPTH = 64"

datatype path_walker =
  PathWalker (pw_node: "storage_key storage_node") (pw_key: bytes) (pw_link: "path_walker option")
    (pw_depth: nat) (should_flatten: bool) (is_intermediate: bool) (path_segment: "string option")

definition from_export ::
  "storage_key storage_plan \<Rightarrow> string \<Rightarrow> (path_walker_error, path_walker) outcome" where
  "from_export plan export_name =
     bindR (ok_or (FieldNotFound export_name) (bt_get plan export_name)) (\<lambda>export.
     Inr (PathWalker export (sn_key export) None 1 (sn_flattened export) False (Some export_name)))"

section \<open>Keys\<close>

fun up_components :: "path_walker option \<Rightarrow> bytes list" where
  "up_components None = []"
| "up_components (Some (PathWalker nd key link depth fl im seg)) =
     (if \<not> fl then [key] else []) @ up_components link"

definition generate_key_raw :: "path_walker \<Rightarrow> bytes list" where
  "generate_key_raw w = rev (pw_key w # up_components (pw_link w))"

definition generate_key :: "path_walker \<Rightarrow> bytes" where
  "generate_key w = concat (generate_key_raw w)"

definition generate_key_pretty :: "externs \<Rightarrow> path_walker \<Rightarrow> string" where
  "generate_key_pretty E w =
     join '' '' (map (\<lambda>x. ''['' @ base64_encode E x @ '']'') (generate_key_raw w))"

definition walker_eq :: "path_walker \<Rightarrow> path_walker \<Rightarrow> bool" where
  "walker_eq a b \<longleftrightarrow> generate_key_raw a = generate_key_raw b"

definition check_and_add_depth :: "path_walker \<Rightarrow> (path_walker_error, nat) outcome" where
  "check_and_add_depth w = (if pw_depth w \<ge> MAX_DEPTH then Inl (Err PathTooDeep) else Inr (pw_depth w + 1))"

fun up_segments :: "path_walker \<Rightarrow> string list" where
  "up_segments (PathWalker nd key link depth fl im seg) =
     (if \<not> im then [case seg of Some s \<Rightarrow> s | None \<Rightarrow> ''(selector)''] else []) @
     (case link of None \<Rightarrow> [] | Some x \<Rightarrow> up_segments x)"

definition collect_non_intermediate_path_segments_on_path_including_self :: "path_walker \<Rightarrow> string list" where
  "collect_non_intermediate_path_segments_on_path_including_self w = rev (up_segments w)"

fun keys_on_path :: "path_walker option \<Rightarrow> (bytes \<times> string list) list" where
  "keys_on_path None = []"
| "keys_on_path (Some (PathWalker nd key link depth fl im seg)) =
     (if \<not> im
      then [(generate_key (PathWalker nd key link depth fl im seg),
             collect_non_intermediate_path_segments_on_path_including_self
               (PathWalker nd key link depth fl im seg))]
      else []) @ keys_on_path link"

definition all_non_intermediate_keys_on_path_excluding_self :: "path_walker \<Rightarrow> (bytes \<times> string list) list" where
  "all_non_intermediate_keys_on_path_excluding_self w = keys_on_path (pw_link w)"

section \<open>Steps\<close>

fun find_reference :: "path_walker \<Rightarrow> storage_key \<Rightarrow> storage_key storage_node option" where
  "find_reference (PathWalker nd key link depth fl im seg) r =
     (if sn_key nd = r then Some nd
      else case link of None \<Rightarrow> None | Some x \<Rightarrow> find_reference x r)"

definition enter_field :: "path_walker \<Rightarrow> string \<Rightarrow> (path_walker_error, path_walker) outcome" where
  "enter_field w field_name =
     (if sn_set (pw_node w) \<noteq> None then Inl (Err EnterFieldOnSet)
      else
        bindR (ok_or (FieldNotFound field_name) (bt_get (sn_children (pw_node w)) field_name)) (\<lambda>node.
        case subspace_reference node of
          Some r \<Rightarrow>
            (case find_reference w r of
               None \<Rightarrow> Inl (Err ReferenceNodeNotFound)
             | Some target \<Rightarrow>
                 bindR (check_and_add_depth w) (\<lambda>depth.
                 Inr (PathWalker target (sn_key node) (Some w) depth False False (Some field_name))))
        | None \<Rightarrow>
            bindR (check_and_add_depth w) (\<lambda>depth.
            Inr (PathWalker node (sn_key node) (Some w) depth (sn_flattened node) False (Some field_name)))))"

definition set_fast_scan_prefix :: "path_walker \<Rightarrow> (path_walker_error, bytes) outcome" where
  "set_fast_scan_prefix w =
     bindR (ok_or NotSet (sn_set (pw_node w))) (\<lambda>_. Inr (generate_key w @ [1]))"

definition set_data_prefix :: "path_walker \<Rightarrow> (path_walker_error, bytes) outcome" where
  "set_data_prefix w =
     bindR (ok_or NotSet (sn_set (pw_node w))) (\<lambda>_. Inr (generate_key w @ [0]))"

definition enter_set_raw :: "path_walker \<Rightarrow> bytes \<Rightarrow> (path_walker_error, path_walker) outcome" where
  "enter_set_raw w primary_key =
     bindR (ok_or NotSet (sn_set (pw_node w))) (\<lambda>set.
     let dynamic_key = [0] @ primary_key @ [0] in
     bindR (check_and_add_depth w) (\<lambda>depth.
     let intermediate = PathWalker set dynamic_key (Some w) depth False True None in
     bindR (check_and_add_depth intermediate) (\<lambda>depth'.
     Inr (PathWalker set (sn_key set) (Some intermediate) depth' True False None))))"

definition enter_set :: "externs \<Rightarrow> path_walker \<Rightarrow> primitive_value \<Rightarrow> (path_walker_error, path_walker) outcome" where
  "enter_set E w primary_key = enter_set_raw w (serialize_for_key_component E primary_key)"

section \<open>Whole paths\<close>

datatype path_step = Field string | Member bytes

fun step_walker :: "path_walker \<Rightarrow> path_step \<Rightarrow> (path_walker_error, path_walker) outcome" where
  "step_walker w (Field f) = enter_field w f"
| "step_walker w (Member pk) = enter_set_raw w pk"

definition walk_path ::
  "storage_key storage_plan \<Rightarrow> string \<Rightarrow> path_step list \<Rightarrow> (path_walker_error, path_walker) outcome" where
  "walk_path plan e steps = bindR (from_export plan e) (\<lambda>w. foldR step_walker w steps)"

end
