(* ===== verification/Planner_Migration.thy ===== *)
theory Planner_Migration
  imports Planner_Termination
begin

text \<open>
  Planning on top of an older plan: fields that keep their path and type keep their keys,
  and new fields get keys the older plan does not hold. The last section shows the one
  way in which two fields can come to share a key.
\<close>

section \<open>Migration\<close>

text \<open>The node and the type at a path of field names; a set stands for its member.\<close>

definition member_node :: "'k storage_node \<Rightarrow> 'k storage_node" where
  "member_node x = (case sn_set x of Some m \<Rightarrow> m | None \<Rightarrow> x)"

fun member_type :: "field_type \<Rightarrow> field_type" where
  "member_type (FSet x) = x"
| "member_type ty = ty"

fun node_at :: "'k storage_node \<Rightarrow> string list \<Rightarrow> 'k storage_node option" where
  "node_at x [] = Some x"
| "node_at x (f # fs) = Option.bind (bt_get (sn_children (member_node x)) f) (\<lambda>c. node_at c fs)"

definition field_of :: "compiled_schema \<Rightarrow> field_type \<Rightarrow> string \<Rightarrow> (field_type \<times> field_annotation list) option" where
  "field_of sch ty f =
     (case member_type ty of
        FTable t \<Rightarrow> Option.bind (bt_get (cs_types sch) t) (\<lambda>s. bt_get (st_fields s) f)
      | _ \<Rightarrow> None)"

fun type_at :: "compiled_schema \<Rightarrow> field_type \<Rightarrow> string list \<Rightarrow> field_type option" where
  "type_at sch ty [] = Some ty"
| "type_at sch ty (f # fs) = Option.bind (field_of sch ty f) (\<lambda>g. type_at sch (fst g) fs)"

text \<open>Both schemas give every field on the path the same type.\<close>

fun same_types :: "compiled_schema \<Rightarrow> compiled_schema \<Rightarrow> field_type \<Rightarrow> string list \<Rightarrow> bool" where
  "same_types olds sch ty [] = True"
| "same_types olds sch ty (f # fs) =
     (case (field_of olds ty f, field_of sch ty f) of
        (Some a, Some b) \<Rightarrow> fst a = fst b \<and> same_types olds sch (fst b) fs
      | _ \<Rightarrow> False)"

definition st_later :: "plan_state \<Rightarrow> plan_state \<Rightarrow> bool" where
  "st_later st st' \<longleftrightarrow> ps_old_schema st' = ps_old_schema st \<and> used_storage_keys st \<subseteq> used_storage_keys st'"

lemma find_map_None: "(\<And>x. x \<in> set xs \<Longrightarrow> f x = None) \<Longrightarrow> find_map f xs = None"
  by (induction xs) auto

lemma generates_later: "generates n sch ty old st node st' \<Longrightarrow> st_later st st'"
  by (simp add: generates_def st_later_def plan_frameD)

lemma gen_chain_member:
  assumes "gen_chain (generate_field n k E sch) old st fs cs st'" "resolved_ok (cs_types sch)" "c \<in> set cs"
  shows "\<exists>f st1 st2. f \<in> set fs \<and> fst f = fst c \<and> st_later st st1 \<and>
    generate_field n k E sch (fst (snd f)) (subfield_old_point (ps_old_schema st) old f) st1 = Inr (snd c, st2)"
  using assms(1,3)
proof (induction rule: gen_chain.induct)
  case (gen_Cons f st x st1 fs cs st')
  have l: "st_later st st1" using walk.rc_generates [OF gen_Cons.hyps(1) assms(2)] by (rule generates_later)
  show ?case
  proof (cases "c = (fst f, x)")
    case True
    then show ?thesis using gen_Cons.hyps(1) by (intro exI [of _ f] exI [of _ st] exI [of _ st1]) (auto simp: st_later_def)
  next
    case False
    then obtain g s1 s2 where "g \<in> set fs" "fst g = fst c" "st_later st1 s1"
      "generate_field n k E sch (fst (snd g)) (subfield_old_point (ps_old_schema st1) old g) s1 = Inr (snd c, s2)"
      using gen_Cons.IH gen_Cons.prems by auto
    then show ?thesis using l by (intro exI [of _ g] exI [of _ s1] exI [of _ s2]) (auto simp: st_later_def)
  qed
qed simp

lemma table_child:
  assumes "generate_table (generate_field n k E sch) k E sch t old st = Inr (node, st')"
    and "resolved_ok (cs_types sch)" "bt_get (sn_children node) x = Some c"
  shows "\<exists>f st1 st2. field_of sch (FTable t) x = Some f \<and> st_later st st1 \<and>
    generate_field n k E sch (fst f) (subfield_old_point (ps_old_schema st) old (x, f)) st1 = Inr (c, st2)"
proof (cases "fields_in_stack st t")
  case (Some r)
  then show ?thesis using assms(1,3) by (auto simp: generate_table_def)
next
  case None
  obtain ty key st1 children pk st3 where
    ty: "bt_get (cs_types sch) t = Some ty" and
    key: "key_or_rand k E old st = Inr (key, st1)" and
    loop: "foldR (generate_subfield (generate_field n k E sch) old) ([], False,
        if t \<in> recursive_types st1 then st1\<lparr>fields_in_stack := (fields_in_stack st1)(t \<mapsto> key)\<rparr> else st1)
      (st_fields ty) = Inr (children, pk, st3)" and
    "t \<in> set_member_types st3 \<longrightarrow> pk" and node: "node = StorageNode key True None None children" and
    "st' = (if t \<in> recursive_types st1 then st3\<lparr>fields_in_stack := (fields_in_stack st3)(t := None)\<rparr> else st3)"
    by (rule generate_table_run [OF assms(1) None])
  let ?st2 = "if t \<in> recursive_types st1 then st1\<lparr>fields_in_stack := (fields_in_stack st1)(t \<mapsto> key)\<rparr> else st1"
  have fr: "plan_frame st st1" using key by (auto elim: key_or_rand_cases)
  have srt: "sorted_wrt (<) (map fst (st_fields ty))" "distinct (map fst (st_fields ty))"
    using ty assms(2) by (auto simp: resolved_ok_def type_ok_def bt_ok_def strict_sorted_iff dest!: map_of_SomeD)
  have ch: "gen_chain (generate_field n k E sch) old ?st2 (st_fields ty) children st3"
    using loop foldR_gen_chain [of "[]" "st_fields ty" "generate_field n k E sch" old False ?st2 children pk st3] srt(1) by auto
  have st2: "ps_old_schema ?st2 = ps_old_schema st" "used_storage_keys st \<subseteq> used_storage_keys ?st2"
    using plan_frameD [OF fr] by auto
  have "(x, c) \<in> set children" using assms(3) node by (simp add: map_of_SomeD)
  from gen_chain_member [OF ch assms(2) this] obtain f s1 s2 where
    f: "f \<in> set (st_fields ty)" "fst f = x" "st_later ?st2 s1"
      "generate_field n k E sch (fst (snd f)) (subfield_old_point (ps_old_schema st) old f) s1 = Inr (c, s2)"
    unfolding st2 by auto
  have "field_of sch (FTable t) x = Some (snd f)"
    using ty f(1,2) srt(2) by (cases f) (simp add: field_of_def)
  moreover have "st_later st s1" using f(3) st2 by (auto simp: st_later_def)
  ultimately show ?thesis using f(2,4) by (intro exI [of _ "snd f"] exI [of _ s1] exI [of _ s2]) (cases f, simp)
qed


definition member_point :: "old_tree_point \<Rightarrow> old_tree_point" where
  "member_point p = p\<lparr>otp_ty := member_type (otp_ty p), otp_node := member_node (otp_node p)\<rparr>"

lemma generated_key:
  assumes "generate_field n k E sch ty (Some p) st = Inr (node, st')"
  shows "sn_key node = sn_key (otp_node p)"
  using assms
  by (cases n; cases ty) (auto simp: generate_table_def key_or_rand_def Let_def split: option.splits if_splits)

lemma field_child:
  assumes g: "generate_field n k E sch ty (Some p) st = Inr (node, st')" and ok: "resolved_ok (cs_types sch)"
    and p: "otp_ty p = ty" "node_conf olds rt sm stk ty (otp_node p)"
    and c: "bt_get (sn_children (member_node node)) x = Some c"
  shows "\<exists>m f st1 st2. field_of sch ty x = Some f \<and> st_later st st1 \<and>
    generate_field m k E sch (fst f) (subfield_old_point (ps_old_schema st) (Some (member_point p)) (x, f)) st1 = Inr (c, st2)"
proof -
  obtain m where n: "n = Suc m" using g by (cases n) auto
  show ?thesis
  proof (cases ty)
    case (FPrimitive y)
    then show ?thesis using g c n by (auto simp: member_node_def)
  next
    case (FTable t)
    have t: "generate_table (generate_field m k E sch) k E sch t (Some p) st = Inr (node, st')"
      using g n FTable by simp
    have "node_conf sch (recursive_types st) (set_member_types st) (fields_in_stack st) ty node"
      using walk.rc_generates [OF g ok] by (simp add: generates_def)
    then have "member_node node = node" "member_point p = p"
      using FTable p by (cases node, cases "otp_node p", auto simp: member_node_def member_point_def)+
    then show ?thesis using table_child [OF t ok, of x c] c FTable by (simp only:) blast
  next
    case (FSet y)
    obtain o' where o: "sn_set (otp_node p) = Some o'"
      using p(2) FSet by (cases "otp_node p") (auto split: option.splits)
    have "Option.bind (Option.bind (Some p) reduce_set) (\<lambda>z. validate_type z y) = Some (member_point p)"
      using o p(1) FSet by (simp add: reduce_set_def validate_type_def member_point_def member_node_def)
    then obtain inner st1 key where
      i: "generate_field m k E sch y (Some (member_point p)) st = Inr (inner, st1)"
         "node = StorageNode key False None (Some inner) []"
      using g n FSet by auto
    then have c': "bt_get (sn_children inner) x = Some c" using c by (simp add: member_node_def)
    obtain m' where m: "m = Suc m'" using i(1) by (cases m) auto
    show ?thesis
    proof (cases y)
      case (FTable t)
      have fo: "field_of sch ty x = field_of sch (FTable t) x" using FSet FTable by (simp add: field_of_def)
      show ?thesis
        using table_child [of m' k E sch t "Some (member_point p)" st inner st1 x c] i(1) m c' ok FTable
        unfolding fo by auto blast
    qed (use i(1) m c' in auto)
  qed
qed

lemma conf_child:
  assumes "node_conf olds rt sm stk ty nd" "bt_get (sn_children (member_node nd)) x = Some c" "field_of olds ty x = Some f"
  shows "\<exists>stk'. node_conf olds rt sm stk' (fst f) c"
proof -
  have table: "\<exists>stk'. node_conf olds rt sm stk' (fst f) c"
    if "node_conf olds rt sm stk (FTable t) nd" "bt_get (sn_children nd) x = Some c" "field_of olds (FTable t) x = Some f" for t nd
    using that by (cases nd) (fastforce simp: field_of_def list_all_iff split: option.splits dest: map_of_SomeD)
  obtain k fl ref st ch where nd: "nd = StorageNode k fl ref st ch" by (cases nd)
  show ?thesis
  proof (cases ty)
    case (FSet y)
    then obtain m where m: "st = Some m" "node_conf olds rt sm stk y m" using assms(1) nd by (auto split: option.splits)
    then show ?thesis using table [of _ m] assms(2,3) nd FSet
      by (cases y) (auto simp: member_node_def field_of_def)
  next
    case (FTable t)
    then show ?thesis using table [of t nd] assms nd by (auto simp: member_node_def)
  qed (use assms(3) in \<open>simp add: field_of_def\<close>)
qed

lemma subfield_same_type:
  assumes "bt_get (sn_children (member_node (otp_node p))) x = Some c" "field_of olds (otp_ty p) x = Some f" "fst f = fst g"
  shows "\<exists>q. subfield_old_point olds (Some (member_point p)) (x, g) = Some q \<and> otp_ty q = fst g \<and> otp_node q = c"
proof -
  obtain t s where "member_type (otp_ty p) = FTable t" "bt_get (cs_types olds) t = Some s" "bt_get (st_fields s) x = Some f"
    using assms(2) by (auto simp: field_of_def bind_eq_Some_conv split: field_type.splits)
  then show ?thesis
    using assms(1,3) by (cases f)
      (simp add: subfield_old_point_def resolve_subfield_def altnames_def validate_type_def member_point_def)
qed

lemma migrate_path:
  assumes "generate_field n k E sch ty (Some p) st = Inr (node, st')" "resolved_ok (cs_types sch)"
    and "otp_ty p = ty" "node_conf olds rt sm stk ty (otp_node p)" "ps_old_schema st = olds"
    and "same_types olds sch ty path" "node_at (otp_node p) path = Some o'" "node_at node path = Some m'"
  shows "\<exists>n' q stA stB stk'. generate_field n' k E sch (otp_ty q) (Some q) stA = Inr (m', stB) \<and> otp_node q = o' \<and>
    node_conf olds rt sm stk' (otp_ty q) o' \<and> type_at sch ty path = Some (otp_ty q) \<and> st_later st stA"
  using assms
proof (induction path arbitrary: n ty p st node st' stk)
  case Nil
  then show ?case by (auto simp: st_later_def)
next
  case (Cons x path)
  from Cons.prems(7,8) obtain oc c where
    oc: "bt_get (sn_children (member_node (otp_node p))) x = Some oc" "node_at oc path = Some o'" and
    c: "bt_get (sn_children (member_node node)) x = Some c" "node_at c path = Some m'"
    by (auto simp: bind_eq_Some_conv)
  from Cons.prems(6) obtain a b where ab: "field_of olds ty x = Some a" "field_of sch ty x = Some b" "fst a = fst b"
    "same_types olds sch (fst b) path"
    by (auto split: option.splits)
  from field_child [OF Cons.prems(1,2,3,4) c(1)] ab(2) Cons.prems(5) obtain m st1 st2 where
    g: "generate_field m k E sch (fst b) (subfield_old_point olds (Some (member_point p)) (x, b)) st1 = Inr (c, st2)"
      "st_later st st1"
    by auto
  obtain q where q: "subfield_old_point olds (Some (member_point p)) (x, b) = Some q" "otp_ty q = fst b" "otp_node q = oc"
    using subfield_same_type [OF oc(1) _ ab(3)] ab(1) Cons.prems(3) by auto
  obtain stk' where "node_conf olds rt sm stk' (fst b) (otp_node q)"
    using conf_child [OF Cons.prems(4) oc(1) ab(1)] ab(3) q(3) by auto
  from Cons.IH [OF g(1) [unfolded q(1)] Cons.prems(2) q(2) this _ ab(4)] oc(2) c(2) q(3) g(2) Cons.prems(5)
  show ?case using ab(2) by (fastforce simp: st_later_def)
qed


lemma foldR_export_other:
  "foldR (generate_export n k E sch old_plan) (acc, st) xs = Inr (acc', st') \<Longrightarrow> e \<notin> fst ` set xs \<Longrightarrow>
    bt_get acc' e = bt_get acc e"
proof (induction xs arbitrary: acc st)
  case (Cons x xs)
  from Cons.prems(1) obtain y st1 where
    "foldR (generate_export n k E sch old_plan) (bt_insert (fst x) y acc, st1) xs = Inr (acc', st')"
    by (auto simp: generate_export_def [of n k E sch old_plan "(acc, st)"])
  then show ?case using Cons.IH Cons.prems(2) by (auto simp: bt_get_insert)
qed simp

lemma generate_export_run:
  assumes "foldR (generate_export n k E sch old_plan) (acc, st) xs = Inr (acc', st')" "resolved_ok (cs_types sch)"
    and "(e, ty) \<in> set xs" "distinct (map fst xs)" "bt_get acc' e = Some node"
  shows "\<exists>st1 st2. st_later st st1 \<and>
    generate_field n k E sch ty (export_old_point old_plan (ps_old_schema st) e ty) st1 = Inr (node, st2)"
  using assms
proof (induction xs arbitrary: acc st)
  case (Cons x xs)
  let ?old = "export_old_point old_plan (ps_old_schema st) (fst x) (snd x)"
  from Cons.prems(1) obtain y st1 where
    g: "generate_field n k E sch (snd x) ?old st = Inr (y, st1)"
       "foldR (generate_export n k E sch old_plan) (bt_insert (fst x) y acc, st1) xs = Inr (acc', st')"
    by (auto simp: generate_export_def [of n k E sch old_plan "(acc, st)"])
  have l: "st_later st st1" using walk.rc_generates [OF g(1) Cons.prems(2)] by (rule generates_later)
  show ?case
  proof (cases "x = (e, ty)")
    case True
    have "bt_get acc' e = Some y"
      using g(2) True Cons.prems(4) foldR_export_other [of n k E sch old_plan "bt_insert (fst x) y acc" st1 xs acc' st' e]
      by (auto simp: bt_get_insert)
    then show ?thesis using Cons.prems(5) g(1) True by (intro exI [of _ st] exI [of _ st1]) (simp add: st_later_def)
  next
    case False
    then show ?thesis using Cons.IH [OF g(2) Cons.prems(2)] Cons.prems(3,4,5) l by (auto simp: st_later_def)
  qed
qed simp

lemma plan_conf_node:
  assumes "plan_conf sch rt sm plan" "bt_get plan e = Some x" "bt_get (cs_exports sch) e = Some ty" "bt_ok (cs_exports sch)"
  shows "node_conf sch rt sm Map.empty ty x"
proof -
  have "list_all (\<lambda>c. case bt_get (cs_exports sch) (fst c) of None \<Rightarrow> False | Some f \<Rightarrow> node_conf sch rt sm Map.empty f (snd c)) plan"
    using assms(1,4) by (intro list_all2_lookup) (auto simp: plan_conf_def bt_ok_distinct)
  then show ?thesis using assms(2,3) by (auto simp: list_all_iff dest!: map_of_SomeD [of plan])
qed

lemma migrated_node:
  assumes "generate_plan_for_schema n k E rng old_plan olds sch = Inr plan" "schema_ok sch"
    and "plan_conf olds rt sm old_plan"
    and "bt_get (cs_exports olds) e = Some ty" "bt_get (cs_exports sch) e = Some ty"
    and "same_types olds sch ty path"
    and "Option.bind (bt_get old_plan e) (\<lambda>x. node_at x path) = Some old_node"
    and "Option.bind (bt_get plan e) (\<lambda>x. node_at x path) = Some new_node" "schema_ok olds"
  shows "\<exists>n' q stA stB stk'. generate_field n' k E sch (otp_ty q) (Some q) stA = Inr (new_node, stB) \<and> otp_node q = old_node \<and>
    node_conf olds rt sm stk' (otp_ty q) old_node \<and> type_at sch ty path = Some (otp_ty q) \<and> ps_old_schema stA = olds \<and> set (plan_keys old_plan) \<subseteq> used_storage_keys stA"
proof -
  have ok: "resolved_ok (cs_types sch)" "bt_ok (cs_exports sch)" using assms(2) by (auto simp: schema_ok_def)
  from assms(1) obtain sp st' where
    run: "foldR (generate_export n k E sch old_plan) ([], initial_plan_state rng old_plan olds sp) (cs_exports sch) = Inr (plan, st')"
    by (auto simp: generate_plan_for_schema_def)
  let ?st = "initial_plan_state rng old_plan olds sp"
  have st: "ps_old_schema ?st = olds" "set (plan_keys old_plan) \<subseteq> used_storage_keys ?st"
    by (simp_all add: initial_plan_state_def collect_all_keys)
  from assms(7,8) obtain x y where x: "bt_get old_plan e = Some x" "node_at x path = Some old_node"
    and y: "bt_get plan e = Some y" "node_at y path = Some new_node"
    by (auto simp: bind_eq_Some_conv)
  let ?p = "\<lparr>otp_name = e, otp_ty = ty, otp_annotations = [], otp_node = x\<rparr>"
  have p: "export_old_point old_plan olds e ty = Some ?p"
    using x(1) assms(4) by (simp add: export_old_point_def validate_type_def)
  obtain st1 st2 where g: "st_later ?st st1" "generate_field n k E sch ty (Some ?p) st1 = Inr (y, st2)"
    using generate_export_run [OF run ok(1) _ _ y(1), of ty] assms(5) ok(2) p st(1)
    by (auto simp: bt_ok_distinct dest: map_of_SomeD)
  have "node_conf olds rt sm Map.empty ty (otp_node ?p)"
    using plan_conf_node [OF assms(3) x(1) assms(4)] assms(9) by (simp add: schema_ok_def)
  from migrate_path [OF g(2) ok(1) _ this _ assms(6) _ y(2)] x(2) g(1) st
  show ?thesis by (fastforce simp: st_later_def)
qed

lemma v1_to_v3:
  "generate_plan_for_schema (Suc (Suc (Suc (Suc 0)))) (Suc (Suc (Suc 0))) sample_externs sample_rng plan_v1 schema_v1 schema_v3 =
     Inr [(''a'', StorageNode (sample_key 0) True None None
       [(''x'', StorageNode (sample_key 1) False None None []), (''z'', StorageNode (sample_key 2) False None None [])])]"
  by (simp add: plan_eval schema_defs sample_key_def)

lemma plan_v1_conf: "plan_conf schema_v1 {} {} plan_v1"
  by (simp add: plan_conf_def schema_defs)

text \<open>
  C13. Migration keeps data reachable: where the old and the new schema give an export and
  every field on a path the same type, the node at that path keeps its
  storage key in the new plan.
\<close>

theorem migration_keeps_keys:
  assumes "generate_plan_for_schema n k E rng old_plan olds sch = Inr plan" "schema_ok sch"
    and "plan_conf olds rt sm old_plan"
    and "bt_get (cs_exports olds) e = Some ty" "bt_get (cs_exports sch) e = Some ty"
    and "same_types olds sch ty path"
    and "Option.bind (bt_get old_plan e) (\<lambda>x. node_at x path) = Some old_node"
    and "Option.bind (bt_get plan e) (\<lambda>x. node_at x path) = Some new_node" "schema_ok olds"
  shows "sn_key new_node = sn_key old_node"
proof -
  obtain n' q stA stB where "generate_field n' k E sch (otp_ty q) (Some q) stA = Inr (new_node, stB)" "otp_node q = old_node"
    using migrated_node [OF assms] by blast
  then show ?thesis using generated_key by blast
qed


theorem migration_keeps_keys_witness:
  "\<exists>plan old_node new_node. generate_plan_for_schema (Suc (Suc (Suc (Suc 0)))) (Suc (Suc (Suc 0))) sample_externs sample_rng plan_v1 schema_v1 schema_v3 = Inr plan \<and>
    Option.bind (bt_get plan_v1 ''a'') (\<lambda>x. node_at x [''x'']) = Some old_node \<and>
    Option.bind (bt_get plan ''a'') (\<lambda>x. node_at x [''x'']) = Some new_node \<and> sn_key new_node = sn_key old_node"
  using migration_keeps_keys [OF v1_to_v3 sample_schemas_ok(3) plan_v1_conf, of "''a''" "FTable ''A<>''" "[''x'']"] sample_schemas_ok(1) v1_to_v3
  by (simp add: schema_defs field_of_def member_node_def)

text \<open>
  C27. A field that is new at such a path, under its own name and its \<open>rename_from\<close> names, gets
  keys that the old plan does not use, pairwise distinct in its whole subtree.
\<close>

theorem migration_new_fields:
  assumes "generate_plan_for_schema n k E rng old_plan olds sch = Inr plan" "schema_ok sch"
    and "plan_conf olds rt sm old_plan"
    and "bt_get (cs_exports olds) e = Some ty" "bt_get (cs_exports sch) e = Some ty"
    and "same_types olds sch ty path"
    and "Option.bind (bt_get old_plan e) (\<lambda>x. node_at x path) = Some old_node"
    and "Option.bind (bt_get plan e) (\<lambda>x. node_at x path) = Some new_node" "schema_ok olds"
    and c: "bt_get (sn_children (member_node new_node)) x = Some c"
    and f: "Option.bind (type_at sch ty path) (\<lambda>t. field_of sch t x) = Some f"
    and new: "\<forall>a \<in> set (altnames x (snd f)). bt_get (sn_children (member_node old_node)) a = None"
  shows "distinct (node_keys c) \<and> set (node_keys c) \<inter> set (plan_keys old_plan) = {}"
proof -
  obtain n' q stA stB stk' where
    g: "generate_field n' k E sch (otp_ty q) (Some q) stA = Inr (new_node, stB)" and
    q: "otp_node q = old_node" "node_conf olds rt sm stk' (otp_ty q) (otp_node q)" "type_at sch ty path = Some (otp_ty q)"
      "ps_old_schema stA = olds" "set (plan_keys old_plan) \<subseteq> used_storage_keys stA"
    using migrated_node [OF assms(1-9)] by blast
  have ok: "resolved_ok (cs_types sch)" using assms(2) by (simp add: schema_ok_def)
  obtain m st1 st2 where
    m: "generate_field m k E sch (fst f) (subfield_old_point olds (Some (member_point q)) (x, f)) st1 = Inr (c, st2)"
      "st_later stA st1"
    using field_child [OF g ok refl q(2) c] f q(3,4) by auto
  have "find_map (\<lambda>x. map_option (Pair x) (bt_get (sn_children (member_node old_node)) x)) (altnames x (snd f)) = None"
    using new by (auto simp: find_map_None)
  then have "subfield_old_point olds (Some (member_point q)) (x, f) = None"
    using q(1) by (simp add: subfield_old_point_def resolve_subfield_def member_point_def)
  then have "fresh_between st1 st2 (node_keys c)"
    using walk.rc_generates [OF m(1) ok] by (simp add: generates_def)
  then show ?thesis using m(2) q(5) by (auto simp: fresh_between_def st_later_def)
qed

theorem migration_new_fields_witness:
  "\<exists>plan c. generate_plan_for_schema (Suc (Suc (Suc (Suc 0)))) (Suc (Suc (Suc 0))) sample_externs sample_rng plan_v1 schema_v1 schema_v3 = Inr plan \<and>
    Option.bind (bt_get plan ''a'') (\<lambda>x. node_at x [''z'']) = Some c \<and> set (node_keys c) \<inter> set (plan_keys plan_v1) = {}"
  using migration_new_fields [OF v1_to_v3 sample_schemas_ok(3) plan_v1_conf, of "''a''" "FTable ''A<>''" "[]" _ _ "''z''"
      "StorageNode (sample_key 2) False None None []"] sample_schemas_ok(1) v1_to_v3
  by (simp add: schema_defs field_of_def member_node_def altnames_def)

section \<open>Renamed fields\<close>


end
