(* ===== verification/Path_Keys.thy ===== *)
theory Path_Keys
  imports Path_Walker Planner_Migration
begin

text \<open>
  What walking a plan guarantees. \<open>located\<close> names the positions of a plan with their types
  and the tables open there; a walker that stands on a position can take every step the
  schema allows. The keys it makes are unique to the path, and the keys below a set
  member form the range that the executor deletes with it.
\<close>

section \<open>Nodes of a plan\<close>

fun all_nodes :: "'k storage_node \<Rightarrow> 'k storage_node list" where
  "all_nodes (StorageNode k fl ref st ch) = StorageNode k fl ref st ch #
     (case st of None \<Rightarrow> [] | Some x \<Rightarrow> all_nodes x) @ concat (map (\<lambda>c. all_nodes (snd c)) ch)"

definition plan_nodes :: "'k storage_plan \<Rightarrow> 'k storage_node list" where
  "plan_nodes p = concat (map (\<lambda>c. all_nodes (snd c)) p)"

lemma keys_of_all_nodes: "map sn_key (all_nodes n) = node_keys n"
proof (induction n rule: all_nodes.induct)
  case (1 k fl ref st ch)
  have "map sn_key (concat (map (\<lambda>c. all_nodes (snd c)) ch)) = concat (map (\<lambda>c. node_keys (snd c)) ch)"
    using 1(2) by (simp add: map_concat comp_def cong: map_cong)
  with 1(1) show ?case by (simp split: option.split)
qed

lemma keys_of_plan_nodes: "map sn_key (plan_nodes p) = plan_keys p"
  by (simp add: plan_nodes_def plan_keys_def map_concat comp_def keys_of_all_nodes)

lemma all_nodes_self [simp]: "n \<in> set (all_nodes n)"
  by (cases n) simp

lemma all_nodes_set: "m \<in> set (all_nodes n) \<Longrightarrow> sn_set m = Some x \<Longrightarrow> x \<in> set (all_nodes n)"
proof (induction n rule: all_nodes.induct)
  case (1 k fl ref st ch)
  then show ?case by (cases st) fastforce+
qed

lemma all_nodes_child: "m \<in> set (all_nodes n) \<Longrightarrow> (f, c) \<in> set (sn_children m) \<Longrightarrow> c \<in> set (all_nodes n)"
proof (induction n rule: all_nodes.induct)
  case (1 k fl ref st ch)
  then show ?case by (auto split: option.splits) (metis all_nodes_self snd_conv)+
qed

lemma plan_nodes_set: "m \<in> set (plan_nodes p) \<Longrightarrow> sn_set m = Some x \<Longrightarrow> x \<in> set (plan_nodes p)"
  by (auto simp: plan_nodes_def dest: all_nodes_set)

lemma plan_nodes_child: "m \<in> set (plan_nodes p) \<Longrightarrow> bt_get (sn_children m) f = Some c \<Longrightarrow> c \<in> set (plan_nodes p)"
  by (auto simp: plan_nodes_def dest!: map_of_SomeD dest: all_nodes_child)

lemma plan_nodes_unique:
  "distinct (plan_keys p) \<Longrightarrow> m \<in> set (plan_nodes p) \<Longrightarrow> n \<in> set (plan_nodes p) \<Longrightarrow> sn_key m = sn_key n \<Longrightarrow> m = n"
  unfolding keys_of_plan_nodes [symmetric] by (auto simp: distinct_map dest: inj_onD)

section \<open>Positions in a plan\<close>

inductive located ::
  "compiled_schema \<Rightarrow> string set \<Rightarrow> 'k storage_plan \<Rightarrow> field_type \<Rightarrow> (string \<rightharpoonup> 'k) \<Rightarrow> 'k storage_node \<Rightarrow> bool"
  for sch rt plan where
  loc_export: "bt_get plan e = Some n \<Longrightarrow> bt_get (cs_exports sch) e = Some ty \<Longrightarrow>
    located sch rt plan ty Map.empty n"
| loc_member: "located sch rt plan (FSet x) stk n \<Longrightarrow> sn_set n = Some m \<Longrightarrow> located sch rt plan x stk m"
| loc_child: "located sch rt plan (FTable t) stk n \<Longrightarrow> stk t = None \<Longrightarrow> field_of sch (FTable t) f = Some g \<Longrightarrow>
    bt_get (sn_children n) f = Some c \<Longrightarrow>
    located sch rt plan (fst g) (if t \<in> rt then stk(t \<mapsto> sn_key n) else stk) c"

lemma located_node: "located sch rt plan ty stk n \<Longrightarrow> n \<in> set (plan_nodes plan)"
proof (induction rule: located.induct)
  case (loc_export e n ty)
  then show ?case by (force simp: plan_nodes_def dest: map_of_SomeD)
qed (auto intro: plan_nodes_set plan_nodes_child)

lemma located_closed: "located sch rt plan ty stk n \<Longrightarrow> schema_ok sch \<Longrightarrow> ft_closed (bt_keys (cs_types sch)) ty"
proof (induction rule: located.induct)
  case (loc_export e n ty)
  then show ?case by (force simp: schema_ok_def dest: map_of_SomeD)
next
  case (loc_member x stk n m)
  then show ?case using ft_closed_FSet by fastforce
next
  case (loc_child t stk n f g c)
  then obtain s where "bt_get (cs_types sch) t = Some s" "bt_get (st_fields s) f = Some g"
    by (auto simp: field_of_def bind_eq_Some_conv)
  then show ?case using field_closed [of sch t s "(f, g)"] loc_child.prems by (auto simp: schema_ok_def dest: map_of_SomeD)
qed

lemma conf_table_child:
  assumes "node_conf sch rt sm stk (FTable t) n" "stk t = None" "field_of sch (FTable t) f = Some g"
  shows "\<exists>c. bt_get (sn_children n) f = Some c \<and>
    node_conf sch rt sm (if t \<in> rt then stk(t \<mapsto> sn_key n) else stk) (fst g) c"
proof -
  obtain k fl ref st ch where n: "n = StorageNode k fl ref st ch" by (cases n)
  obtain s where s: "bt_get (cs_types sch) t = Some s" "bt_get (st_fields s) f = Some g"
    using assms(3) by (auto simp: field_of_def bind_eq_Some_conv)
  have ch: "map fst ch = map fst (st_fields s)"
    "\<forall>c \<in> set ch. case bt_get (st_fields s) (fst c) of None \<Rightarrow> False
       | Some h \<Rightarrow> node_conf sch rt sm (if t \<in> rt then stk(t \<mapsto> k) else stk) (fst h) (snd c)"
    using assms(1,2) n s(1) by (auto simp: list_all_iff)
  have "f \<in> set (map fst ch)" using s(2) unfolding ch(1) by (force dest: map_of_SomeD)
  then obtain c where "bt_get ch f = Some c" by (metis domD dom_map_of_conv_image_fst list.set_map)
  then show ?thesis using ch(2) s(2) n by (force dest: map_of_SomeD)
qed

lemma located_conf:
  "located sch rt plan ty stk n \<Longrightarrow> plan_conf sch rt sm plan \<Longrightarrow> schema_ok sch \<Longrightarrow> node_conf sch rt sm stk ty n"
proof (induction rule: located.induct)
  case (loc_export e n ty)
  then show ?case by (auto intro: plan_conf_node simp: schema_ok_def)
next
  case (loc_member x stk n m)
  then show ?case by (cases n) auto
next
  case (loc_child t stk n f g c)
  then show ?case using conf_table_child [of sch rt sm stk t n f g] by auto
qed

lemma located_stack:
  "located sch rt plan ty stk n \<Longrightarrow> stk t = Some r \<Longrightarrow>
    \<exists>stk' m. located sch rt plan (FTable t) stk' m \<and> stk' t = None \<and> sn_key m = r \<and> stk' \<subseteq>\<^sub>m stk"
proof (induction rule: located.induct)
  case (loc_child u stk n f g c)
  show ?case
  proof (cases "u \<in> rt \<and> t = u")
    case True
    then show ?thesis using loc_child by (intro exI [of _ stk] exI [of _ n]) (auto simp: map_le_def)
  next
    case False
    then have "stk t = Some r" using loc_child.prems by (auto split: if_splits)
    then obtain stk' m where *: "located sch rt plan (FTable t) stk' m" "stk' t = None" "sn_key m = r" "stk' \<subseteq>\<^sub>m stk"
      using loc_child.IH by blast
    moreover have "stk \<subseteq>\<^sub>m (if u \<in> rt then stk(u \<mapsto> sn_key n) else stk)"
      using loc_child.hyps(2) by (auto simp: map_le_def)
    ultimately show ?thesis using map_le_trans by blast
  qed
qed auto


lemma conf_reference:
  "node_conf sch rt sm stk ty n \<Longrightarrow> subspace_reference n = (case ty of FTable t \<Rightarrow> stk t | _ \<Rightarrow> None)"
  by (cases n; cases ty) (auto split: option.splits)

lemma conf_flattened: "node_conf sch rt sm stk ty n \<Longrightarrow> sn_flattened n \<Longrightarrow> \<exists>t. ty = FTable t"
  by (cases n; cases ty) auto

lemma conf_set: "node_conf sch rt sm stk ty n \<Longrightarrow> sn_set n \<noteq> None \<longleftrightarrow> (\<exists>x. ty = FSet x)"
  by (cases n; cases ty) (auto split: option.splits)

section \<open>Walkers that follow the schema\<close>

fun chain :: "path_walker \<Rightarrow> storage_key storage_node list" where
  "chain (PathWalker nd key link depth fl im seg) = nd # (case link of None \<Rightarrow> [] | Some x \<Rightarrow> chain x)"

lemma find_reference_chain: "find_reference w r = find (\<lambda>n. sn_key n = r) (chain w)"
  by (induction w r rule: find_reference.induct) (simp split: option.split)

lemma find_SomeD: "find P xs = Some x \<Longrightarrow> P x \<and> x \<in> set xs"
  by (induction xs) (auto split: if_splits)

lemma chain_self [simp]: "pw_node w \<in> set (chain w)"
  by (cases w) simp

definition walker_at ::
  "compiled_schema \<Rightarrow> string set \<Rightarrow> storage_key storage_plan \<Rightarrow> path_walker \<Rightarrow> field_type \<Rightarrow> bool" where
  "walker_at sch rt plan w ty \<longleftrightarrow> (\<exists>stk. located sch rt plan ty stk (pw_node w) \<and>
     (case ty of FTable t \<Rightarrow> stk t = None | _ \<Rightarrow> \<not> should_flatten w) \<and>
     set (chain w) \<subseteq> set (plan_nodes plan) \<and> ran stk \<subseteq> sn_key ` set (chain w))"

lemma walker_atI:
  assumes "located sch rt plan ty stk (pw_node w)" "\<And>t. ty = FTable t \<Longrightarrow> stk t = None"
    and "should_flatten w \<Longrightarrow> \<exists>t. ty = FTable t"
    and "set (chain w) \<subseteq> set (plan_nodes plan)" "ran stk \<subseteq> sn_key ` set (chain w)"
  shows "walker_at sch rt plan w ty"
  unfolding walker_at_def using assms by (intro exI [of _ stk] conjI) (auto split: field_type.split)

lemma from_export_at:
  assumes "plan_conf sch rt sm plan" "schema_ok sch" "bt_get (cs_exports sch) e = Some ty"
  shows "\<exists>w. from_export plan e = Inr w \<and> walker_at sch rt plan w ty \<and> pw_depth w = 1"
proof -
  have "e \<in> set (map fst plan)" using assms(1,3) by (force simp: plan_conf_def dest: map_of_SomeD)
  then obtain n where n: "bt_get plan e = Some n" by (metis domD dom_map_of_conv_image_fst list.set_map)
  have loc: "located sch rt plan ty Map.empty n" by (rule loc_export [OF n assms(3)])
  have "walker_at sch rt plan (PathWalker n (sn_key n) None 1 (sn_flattened n) False (Some e)) ty"
    by (rule walker_atI [where stk = Map.empty])
      (use loc located_node [OF loc] conf_flattened [OF located_conf [OF loc assms(1,2)]] in auto)
  then show ?thesis using n by (simp add: from_export_def)
qed

lemma enter_field_at:
  assumes plan: "plan_conf sch rt sm plan" "schema_ok sch" "distinct (plan_keys plan)"
    and w: "walker_at sch rt plan w (FTable t)" and f: "field_of sch (FTable t) f = Some g" and d: "pw_depth w < MAX_DEPTH"
  shows "\<exists>w'. enter_field w f = Inr w' \<and> walker_at sch rt plan w' (fst g) \<and> pw_depth w' = pw_depth w + 1"
proof -
  obtain stk where stk: "located sch rt plan (FTable t) stk (pw_node w)" "stk t = None"
    "set (chain w) \<subseteq> set (plan_nodes plan)" "ran stk \<subseteq> sn_key ` set (chain w)"
    using w by (auto simp: walker_at_def)
  define stk1 where "stk1 = (if t \<in> rt then stk(t \<mapsto> sn_key (pw_node w)) else stk)"
  note conf = located_conf [OF stk(1) plan(1,2)]
  obtain c where c: "bt_get (sn_children (pw_node w)) f = Some c" "node_conf sch rt sm stk1 (fst g) c"
    using conf_table_child [OF conf stk(2) f] unfolding stk1_def by blast
  have loc: "located sch rt plan (fst g) stk1 c" using loc_child [OF stk(1,2) f c(1)] by (simp add: stk1_def)
  have set: "sn_set (pw_node w) = None" using conf_set [OF conf] by simp
  have ran: "ran stk1 \<subseteq> sn_key ` set (chain w)"
    using stk(4) by (auto simp: stk1_def ran_def split: if_splits)
  have cn: "c \<in> set (plan_nodes plan)" using located_node [OF loc] .
  note ref = conf_reference [OF c(2)]
  show ?thesis
  proof (cases "subspace_reference c")
    case None
    let ?w = "PathWalker c (sn_key c) (Some w) (pw_depth w + 1) (sn_flattened c) False (Some f)"
    have "walker_at sch rt plan ?w (fst g)"
    proof (rule walker_atI [where stk = stk1])
      show "stk1 u = None" if "fst g = FTable u" for u using that ref None by simp
      show "set (chain ?w) \<subseteq> set (plan_nodes plan)" using cn stk(3) by simp
      show "ran stk1 \<subseteq> sn_key ` set (chain ?w)" using ran by (simp add: subset_insertI2)
    qed (use loc conf_flattened [OF c(2)] in simp_all)
    then show ?thesis using set c(1) None d by (simp add: enter_field_def check_and_add_depth_def)
  next
    case (Some r)
    then obtain u where u: "fst g = FTable u" "stk1 u = Some r"
      using ref by (auto split: field_type.splits)
    then have "r \<in> sn_key ` set (chain w)" using ran by (auto simp: ran_def)
    then obtain n where n: "find (\<lambda>n. sn_key n = r) (chain w) = Some n"
      by (metis (mono_tags, lifting) find_None_iff imageE not_None_eq)
    then have nk: "sn_key n = r" "n \<in> set (chain w)" using find_SomeD by fastforce+
    obtain stk' m where m: "located sch rt plan (FTable u) stk' m" "stk' u = None" "sn_key m = r" "stk' \<subseteq>\<^sub>m stk1"
      using located_stack [OF loc u(2)] by blast
    have mn: "m = n" using plan_nodes_unique [OF plan(3)] located_node [OF m(1)] nk stk(3) m(3) by auto
    have "ran stk' \<subseteq> ran stk1" using m(4) by (force simp: ran_def map_le_def)
    then have "walker_at sch rt plan (PathWalker n (sn_key c) (Some w) (pw_depth w + 1) False False (Some f)) (fst g)"
      using m(1,2) mn stk(3) nk(2) ran u(1) by (intro walker_atI [where stk = stk']) auto
    then show ?thesis using set c(1) Some d n
      by (simp add: enter_field_def check_and_add_depth_def find_reference_chain)
  qed
qed

definition no_reference_members :: "'k storage_plan \<Rightarrow> bool" where
  "no_reference_members plan \<longleftrightarrow>
     (\<forall>n \<in> set (plan_nodes plan). case sn_set n of None \<Rightarrow> True | Some m \<Rightarrow> subspace_reference m = None)"

lemma enter_set_at:
  assumes plan: "plan_conf sch rt sm plan" "schema_ok sch" "no_reference_members plan"
    and w: "walker_at sch rt plan w (FSet x)" and d: "pw_depth w + 1 < MAX_DEPTH"
  shows "\<exists>w'. enter_set_raw w pk = Inr w' \<and> walker_at sch rt plan w' x \<and> pw_depth w' = pw_depth w + 2"
proof -
  obtain stk where stk: "located sch rt plan (FSet x) stk (pw_node w)"
    "set (chain w) \<subseteq> set (plan_nodes plan)" "ran stk \<subseteq> sn_key ` set (chain w)"
    using w by (auto simp: walker_at_def)
  obtain m where m: "sn_set (pw_node w) = Some m"
    using conf_set [OF located_conf [OF stk(1) plan(1,2)]] by auto
  have loc: "located sch rt plan x stk m" by (rule loc_member [OF stk(1) m])
  obtain t where t: "x = FTable t" using located_closed [OF stk(1) plan(2)] ft_closed_FSet by blast
  have "stk t = None"
    using conf_reference [OF located_conf [OF loc plan(1,2)]] t plan(3) m located_node [OF stk(1)]
    by (fastforce simp: no_reference_members_def)
  then have "walker_at sch rt plan (PathWalker m (sn_key m) (Some (PathWalker m (0 # pk @ [0]) (Some w)
      (Suc (pw_depth w)) False True None)) (pw_depth w + 2) True False None) x"
    using loc t stk(2,3) located_node [OF loc] by (intro walker_atI [where stk = stk]) auto
  then show ?thesis using m d by (simp add: enter_set_raw_def check_and_add_depth_def Let_def)
qed

text \<open>The type that a path of steps has in the schema.\<close>

fun step_type :: "compiled_schema \<Rightarrow> field_type \<Rightarrow> path_step \<Rightarrow> field_type option" where
  "step_type sch (FTable t) (Field f) = map_option fst (field_of sch (FTable t) f)"
| "step_type sch (FSet x) (Member pk) = Some x"
| "step_type sch _ _ = None"

fun path_type :: "compiled_schema \<Rightarrow> field_type \<Rightarrow> path_step list \<Rightarrow> field_type option" where
  "path_type sch ty [] = Some ty"
| "path_type sch ty (s # ss) = Option.bind (step_type sch ty s) (\<lambda>ty'. path_type sch ty' ss)"

fun step_depth :: "path_step \<Rightarrow> nat" where
  "step_depth (Field _) = 1"
| "step_depth (Member _) = 2"

lemma walk_at:
  assumes plan: "plan_conf sch rt sm plan" "schema_ok sch" "distinct (plan_keys plan)" "no_reference_members plan"
  shows "walker_at sch rt plan w ty \<Longrightarrow> path_type sch ty steps = Some ty' \<Longrightarrow>
    pw_depth w + sum_list (map step_depth steps) \<le> MAX_DEPTH \<Longrightarrow>
    \<exists>w'. foldR step_walker w steps = Inr w' \<and> walker_at sch rt plan w' ty' \<and>
      pw_depth w' = pw_depth w + sum_list (map step_depth steps)"
proof (induction steps arbitrary: w ty)
  case (Cons s steps)
  from Cons.prems(2) obtain ty1 where ty1: "step_type sch ty s = Some ty1" "path_type sch ty1 steps = Some ty'"
    by (auto simp: bind_eq_Some_conv)
  have "\<exists>w1. step_walker w s = Inr w1 \<and> walker_at sch rt plan w1 ty1 \<and> pw_depth w1 = pw_depth w + step_depth s"
  proof (cases s)
    case (Field f)
    then obtain t g where "ty = FTable t" "field_of sch (FTable t) f = Some g" "ty1 = fst g"
      using ty1(1) by (cases ty) auto
    then show ?thesis using enter_field_at [OF plan(1,2,3), of w t f g] Cons.prems(1,3) Field by simp
  next
    case (Member pk)
    then have "ty = FSet ty1" using ty1(1) by (cases ty) auto
    then show ?thesis using enter_set_at [OF plan(1,2,4), of w ty1 pk] Cons.prems(1,3) Member by simp
  qed
  then show ?case using Cons.IH ty1(2) Cons.prems(3) by force
qed simp

text \<open>\<^verbatim>\<open>type L { next: L, v: int64 } export L l;\<close> and its plan.\<close>

definition list_compiled :: compiled_schema where
  "list_compiled = \<lparr>cs_types = [(''L<>'', \<lparr>st_name = ''L<>'', st_fields =
       [(''next'', FTable ''L<>'', []), (''v'', FPrimitive Int64T, [])]\<rparr>)],
     cs_exports = [(''l'', FTable ''L<>'')]\<rparr>"

definition list_plan :: "storage_key storage_plan" where
  "list_plan = [(''l'', StorageNode (sample_key 0) True None None
     [(''next'', StorageNode (sample_key 1) False (Some (sample_key 0)) None []),
      (''v'', StorageNode (sample_key 2) False None None [])])]"

lemma list_compiled_ok: "schema_ok list_compiled"
  by (simp add: schema_ok_def resolved_ok_def type_ok_def field_ok_def bt_ok_def bt_keys_def
      list_compiled_def primary_key_count_def is_primary_def has_index_annotation_def)

text \<open>
  C17. Walking follows the schema: on a plan that conforms to its schema, has distinct keys and no set whose
  member refers back to an enclosing table, every path that the schema types can be
  walked within the depth limit, through recursive references too, and ends on a node
  of the type the schema gives the path.
\<close>

theorem walk_follows_schema:
  assumes "plan_conf sch rt sm plan" "schema_ok sch" "distinct (plan_keys plan)" "no_reference_members plan"
    and "bt_get (cs_exports sch) e = Some ty" "path_type sch ty steps = Some ty'"
    and "1 + sum_list (map step_depth steps) \<le> MAX_DEPTH"
  shows "\<exists>w stk. walk_path plan e steps = Inr w \<and> located sch rt plan ty' stk (pw_node w)"
proof -
  obtain w where "from_export plan e = Inr w" "walker_at sch rt plan w ty" "pw_depth w = 1"
    using from_export_at [OF assms(1,2,5)] by blast
  then show ?thesis
    using walk_at [OF assms(1-4) _ assms(6)] assms(7) by (fastforce simp: walk_path_def walker_at_def)
qed

theorem walk_follows_schema_witness:
  "\<exists>w stk. walk_path list_plan ''l'' [Field ''next'', Field ''next'', Field ''v''] = Inr w \<and>
    located list_compiled {''L<>''} list_plan (FPrimitive Int64T) stk (pw_node w)"
  by (rule walk_follows_schema [where sm = "{}", OF _ list_compiled_ok, where ty = "FTable ''L<>''"])
    (simp_all add: list_compiled_def list_plan_def plan_conf_def has_primary_def plan_keys_def sample_key_def
      no_reference_members_def plan_nodes_def field_of_def MAX_DEPTH_def)


section \<open>Keys of walkers\<close>

definition base_key :: "path_walker \<Rightarrow> bytes" where
  "base_key w = concat (rev (up_components (Some w)))"

definition up_key :: "path_walker option \<Rightarrow> bytes" where
  "up_key l = (case l of None \<Rightarrow> [] | Some w \<Rightarrow> base_key w)"

lemma generate_key_up: "generate_key w = up_key (pw_link w) @ pw_key w"
  by (cases w; cases "pw_link w") (auto simp: generate_key_def generate_key_raw_def up_key_def base_key_def)

lemma base_key_up: "base_key w = up_key (pw_link w) @ (if should_flatten w then [] else pw_key w)"
  by (cases w; cases "pw_link w") (auto simp: base_key_def up_key_def)

lemma base_key_prefix: "prefix (base_key w) (generate_key w)"
  by (simp add: generate_key_up base_key_up)

lemma enter_field_cases:
  assumes "enter_field w f = Inr w'"
  obtains c where "bt_get (sn_children (pw_node w)) f = Some c" "pw_link w' = Some w" "pw_key w' = sn_key c"
    "sn_set (pw_node w) = None" "pw_depth w' = pw_depth w + 1" "pw_depth w < MAX_DEPTH" "\<not> is_intermediate w'"
    "should_flatten w' \<longleftrightarrow> subspace_reference c = None \<and> sn_flattened c"
    "subspace_reference c = None \<longrightarrow> pw_node w' = c"
    "\<forall>r. subspace_reference c = Some r \<longrightarrow> find_reference w r = Some (pw_node w')"
  using assms
  by (auto simp: enter_field_def check_and_add_depth_def split: if_splits option.splits)

lemma enter_set_cases:
  assumes "enter_set_raw w pk = Inr w'"
  obtains m where "sn_set (pw_node w) = Some m" "pw_node w' = m" "pw_key w' = sn_key m"
    "should_flatten w'" "pw_depth w' = pw_depth w + 2" "pw_depth w + 1 < MAX_DEPTH"
    "pw_link w' = Some (PathWalker m (0 # pk @ [0]) (Some w) (pw_depth w + 1) False True None)"
  using assms
  by (auto simp: enter_set_raw_def check_and_add_depth_def Let_def split: if_splits option.splits)

lemma enter_set_keys:
  assumes "enter_set_raw w pk = Inr w'"
  shows "base_key w' = base_key w @ 0 # pk @ [0]"
  by (rule enter_set_cases [OF assms]) (simp add: base_key_up up_key_def)

lemma step_base_prefix: "step_walker w s = Inr w' \<Longrightarrow> prefix (base_key w) (base_key w')"
proof (cases s)
  case (Field f)
  assume "step_walker w s = Inr w'"
  with Field show ?thesis by (auto elim!: enter_field_cases simp: base_key_up [of w'] up_key_def)
next
  case (Member pk)
  assume "step_walker w s = Inr w'"
  with Member show ?thesis using enter_set_keys [of w pk w'] by simp
qed

lemma walk_base_prefix: "foldR step_walker w steps = Inr w' \<Longrightarrow> prefix (base_key w) (base_key w')"
proof (induction steps arbitrary: w)
  case (Cons s steps)
  then show ?case using step_base_prefix prefix_order.trans by fastforce
qed simp

text \<open>
  The keys of a set member lie in its range: everything stored below the member \<open>pk\<close> of a set
  lies between the data prefix of the set followed by \<open>pk\<close> and \<^verbatim>\<open>0x00\<close> and the same
  followed by \<^verbatim>\<open>0x01\<close>, the range that deleting the member clears.
\<close>

theorem entry_keys_in_range:
  assumes "enter_set_raw w pk = Inr m" "\<not> should_flatten w" "foldR step_walker m steps = Inr d"
  shows "\<exists>p. set_data_prefix w = Inr p \<and> p @ pk @ [0] \<le> generate_key d \<and> generate_key d < p @ pk @ [1]"
proof -
  have "prefix (base_key m) (generate_key d)"
    using walk_base_prefix [OF assms(3)] base_key_prefix prefix_order.trans by blast
  then have "prefix ((generate_key w @ 0 # pk) @ [0]) (generate_key d)"
    using enter_set_keys [OF assms(1)] assms(2) by (simp add: base_key_up generate_key_up)
  then have "(generate_key w @ 0 # pk) @ [0] \<le> generate_key d" "generate_key d < (generate_key w @ 0 # pk) @ [0 + 1]"
    using range_eq_prefix [of "0" "generate_key w @ 0 # pk" "generate_key d"] by auto
  moreover have "set_data_prefix w = Inr (generate_key w @ [0])"
    by (rule enter_set_cases [OF assms(1)]) (simp add: set_data_prefix_def)
  ultimately show ?thesis by simp
qed


theorem entry_keys_in_range_witness:
  "\<exists>w m d p. from_export tree_plan ''nodes'' = Inr w \<and> enter_set_raw w [7] = Inr m \<and> enter_field m ''value'' = Inr d \<and>
    set_data_prefix w = Inr p \<and> p @ [7, 0] \<le> generate_key d \<and> generate_key d < p @ [7, 1]"
proof -
  obtain w m d where w: "from_export tree_plan ''nodes'' = Inr w" "enter_set_raw w [7] = Inr m" "enter_field m ''value'' = Inr d"
    "\<not> should_flatten w"
    by (simp add: from_export_def tree_plan_def enter_field_def enter_set_raw_def check_and_add_depth_def MAX_DEPTH_def Let_def)
  then show ?thesis using entry_keys_in_range [OF w(2,4), of "[Field ''value'']" d] by auto
qed

text \<open>
  Every walker keeps within the depth limit, and its depth counts the walkers on its way.
\<close>

theorem walk_depth_bounded:
  assumes "walk_path plan e steps = Inr w"
  shows "pw_depth w = length (chain w) \<and> pw_depth w \<le> MAX_DEPTH"
proof -
  from assms obtain w0 where w0: "from_export plan e = Inr w0" "foldR step_walker w0 steps = Inr w"
    by (auto simp: walk_path_def)
  show ?thesis
  proof (rule foldR_invariant [OF w0(2)])
    show "pw_depth w0 = length (chain w0) \<and> pw_depth w0 \<le> MAX_DEPTH"
      using w0(1) by (auto simp: from_export_def MAX_DEPTH_def)
  next
    fix v s v' assume v: "pw_depth v = length (chain v) \<and> pw_depth v \<le> MAX_DEPTH" "step_walker v s = Inr v'"
    show "pw_depth v' = length (chain v') \<and> pw_depth v' \<le> MAX_DEPTH"
    proof (cases s)
      case (Field f)
      then have "enter_field v f = Inr v'" using v(2) by simp
      then show ?thesis by (cases rule: enter_field_cases) (use v(1) in \<open>cases v'; auto\<close>)
    next
      case (Member pk)
      then have "enter_set_raw v pk = Inr v'" using v(2) by simp
      then show ?thesis by (cases rule: enter_set_cases) (use v(1) in \<open>cases v'; auto\<close>)
    qed
  qed
qed

theorem walk_depth_bounded_witness:
  "\<exists>w. walk_path list_plan ''l'' [Field ''next'', Field ''v''] = Inr w \<and> pw_depth w = length (chain w) \<and> pw_depth w \<le> MAX_DEPTH"
proof -
  obtain w where w: "walk_path list_plan ''l'' [Field ''next'', Field ''v''] = Inr w"
    by (simp add: walk_path_def from_export_def list_plan_def enter_field_def check_and_add_depth_def MAX_DEPTH_def)
  then show ?thesis using walk_depth_bounded [OF w] by blast
qed

section \<open>Distinct paths have distinct keys\<close>

definition plan_layout :: "storage_key storage_plan \<Rightarrow> bool" where
  "plan_layout plan \<longleftrightarrow> (\<forall>n \<in> set (plan_nodes plan). length (sn_key n) = 12 \<and>
     (sn_flattened n \<longrightarrow> sn_set n = None) \<and>
     (case sn_set n of None \<Rightarrow> True | Some m \<Rightarrow> sn_set m = None))"

definition walker_ok :: "storage_key storage_plan \<Rightarrow> path_walker \<Rightarrow> bool" where
  "walker_ok plan w \<longleftrightarrow> set (chain w) \<subseteq> set (plan_nodes plan) \<and>
     (should_flatten w \<longrightarrow> sn_set (pw_node w) = None \<and> pw_key w = sn_key (pw_node w))"

lemma step_walker_ok:
  assumes "plan_layout plan" "walker_ok plan w" "step_walker w s = Inr w'"
  shows "walker_ok plan w'"
proof (cases s)
  case (Field f)
  then have "enter_field w f = Inr w'" using assms(3) by simp
  then show ?thesis
  proof (cases rule: enter_field_cases)
    case (1 c)
    have "pw_node w \<in> set (plan_nodes plan)" using assms(2) chain_self by (auto simp: walker_ok_def)
    then have nodes: "c \<in> set (plan_nodes plan)" using 1(1) by (rule plan_nodes_child)
    have "pw_node w' \<in> set (plan_nodes plan)"
    proof (cases "subspace_reference c")
      case (Some r)
      then have "pw_node w' \<in> set (chain w)" using 1(10) find_SomeD by (fastforce simp: find_reference_chain)
      then show ?thesis using assms(2) by (auto simp: walker_ok_def)
    qed (use 1(9) nodes in simp)
    then show ?thesis using 1 assms(1,2) nodes
      by (cases w') (auto simp: walker_ok_def plan_layout_def)
  qed
next
  case (Member pk)
  then have "enter_set_raw w pk = Inr w'" using assms(3) by simp
  then show ?thesis
  proof (cases rule: enter_set_cases)
    case (1 m)
    have "pw_node w \<in> set (plan_nodes plan)" using assms(2) chain_self by (auto simp: walker_ok_def)
    then have "m \<in> set (plan_nodes plan)" "sn_set m = None"
      using 1(1) plan_nodes_set assms(1) by (fastforce simp: plan_layout_def)+
    then show ?thesis using 1 assms(2) by (cases w') (auto simp: walker_ok_def)
  qed
qed

lemma node_keys_child:
  assumes "bt_get (sn_children n) f = Some c"
  shows "set (node_keys c) \<subseteq> set (node_keys n)"
  using assms by (cases n) (auto dest!: map_of_SomeD)

lemma under_walker:
  assumes "plan_layout plan"
  shows "walker_ok plan c \<Longrightarrow> pw_key c = sn_key n \<Longrightarrow> (should_flatten c \<longrightarrow> pw_node c = n) \<Longrightarrow>
    foldR step_walker c steps = Inr d \<Longrightarrow> \<exists>k r. generate_key d = up_key (pw_link c) @ k @ r \<and> k \<in> set (node_keys n)"
proof (induction steps arbitrary: c n)
  case Nil
  have "sn_key n \<in> set (node_keys n)" by (cases n) simp
  then show ?case using Nil by (intro exI [of _ "sn_key n"] exI [of _ "[]"]) (auto simp: generate_key_up)
next
  case (Cons s steps)
  then obtain c1 where c1: "step_walker c s = Inr c1" "foldR step_walker c1 steps = Inr d" by auto
  show ?case
  proof (cases "should_flatten c")
    case True
    then have set: "sn_set n = None" "pw_node c = n" using Cons.prems(1,3) by (auto simp: walker_ok_def)
    then obtain g where "enter_field c g = Inr c1"
      using c1(1) by (cases s) (auto elim!: enter_set_cases)
    then show ?thesis
    proof (cases rule: enter_field_cases)
      case (1 n1)
      have "\<exists>k r. generate_key d = up_key (pw_link c1) @ k @ r \<and> k \<in> set (node_keys n1)"
        by (rule Cons.IH [OF step_walker_ok [OF assms Cons.prems(1) c1(1)] 1(3) _ c1(2)]) (use 1(8,9) in blast)
      moreover have "up_key (pw_link c1) = up_key (pw_link c)"
        using 1(2) True by (simp add: up_key_def base_key_up [of c])
      ultimately show ?thesis using node_keys_child [OF 1(1)] set(2) by auto
    qed
  next
    case False
    have "prefix (base_key c) (generate_key d)"
      using walk_base_prefix [OF Cons.prems(4)] base_key_prefix prefix_order.trans by blast
    moreover have "sn_key n \<in> set (node_keys n)" by (cases n) simp
    ultimately show ?thesis using False Cons.prems(2) by (auto simp: base_key_up prefix_def)
  qed
qed

lemma under_field:
  assumes "plan_layout plan" "walker_ok plan w" "enter_field w f = Inr c" "foldR step_walker c steps = Inr d"
  shows "\<exists>n k r. bt_get (sn_children (pw_node w)) f = Some n \<and> generate_key d = base_key w @ k @ r \<and> k \<in> set (node_keys n)"
  using assms(3)
proof (cases rule: enter_field_cases)
  case (1 n)
  have "walker_ok plan c" using step_walker_ok [OF assms(1,2), of "Field f"] assms(3) by simp
  from under_walker [OF assms(1) this 1(3) _ assms(4)] 1 show ?thesis by (auto simp: up_key_def)
qed


text \<open>Two paths part, if at all, at members whose encodings do not run into each other.\<close>

fun clash_free :: "path_step list \<Rightarrow> path_step list \<Rightarrow> bool" where
  "clash_free (Member p # s) (Member q # t) =
     (if p = q then clash_free s t else \<not> prefix (p @ [0]) (q @ [0]) \<and> \<not> prefix (q @ [0]) (p @ [0]))"
| "clash_free (Field f # s) (Field g # t) = (f = g \<longrightarrow> clash_free s t)"
| "clash_free s t = True"

lemma clash_free_sym: "clash_free s t = clash_free t s"
  by (induction s t rule: clash_free.induct) auto

lemma distinct_node_keys:
  assumes "distinct (plan_keys plan)" "n \<in> set (plan_nodes plan)"
  shows "distinct (node_keys n)"
proof -
  have "distinct (node_keys x) \<Longrightarrow> n \<in> set (all_nodes x) \<Longrightarrow> distinct (node_keys n)" for x
  proof (induction x rule: all_nodes.induct)
    case (1 k fl ref st ch)
    then show ?case by (cases st) (auto simp: distinct_concat_iff)
  qed
  moreover obtain c where "c \<in> set plan" "n \<in> set (all_nodes (snd c))" using assms(2) by (auto simp: plan_nodes_def)
  moreover then have "distinct (node_keys (snd c))" using assms(1) by (auto simp: plan_keys_def distinct_concat_iff)
  ultimately show ?thesis by blast
qed

lemma distinct_concat_disjoint:
  "distinct (concat xss) \<Longrightarrow> i < length xss \<Longrightarrow> j < length xss \<Longrightarrow> i \<noteq> j \<Longrightarrow> set (xss ! i) \<inter> set (xss ! j) = {}"
proof (induction xss arbitrary: i j)
  case (Cons xs xss)
  have "set xs \<inter> set (xss ! k) = {}" if "k < length xss" for k
    using Cons.prems(1) nth_mem [OF that] by auto
  then show ?case using Cons by (cases i; cases j) auto
qed simp

lemma distinct_entries:
  assumes "distinct (concat (map (\<lambda>c. node_keys (snd c)) ch))" "bt_get ch f = Some a" "bt_get ch g = Some b" "f \<noteq> g"
  shows "set (node_keys a) \<inter> set (node_keys b) = {}"
proof -
  have "(f, a) \<in> set ch" "(g, b) \<in> set ch" using assms(2,3) by (auto dest: map_of_SomeD)
  then obtain i j where ij: "i < length ch" "j < length ch" "ch ! i = (f, a)" "ch ! j = (g, b)"
    by (auto simp: in_set_conv_nth)
  then have "i \<noteq> j" using assms(4) by auto
  then show ?thesis using distinct_concat_disjoint [OF assms(1), of i j] ij by simp
qed

lemma distinct_children:
  assumes "distinct (node_keys n)" "bt_get (sn_children n) f = Some a" "bt_get (sn_children n) g = Some b" "f \<noteq> g"
  shows "set (node_keys a) \<inter> set (node_keys b) = {}"
  using distinct_entries [of "sn_children n" f a g b] assms by (cases n) simp

lemma key_not_in_child:
  assumes "distinct (node_keys n)" "bt_get (sn_children n) f = Some c"
  shows "sn_key n \<notin> set (node_keys c)"
  using assms by (cases n) (auto dest!: map_of_SomeD)

lemma key_lengths:
  assumes "plan_layout plan" "n \<in> set (plan_nodes plan)" "k \<in> set (node_keys n)"
  shows "length k = 12"
proof -
  obtain m where m: "m \<in> set (all_nodes n)" "k = sn_key m" using assms(3) by (auto simp: keys_of_all_nodes [symmetric])
  have "x \<in> set (all_nodes n) \<Longrightarrow> n \<in> set (all_nodes y) \<Longrightarrow> x \<in> set (all_nodes y)" for x y
  proof (induction y rule: all_nodes.induct)
    case (1 k fl ref st ch)
    then show ?case by (cases st) fastforce+
  qed
  then have "m \<in> set (plan_nodes plan)" using m(1) assms(2) by (auto simp: plan_nodes_def)
  then show ?thesis using assms(1) m(2) by (simp add: plan_layout_def)
qed


lemma walk_field_keys:
  assumes "plan_layout plan" "walker_ok plan w" "step_walker w (Field f) = Inr c" "foldR step_walker c steps = Inr d"
  obtains n k r where "bt_get (sn_children (pw_node w)) f = Some n" "generate_key d = base_key w @ k @ r"
    "k \<in> set (node_keys n)" "length k = 12" "sn_set (pw_node w) = None"
proof -
  have c: "enter_field w f = Inr c" using assms(3) by simp
  obtain n k r where n: "bt_get (sn_children (pw_node w)) f = Some n" "generate_key d = base_key w @ k @ r" "k \<in> set (node_keys n)"
    using under_field [OF assms(1,2) c assms(4)] by blast
  have "pw_node w \<in> set (plan_nodes plan)" using assms(2) chain_self by (auto simp: walker_ok_def)
  then have "n \<in> set (plan_nodes plan)" using n(1) by (rule plan_nodes_child)
  then have "length k = 12" using key_lengths assms(1) n(3) by blast
  moreover have "sn_set (pw_node w) = None" using c by (auto elim: enter_field_cases)
  ultimately show ?thesis using that n by blast
qed

lemma walk_member_keys:
  assumes "walker_ok plan w" "step_walker w (Member p) = Inr m" "foldR step_walker m steps = Inr d"
  shows "\<not> should_flatten w \<and> sn_set (pw_node w) \<noteq> None \<and> (\<exists>r. generate_key d = base_key w @ 0 # (p @ [0]) @ r)"
proof -
  have m: "enter_set_raw w p = Inr m" using assms(2) by simp
  have "prefix (base_key m) (generate_key d)"
    using walk_base_prefix [OF assms(3)] base_key_prefix prefix_order.trans by blast
  then show ?thesis using m enter_set_keys [OF m] assms(1)
    by (auto elim!: enter_set_cases simp: walker_ok_def prefix_def)
qed

lemma walk_strictly_below:
  assumes "plan_layout plan" "distinct (plan_keys plan)" "walker_ok plan w" "foldR step_walker w (s # steps) = Inr d"
  shows "generate_key d \<noteq> generate_key w"
proof
  assume eq: "generate_key d = generate_key w"
  obtain c where c: "step_walker w s = Inr c" "foldR step_walker c steps = Inr d" using assms(4) by auto
  have node: "pw_node w \<in> set (plan_nodes plan)" using assms(3) chain_self by (auto simp: walker_ok_def)
  show False
  proof (cases s)
    case (Field f)
    obtain n k r where n: "bt_get (sn_children (pw_node w)) f = Some n" "generate_key d = base_key w @ k @ r"
      "k \<in> set (node_keys n)" "length k = 12"
      using walk_field_keys [OF assms(1,3) c [unfolded Field]] by blast
    show False
    proof (cases "should_flatten w")
      case True
      then have "sn_key (pw_node w) = k @ r" using eq n(2) assms(3) by (simp add: generate_key_up base_key_up walker_ok_def)
      moreover have "length (sn_key (pw_node w)) = 12" using assms(1) node by (simp add: plan_layout_def)
      ultimately have "sn_key (pw_node w) = k" using n(4) by simp
      then show False
        using key_not_in_child [OF distinct_node_keys [OF assms(2) node] n(1)] n(3) by simp
    next
      case False
      then show False using eq n(2,4) by (auto simp: generate_key_up base_key_up)
    qed
  next
    case (Member p)
    then show False using walk_member_keys [OF assms(3) c [unfolded Member]] eq
      by (auto simp: generate_key_up base_key_up)
  qed
qed

lemma walk_injective:
  assumes "plan_layout plan" "distinct (plan_keys plan)"
  shows "walker_ok plan w \<Longrightarrow> foldR step_walker w s = Inr d \<Longrightarrow> foldR step_walker w t = Inr e \<Longrightarrow>
    clash_free s t \<Longrightarrow> generate_key d = generate_key e \<Longrightarrow> s = t"
proof (induction s arbitrary: w t)
  case Nil
  show ?case
  proof (cases t)
    case (Cons b t')
    then show ?thesis using walk_strictly_below [OF assms Nil.prems(1), of b t' e] Nil.prems by simp
  qed simp
next
  case (Cons a s)
  note prems = Cons.prems
  show ?case
  proof (cases t)
    case Nil
    then show ?thesis using walk_strictly_below [OF assms prems(1,2)] prems(3,5) by simp
  next
    case t: (Cons b t')
    from prems(2) obtain c1 where c1: "step_walker w a = Inr c1" "foldR step_walker c1 s = Inr d" by auto
    from prems(3) t obtain c2 where c2: "step_walker w b = Inr c2" "foldR step_walker c2 t' = Inr e" by auto
    have same: "a = b \<Longrightarrow> clash_free s t' \<Longrightarrow> s = t'"
      using Cons.IH [OF step_walker_ok [OF assms(1) prems(1) c1(1)] c1(2)] c1(1) c2 prems(5) by simp
    have node: "pw_node w \<in> set (plan_nodes plan)" using prems(1) chain_self by (auto simp: walker_ok_def)
    have "a = b"
    proof (cases a; cases b)
      fix f g assume ab: "a = Field f" "b = Field g"
      obtain m k r where m: "bt_get (sn_children (pw_node w)) f = Some m" "generate_key d = base_key w @ k @ r"
        "k \<in> set (node_keys m)" "length k = 12"
        using walk_field_keys [OF assms(1) prems(1) c1 [unfolded ab]] by blast
      obtain n l q where n: "bt_get (sn_children (pw_node w)) g = Some n" "generate_key e = base_key w @ l @ q"
        "l \<in> set (node_keys n)" "length l = 12"
        using walk_field_keys [OF assms(1) prems(1) c2 [unfolded ab]] by blast
      have "k = l" using m(2,4) n(2,4) prems(5) by simp
      then show ?thesis
        using distinct_children [OF distinct_node_keys [OF assms(2) node] m(1) n(1)] m(3) n(3) ab by auto
    next
      fix p q assume ab: "a = Member p" "b = Member q"
      obtain r r' where "generate_key d = base_key w @ 0 # (p @ [0]) @ r" "generate_key e = base_key w @ 0 # (q @ [0]) @ r'"
        using walk_member_keys [OF prems(1)] c1 c2 ab by metis
      then have "(p @ [0]) @ r = (q @ [0]) @ r'" using prems(5) by simp
      then have "prefix (p @ [0]) (q @ [0]) \<or> prefix (q @ [0]) (p @ [0])"
        by (metis prefixI prefix_same_cases)
      then show ?thesis using prems(4) t ab by (auto split: if_splits)
    next
      fix f q assume ab: "a = Field f" "b = Member q"
      show ?thesis using walk_member_keys [OF prems(1) c2 [unfolded ab]]
        walk_field_keys [OF assms(1) prems(1) c1 [unfolded ab]] by metis
    next
      fix p g assume ab: "a = Member p" "b = Field g"
      show ?thesis using walk_member_keys [OF prems(1) c1 [unfolded ab]]
        walk_field_keys [OF assms(1) prems(1) c2 [unfolded ab]] by metis
    qed
    then show ?thesis using same prems(4) t by (cases b) auto
  qed
qed


lemma conf_layout:
  assumes "schema_ok sch"
  shows "node_conf sch rt sm stk ty n \<Longrightarrow> ft_closed (bt_keys (cs_types sch)) ty \<Longrightarrow> node_shape n \<Longrightarrow>
    m \<in> set (all_nodes n) \<Longrightarrow> length (sn_key m) = 12 \<and> (sn_flattened m \<longrightarrow> sn_set m = None) \<and>
     (case sn_set m of None \<Rightarrow> True | Some x \<Rightarrow> sn_set x = None)"
proof (induction n arbitrary: ty stk rule: all_nodes.induct)
  case (1 k fl ref st ch)
  show ?case
  proof (cases ty)
    case (FPrimitive p)
    then show ?thesis using 1 by auto
  next
    case (FSet x)
    obtain t where t: "x = FTable t" "t \<in> bt_keys (cs_types sch)" using "1.prems"(2) FSet ft_closed_FSet by blast
    obtain y where y: "st = Some y" "node_conf sch rt sm stk x y" "\<not> fl" "ch = []"
      using "1.prems"(1) FSet by (auto split: option.splits)
    have set: "sn_set y = None" using conf_set [OF y(2)] t by simp
    show ?thesis
    proof (cases "m = StorageNode k fl ref st ch")
      case False
      then have "m \<in> set (all_nodes y)" using "1.prems"(4) y by simp
      then show ?thesis using "1.IH"(1) [OF y(1,2)] t "1.prems"(3) y(1) by simp
    qed (use set y "1.prems"(3) in simp)
  next
    case (FTable t)
    show ?thesis
    proof (cases "m = StorageNode k fl ref st ch")
      case True
      then show ?thesis using "1.prems"(1,3) FTable by simp
    next
      case False
      then obtain c where c: "c \<in> set ch" "m \<in> set (all_nodes (snd c))" and st: "st = None"
        using "1.prems"(1,4) FTable by auto
      then obtain s where s: "stk t = None" "bt_get (cs_types sch) t = Some s"
        "list_all (\<lambda>c. case bt_get (st_fields s) (fst c) of None \<Rightarrow> False
           | Some f \<Rightarrow> node_conf sch rt sm (if t \<in> rt then stk(t \<mapsto> k) else stk) (fst f) (snd c)) ch"
        using "1.prems"(1) FTable by (auto split: option.splits)
      then obtain g where g: "bt_get (st_fields s) (fst c) = Some g"
        "node_conf sch rt sm (if t \<in> rt then stk(t \<mapsto> k) else stk) (fst g) (snd c)"
        using c(1) by (auto simp: list_all_iff split: option.splits)
      have "ft_closed (bt_keys (cs_types sch)) (fst g)"
        using field_closed [OF _ s(2), of "(fst c, g)"] g(1) assms by (auto simp: schema_ok_def dest: map_of_SomeD)
      then show ?thesis using "1.IH"(2) [OF c(1) g(2)] c "1.prems"(3) by (simp add: list_all_iff)
    qed
  qed
qed

lemma plan_conf_layout:
  assumes "plan_conf sch rt sm plan" "schema_ok sch" "plan_shape plan"
  shows "plan_layout plan"
  unfolding plan_layout_def
proof
  fix m assume "m \<in> set (plan_nodes plan)"
  then obtain c where "c \<in> set plan" "m \<in> set (all_nodes (snd c))" by (auto simp: plan_nodes_def)
  then obtain i where i: "i < length plan" "m \<in> set (all_nodes (snd (plan ! i)))"
    by (metis in_set_conv_nth)
  have conf: "node_conf sch rt sm Map.empty (snd (cs_exports sch ! i)) (snd (plan ! i))" "i < length (cs_exports sch)"
    using assms(1) i(1) by (auto simp: plan_conf_def list_all2_conv_all_nth)
  have "ft_closed (bt_keys (cs_types sch)) (snd (cs_exports sch ! i))" "node_shape (snd (plan ! i))"
    using assms(2,3) conf(2) i(1) by (auto simp: schema_ok_def plan_shape_def)
  from conf_layout [OF assms(2) conf(1) this i(2)]
  show "length (sn_key m) = 12 \<and> (sn_flattened m \<longrightarrow> sn_set m = None) \<and>
     (case sn_set m of None \<Rightarrow> True | Some x \<Rightarrow> sn_set x = None)" .
qed

text \<open>Paths with typed members, as the executor walks them.\<close>

datatype value_step = ValueField string | ValueMember primitive_value

fun encode_step :: "externs \<Rightarrow> value_step \<Rightarrow> path_step" where
  "encode_step E (ValueField f) = Field f"
| "encode_step E (ValueMember v) = Member (serialize_for_key_component E v)"

fun step_nul_free :: "value_step \<Rightarrow> bool" where
  "step_nul_free (ValueField f) = True"
| "step_nul_free (ValueMember v) = nul_free v"

lemma encode_step_inj:
  assumes "big_endian_u64 E" "step_nul_free a" "step_nul_free b" "encode_step E a = encode_step E b"
  shows "a = b"
  using assms encoding_prefix_free [OF assms(1), of _ _ "[]"] by (cases a; cases b) auto

lemma encode_steps_inj:
  "big_endian_u64 E \<Longrightarrow> list_all step_nul_free s \<Longrightarrow> list_all step_nul_free t \<Longrightarrow>
    map (encode_step E) s = map (encode_step E) t \<Longrightarrow> s = t"
proof (induction s arbitrary: t)
  case (Cons a s)
  then show ?case using encode_step_inj by (cases t) auto
qed simp

lemma clash_free_encoded:
  assumes "big_endian_u64 E" "list_all step_nul_free s" "list_all step_nul_free t"
  shows "clash_free (map (encode_step E) s) (map (encode_step E) t)"
  using assms(2,3)
proof (induction s arbitrary: t)
  case (Cons a s)
  show ?case
  proof (cases t)
    case t: (Cons b t')
    have IH: "clash_free (map (encode_step E) s) (map (encode_step E) t')" using Cons t by simp
    show ?thesis
    proof (cases a; cases b)
      fix v w assume "a = ValueMember v" "b = ValueMember w"
      then show ?thesis
        using IH Cons.prems t encoding_prefix_free [OF assms(1), of v w "[]"] encoding_prefix_free [OF assms(1), of w v "[]"]
        by auto
    qed (use IH t in auto)
  qed simp
qed simp

lemma walk_path_start:
  assumes "plan_layout plan" "walk_path plan e steps = Inr d"
  obtains n w where "bt_get plan e = Some n" "from_export plan e = Inr w" "foldR step_walker w steps = Inr d"
    "walker_ok plan w" "n \<in> set (plan_nodes plan)"
    "\<exists>k r. generate_key d = k @ r \<and> k \<in> set (node_keys n) \<and> length k = 12"
proof -
  from assms(2) obtain n where n: "bt_get plan e = Some n"
    "foldR step_walker (PathWalker n (sn_key n) None 1 (sn_flattened n) False (Some e)) steps = Inr d"
    by (auto simp: walk_path_def from_export_def)
  let ?w = "PathWalker n (sn_key n) None 1 (sn_flattened n) False (Some e)"
  have node: "n \<in> set (plan_nodes plan)" using n(1) by (force simp: plan_nodes_def dest: map_of_SomeD)
  then have ok: "walker_ok plan ?w" using assms(1) by (simp add: walker_ok_def plan_layout_def)
  have "\<exists>k r. generate_key d = k @ r \<and> k \<in> set (node_keys n)"
    using under_walker [OF assms(1) ok _ _ n(2), of n] by (simp add: up_key_def)
  then have "\<exists>k r. generate_key d = k @ r \<and> k \<in> set (node_keys n) \<and> length k = 12"
    using key_lengths [OF assms(1) node] by blast
  with n node ok show ?thesis by (intro that [of n ?w]) (simp_all add: from_export_def)
qed

text \<open>
  C16. Distinct paths have distinct keys: two walks of a well-laid-out plan that end on the same key
  start at the same export and take the same steps, for any depth of tables, sets and
  recursive references, as long as string members hold no zero byte.
\<close>

theorem path_keys_injective:
  assumes "plan_conf sch rt sm plan" "schema_ok sch" "plan_shape plan" "distinct (plan_keys plan)"
    and "big_endian_u64 E" "list_all step_nul_free s" "list_all step_nul_free t"
    and "walk_path plan e (map (encode_step E) s) = Inr d" "walk_path plan e' (map (encode_step E) t) = Inr d'"
    and "generate_key d = generate_key d'"
  shows "e = e' \<and> s = t"
proof -
  note lay = plan_conf_layout [OF assms(1-3)]
  obtain n w where w: "bt_get plan e = Some n" "from_export plan e = Inr w"
    "foldR step_walker w (map (encode_step E) s) = Inr d" "walker_ok plan w"
    and k: "\<exists>k r. generate_key d = k @ r \<and> k \<in> set (node_keys n) \<and> length k = 12"
    by (rule walk_path_start [OF lay assms(8)])
  obtain n' w' where w': "bt_get plan e' = Some n'" "from_export plan e' = Inr w'"
    "foldR step_walker w' (map (encode_step E) t) = Inr d'"
    and l: "\<exists>k r. generate_key d' = k @ r \<and> k \<in> set (node_keys n') \<and> length k = 12"
    by (rule walk_path_start [OF lay assms(9)])
  have e: "e = e'"
  proof (rule ccontr)
    assume "e \<noteq> e'"
    then have "set (node_keys n) \<inter> set (node_keys n') = {}"
      using distinct_entries [OF _ w(1) w'(1)] assms(4) by (simp add: plan_keys_def)
    then show False using k l assms(10) by auto
  qed
  have "map (encode_step E) s = map (encode_step E) t"
    using walk_injective [OF lay assms(4) w(4,3)] w(2) w'(2,3) e clash_free_encoded [OF assms(5,6,7)] assms(10) by simp
  then show ?thesis using encode_steps_inj [OF assms(5,6,7)] e by simp
qed

lemma tree_plan_conf: "plan_conf tree_compiled {''Node<int64>''} {''Node<int64>''} tree_plan"
  by (simp add: plan_conf_def tree_compiled_def tree_plan_def has_primary_def is_primary_def)

lemma tree_plan_shape: "plan_shape tree_plan" "distinct (plan_keys tree_plan)"
  by (simp_all add: plan_shape_def tree_plan_def bt_ok_def plan_keys_def sample_key_def)

theorem path_keys_injective_witness:
  "\<exists>d d'. walk_path tree_plan ''nodes'' (map (encode_step sample_externs) [ValueMember (PString ''a''), ValueField ''value'']) = Inr d \<and>
    walk_path tree_plan ''nodes'' (map (encode_step sample_externs) [ValueMember (PString ''b''), ValueField ''value'']) = Inr d' \<and>
    generate_key d \<noteq> generate_key d'"
proof -
  obtain d d' where w:
    "walk_path tree_plan ''nodes'' (map (encode_step sample_externs) [ValueMember (PString ''a''), ValueField ''value'']) = Inr d"
    "walk_path tree_plan ''nodes'' (map (encode_step sample_externs) [ValueMember (PString ''b''), ValueField ''value'']) = Inr d'"
    by (simp add: walk_path_def from_export_def tree_plan_def enter_field_def enter_set_raw_def check_and_add_depth_def
        MAX_DEPTH_def Let_def)
  have be: "big_endian_u64 sample_externs" by (simp add: big_endian_u64_def sample_externs_def)
  have "generate_key d \<noteq> generate_key d'"
    using path_keys_injective [OF tree_plan_conf sample_schemas_ok(4) tree_plan_shape be _ _ w] by (auto simp: as_bytes_def)
  with w show ?thesis by blast
qed

end
