(* ===== verification/Vm_Value.thy ===== *)
theory Vm_Value
  imports Path_Keys
begin

text \<open>
  Types, values and constants of the tree walker VM: \<^verbatim>\<open>treewalker/vm_value.rs\<close>. The borrowed and the
  owned form of a type are one type here; maps are ordered maps. A table or set is
  resident, with the walker that stands on it, or fresh, with its content. The errors
  about incompatible types carry the types rather than their debug text.
\<close>


section \<open>Types\<close>

datatype vm_type =
    TPrimitive primitive_type
  | TTable string
  | TSet vm_type
  | TBool
  | TList vm_type
  | TMap "(string \<times> vm_type) list"
  | TUnknown
  | TSchema

fun display_vm_type :: "vm_type \<Rightarrow> string" where
  "display_vm_type (TPrimitive x) = display_primitive_type x"
| "display_vm_type (TTable name) = name"
| "display_vm_type TUnknown = ''unknown''"
| "display_vm_type TBool = ''bool''"
| "display_vm_type (TMap m) =
     ''map {'' @ concat (map (\<lambda>e. '' '' @ fst e @ '': '' @ display_vm_type (snd e) @ '','') m) @ '' }''"
| "display_vm_type (TList x) = ''list<'' @ display_vm_type x @ ''>''"
| "display_vm_type (TSet x) = ''set<'' @ display_vm_type x @ ''>''"
| "display_vm_type TSchema = ''schema''"

fun vm_type_from :: "vm_type \<Rightarrow> vm_type" where
  "vm_type_from (TPrimitive x) = TPrimitive x"
| "vm_type_from (TTable name) = TTable name"
| "vm_type_from (TSet x) = TSet (vm_type_from x)"
| "vm_type_from TBool = TBool"
| "vm_type_from (TList x) = TList (vm_type_from x)"
| "vm_type_from (TMap x) = TMap (bt_collect (map (\<lambda>e. (fst e, vm_type_from (snd e))) x))"
| "vm_type_from TUnknown = TUnknown"
| "vm_type_from TSchema = TSchema"

fun vm_type_of_field :: "field_type \<Rightarrow> vm_type" where
  "vm_type_of_field (FPrimitive x) = TPrimitive x"
| "vm_type_of_field (FTable x) = TTable x"
| "vm_type_of_field (FSet x) = TSet (vm_type_of_field x)"

definition vm_type_of_schema :: "compiled_schema \<Rightarrow> vm_type" where
  "vm_type_of_schema sch =
     TMap (foldl (\<lambda>m e. bt_insert (fst e) (vm_type_of_field (snd e)) m) [] (cs_exports sch))"

fun is_covariant_from :: "vm_type \<Rightarrow> vm_type \<Rightarrow> bool" where
  "is_covariant_from a b =
     (if a = b then True
      else case a of
        TMap x \<Rightarrow>
          (case b of
             TMap y \<Rightarrow> list_all (\<lambda>e. case bt_get y (fst e) of Some v_y \<Rightarrow> is_covariant_from (snd e) v_y | None \<Rightarrow> False) x
           | _ \<Rightarrow> False)
      | _ \<Rightarrow> False)"

fun set_primary_key :: "compiled_schema \<Rightarrow> vm_type \<Rightarrow> (string \<times> field_type) option" where
  "set_primary_key sch (TSet (TTable name)) =
     Option.bind (bt_get (cs_types sch) name) (\<lambda>specialized_ty.
       find_map (\<lambda>e. if is_primary (snd (snd e)) then Some (fst e, fst (snd e)) else None) (st_fields specialized_ty))"
| "set_primary_key sch _ = None"

section \<open>Values\<close>

datatype 'f residence = Resident path_walker | Fresh 'f

datatype vm_value =
    VPrimitive primitive_value
  | VTable string "(string \<times> vm_value) list residence"
  | VSet vm_type "(bytes \<times> vm_value) list residence"
  | VBool bool
  | VMap "(string \<times> vm_value) list"
  | VNull vm_type
  | VList vm_type "vm_value list"

fun vm_type_of_value :: "vm_value \<Rightarrow> vm_type" where
  "vm_type_of_value (VPrimitive x) = TPrimitive (get_type x)"
| "vm_type_of_value (VTable ty _) = TTable ty"
| "vm_type_of_value (VSet member_ty _) = TSet member_ty"
| "vm_type_of_value (VBool _) = TBool"
| "vm_type_of_value (VMap x) = TMap (bt_collect (map (\<lambda>e. (fst e, vm_type_of_value (snd e))) x))"
| "vm_type_of_value (VNull ty) = ty"
| "vm_type_of_value (VList member_ty _) = member_ty"

fun is_null :: "vm_value \<Rightarrow> bool" where
  "is_null (VNull _) = True"
| "is_null _ = False"

fun unwrap_table :: "vm_value \<Rightarrow> ('e, string \<times> (string \<times> vm_value) list residence) outcome" where
  "unwrap_table (VTable ty kind) = Inr (ty, kind)"
| "unwrap_table _ = Inl (Panic ''unwrap_table: got non-table type'')"

fun unwrap_map :: "vm_value \<Rightarrow> ('e, (string \<times> vm_value) list) outcome" where
  "unwrap_map (VMap x) = Inr x"
| "unwrap_map _ = Inl (Panic ''unwrap_map: got non-map type'')"

fun unwrap_set :: "vm_value \<Rightarrow> ('e, vm_type \<times> (bytes \<times> vm_value) list residence) outcome" where
  "unwrap_set (VSet member_ty kind) = Inr (member_ty, kind)"
| "unwrap_set _ = Inl (Panic ''unwrap_set: got non-set type'')"

fun unwrap_primitive :: "vm_value \<Rightarrow> ('e, primitive_value) outcome" where
  "unwrap_primitive (VPrimitive x) = Inr x"
| "unwrap_primitive _ = Inl (Panic ''unwrap_primitive: got non-primitive type'')"

fun unwrap_bool :: "vm_value \<Rightarrow> ('e, bool) outcome" where
  "unwrap_bool (VBool x) = Inr x"
| "unwrap_bool _ = Inl (Panic ''unwrap_bool: got non-bool type'')"

text \<open>The derived equality of values; walkers are compared by their key components.\<close>

fun vm_value_eq :: "vm_value \<Rightarrow> vm_value \<Rightarrow> bool" where
  "vm_value_eq (VPrimitive x) b = (case b of VPrimitive y \<Rightarrow> x = y | _ \<Rightarrow> False)"
| "vm_value_eq (VTable s (Resident v)) b = (case b of VTable t (Resident w) \<Rightarrow> s = t \<and> walker_eq v w | _ \<Rightarrow> False)"
| "vm_value_eq (VTable s (Fresh x)) b =
     (case b of
        VTable t (Fresh y) \<Rightarrow> s = t \<and> list_all2 (\<lambda>c d. fst c = fst d \<and> vm_value_eq (snd c) (snd d)) x y
      | _ \<Rightarrow> False)"
| "vm_value_eq (VSet s (Resident v)) b = (case b of VSet t (Resident w) \<Rightarrow> s = t \<and> walker_eq v w | _ \<Rightarrow> False)"
| "vm_value_eq (VSet s (Fresh x)) b =
     (case b of
        VSet t (Fresh y) \<Rightarrow> s = t \<and> list_all2 (\<lambda>c d. fst c = fst d \<and> vm_value_eq (snd c) (snd d)) x y
      | _ \<Rightarrow> False)"
| "vm_value_eq (VBool x) b = (case b of VBool y \<Rightarrow> x = y | _ \<Rightarrow> False)"
| "vm_value_eq (VMap x) b =
     (case b of
        VMap y \<Rightarrow> list_all2 (\<lambda>c d. fst c = fst d \<and> vm_value_eq (snd c) (snd d)) x y
      | _ \<Rightarrow> False)"
| "vm_value_eq (VNull s) b = (case b of VNull t \<Rightarrow> s = t | _ \<Rightarrow> False)"
| "vm_value_eq (VList s x) b = (case b of VList t y \<Rightarrow> s = t \<and> list_all2 vm_value_eq x y | _ \<Rightarrow> False)"

fun default_value :: "vm_type \<Rightarrow> vm_value option" where
  "default_value TBool = Some (VBool False)"
| "default_value (TList _) = None"
| "default_value (TMap x) =
     (let vs = map (\<lambda>e. map_option (Pair (fst e)) (default_value (snd e))) x in
      if None \<in> set vs then None else Some (VMap (bt_collect (map the vs))))"
| "default_value (TPrimitive x) = Some (VPrimitive (default_value_for_type x))"
| "default_value TSchema = None"
| "default_value (TSet ty) = Some (VSet ty (Fresh []))"
| "default_value (TTable name) = Some (VTable name (Fresh []))"
| "default_value TUnknown = None"

section \<open>Constants\<close>

datatype vm_const =
    CPrimitive primitive_value
  | CTable string "(string \<times> vm_const) list"
  | CSet string "vm_const list"
  | CBool bool
  | CNull vm_type

datatype vm_value_error =
    TypeNotFound string
  | VmFieldNotFound string string
  | IncompatibleFieldAndValueType vm_type vm_type
  | MissingField string string
  | MissingPrimaryKey

definition fresh_primary_key :: "externs \<Rightarrow> string \<Rightarrow> (string \<times> vm_value) list residence \<Rightarrow> ('e, bytes) outcome" where
  "fresh_primary_key E primary_key kind =
     (case kind of
        Fresh x \<Rightarrow>
          bindR (unwrap ''called `Option::unwrap()` on a `None` value'' (bt_get x primary_key)) (\<lambda>v.
          bindR (unwrap_primitive v) (\<lambda>p. Inr (serialize_for_key_component E p)))
      | Resident _ \<Rightarrow> Inl (Panic ''internal error: entered unreachable code''))"

fun from_const :: "externs \<Rightarrow> compiled_schema \<Rightarrow> vm_const \<Rightarrow> (vm_value_error, vm_value) outcome" where
  "from_const E sch (CPrimitive x) = Inr (VPrimitive x)"
| "from_const E sch (CTable name cs) =
     bindR (ok_or (TypeNotFound name) (bt_get (cs_types sch) name)) (\<lambda>ty.
     bindR (foldR (\<lambda>m e.
         bindR (ok_or (VmFieldNotFound (fst e) name) (bt_get (st_fields ty) (fst e))) (\<lambda>field.
         bindR (from_const E sch (snd e)) (\<lambda>v.
         if is_covariant_from (vm_type_of_field (fst field)) (vm_type_of_value v)
         then Inr (bt_insert (fst e) v m)
         else Inl (Err (IncompatibleFieldAndValueType (vm_type_of_field (fst field)) (vm_type_of_value v))))))
       [] cs) (\<lambda>flds.
     Inr (VTable (st_name ty) (Fresh flds))))"
| "from_const E sch (CSet name cs) =
     bindR (ok_or (TypeNotFound name) (bt_get (cs_types sch) name)) (\<lambda>ty.
     let member_ty = TTable (st_name ty) in
     bindR (ok_or MissingPrimaryKey (set_primary_key sch (TSet member_ty))) (\<lambda>pk.
     bindR (foldR (\<lambda>m c.
         bindR (from_const E sch c) (\<lambda>member.
         if is_covariant_from member_ty (vm_type_of_value member)
         then bindR (unwrap_table member) (\<lambda>t.
              bindR (fresh_primary_key E (fst pk) (snd t)) (\<lambda>k. Inr (bt_insert k member m)))
         else Inl (Err (IncompatibleFieldAndValueType member_ty (vm_type_of_value member)))))
       [] cs) (\<lambda>members.
     Inr (VSet member_ty (Fresh members)))))"
| "from_const E sch (CNull ty) = Inr (VNull (vm_type_from ty))"
| "from_const E sch (CBool x) = Inr (VBool x)"


section \<open>Covariance\<close>

declare is_covariant_from.simps [simp del]

lemma covariant_refl [simp]: "is_covariant_from a a"
  by (subst is_covariant_from.simps) simp

lemma covariant_map:
  "is_covariant_from (TMap x) (TMap y) \<longleftrightarrow>
     x = y \<or> list_all (\<lambda>e. case bt_get y (fst e) of Some b \<Rightarrow> is_covariant_from (snd e) b | None \<Rightarrow> False) x"
  by (subst is_covariant_from.simps) simp

lemma covariant_cases:
  assumes "is_covariant_from a b"
  obtains "a = b"
  | x y where "a = TMap x" "b = TMap y"
      "\<And>k t. (k, t) \<in> set x \<Longrightarrow> \<exists>u. bt_get y k = Some u \<and> is_covariant_from t u"
  using assms by (subst (asm) is_covariant_from.simps)
    (force split: if_splits vm_type.splits option.splits simp: list_all_iff)

lemma covariant_atom: "is_covariant_from a b \<Longrightarrow> \<nexists>x. a = TMap x \<Longrightarrow> a = b"
  by (erule covariant_cases) auto

lemma covariant_trans: "is_covariant_from a b \<Longrightarrow> is_covariant_from b c \<Longrightarrow> is_covariant_from a c"
proof -
  assume "is_covariant_from a b" "is_covariant_from b c"
  from this(2,1) show "is_covariant_from a c"
  proof (induction a arbitrary: b c)
    case (TMap x)
    note IH = TMap.IH
    from TMap.prems(2) show ?case
    proof (cases rule: covariant_cases)
      case 1
      then show ?thesis using TMap.prems(1) by simp
    next
      case (2 x' y)
      from TMap.prems(1) show ?thesis
      proof (cases rule: covariant_cases)
        case 1
        then show ?thesis using TMap.prems(2) by simp
      next
        case (2 y' z)
        have "case bt_get z (fst e) of Some b \<Rightarrow> is_covariant_from (snd e) b | None \<Rightarrow> False" if e: "e \<in> set x" for e
        proof -
          obtain u where u: "bt_get y (fst e) = Some u" "is_covariant_from (snd e) u"
            using \<open>TMap x = TMap x'\<close> \<open>\<And>k t. (k, t) \<in> set x' \<Longrightarrow> _\<close> e by (metis prod.collapse vm_type.inject(5))
          then obtain v where v: "bt_get z (fst e) = Some v" "is_covariant_from u v"
            using 2 \<open>b = TMap y\<close> by (metis map_of_SomeD vm_type.inject(5))
          have "snd e \<in> Basic_BNFs.snds e" by (cases e) (simp add: snds.simps)
          then have "is_covariant_from (snd e) v" using IH [OF e _ v(2) u(2)] by blast
          then show ?thesis using v(1) by simp
        qed
        then show ?thesis using 2 by (simp add: covariant_map list_all_iff)
      qed
    qed
  qed (auto dest: covariant_atom)
qed

end
