(* ===== verification/Bytecode.thy ===== *)
theory Bytecode
  imports Vm_Value
begin

text \<open>
  Compiled scripts (\<^verbatim>\<open>treewalker/bytecode.rs\<close>) and the VM around one script
  (\<^verbatim>\<open>treewalker/vm.rs\<close>). The 32-bit indices of nodes, constants, identifiers and types are
  natural numbers: no index is computed, they are only compared and used to look up.
\<close>

section \<open>Graphs\<close>

datatype tw_graph_node =
    LoadParam nat
  | LoadConst nat
  | BuildTable nat
  | BuildSet
  | CreateMap
  | CreateList nat
  | PrependToList
  | PopFromList
  | ListHead
  | Reduce nat bool
  | GetField nat
  | GetSetElement
  | FilterSet nat
  | InsertIntoMap nat
  | InsertIntoTable nat
  | InsertIntoSet
  | DeleteFromSet
  | DeleteFromMap nat
  | EqN
  | NeN
  | AndN
  | OrN
  | NotN
  | Select
  | IsPresent
  | IsNull
  | Nop
  | Call nat
  | Add
  | Sub
  | Throw

fun is_select :: "tw_graph_node \<Rightarrow> bool" where
  "is_select Select = True"
| "is_select _ = False"

fun subgraph_references :: "tw_graph_node \<Rightarrow> nat list" where
  "subgraph_references (FilterSet x) = [x]"
| "subgraph_references (Call x) = [x]"
| "subgraph_references (Reduce x _) = [x]"
| "subgraph_references _ = []"

fun is_optional_chained :: "tw_graph_node \<Rightarrow> bool" where
  "is_optional_chained IsNull = False"
| "is_optional_chained Nop = False"
| "is_optional_chained (InsertIntoMap _) = False"
| "is_optional_chained (DeleteFromMap _) = False"
| "is_optional_chained (Reduce _ _) = False"
| "is_optional_chained Throw = False"
| "is_optional_chained _ = True"

record tw_graph =
  g_name :: string
  g_exported :: bool
  g_nodes :: "(tw_graph_node \<times> nat list \<times> nat option) list"
  g_output :: "nat option"
  g_param_types :: "nat list"
  g_output_type :: "nat option"

record tw_script =
  s_graphs :: "tw_graph list"
  s_entry :: nat
  s_consts :: "vm_const list"
  s_idents :: "string list"
  s_types :: "vm_type list"

section \<open>The VM\<close>

datatype vm_error = ExportedGraphNotFound string

record tw_vm =
  vm_schema :: compiled_schema
  vm_storage_plan :: "storage_key storage_plan"
  vm_script :: tw_script
  vm_consts :: "vm_value list"
  vm_types :: "vm_type list"
  vm_exported :: "(string, nat) btree"

definition exported_graph_name_index :: "tw_graph list \<Rightarrow> (string, nat) btree" where
  "exported_graph_name_index gs =
     foldl (\<lambda>m (i, g). if g_exported g then bt_insert (g_name g) i m else m) [] (enumerate 0 gs)"

definition tw_vm_new ::
  "externs \<Rightarrow> compiled_schema \<Rightarrow> storage_key storage_plan \<Rightarrow> tw_script \<Rightarrow> (vm_value_error, tw_vm) outcome" where
  "tw_vm_new E sch plan script =
     bindR (mapR (from_const E sch) (s_consts script)) (\<lambda>consts.
     Inr \<lparr>vm_schema = sch, vm_storage_plan = plan, vm_script = script, vm_consts = consts,
       vm_types = map vm_type_from (s_types script),
       vm_exported = exported_graph_name_index (s_graphs script)\<rparr>)"

definition lookup_exported_graph_by_name :: "tw_vm \<Rightarrow> string \<Rightarrow> (vm_error, nat) outcome" where
  "lookup_exported_graph_by_name vm name = ok_or (ExportedGraphNotFound name) (bt_get (vm_exported vm) name)"

lemma exported_index_Some:
  "bt_get (exported_graph_name_index gs) name = Some i \<longleftrightarrow>
     i < length gs \<and> g_exported (gs ! i) \<and> g_name (gs ! i) = name \<and>
     (\<forall>j < length gs. g_exported (gs ! j) \<longrightarrow> g_name (gs ! j) = name \<longrightarrow> j \<le> i)"
proof (induction gs rule: rev_induct)
  case (snoc g gs)
  have e: "exported_graph_name_index (gs @ [g]) = (if g_exported g then
      bt_insert (g_name g) (length gs) (exported_graph_name_index gs) else exported_graph_name_index gs)"
    by (simp add: exported_graph_name_index_def enumerate_append_eq)
  show ?case
    unfolding e using snoc by (auto simp: bt_get_insert nth_append less_Suc_eq)
qed (simp add: exported_graph_name_index_def)

end
