(* ===== verification/Kv_Store.thy ===== *)
theory Kv_Store
  imports Ordered_Map
begin

text \<open>
  The key-value interface of \<^verbatim>\<open>data/kv.rs\<close>. A transaction is a record of operations on a
  state; \<open>kv_scan_keys\<close> gives the keys its iterator yields in turn. The locale states what the
  rest of the system relies on: reads see the snapshot the transaction began with,
  writes collect in a pending view, and a scan lists the keys of one of the two in order.
\<close>

section \<open>The interface\<close>

datatype kv_error = Conflict | CommitStateUnknown

record ('e, 't) kv_transaction =
  kv_get :: "'t \<Rightarrow> bytes \<Rightarrow> ('e, bytes option) outcome"
  kv_put :: "'t \<Rightarrow> bytes \<Rightarrow> bytes \<Rightarrow> ('e, 't) outcome"
  kv_delete :: "'t \<Rightarrow> bytes \<Rightarrow> ('e, 't) outcome"
  kv_delete_range :: "'t \<Rightarrow> bytes \<Rightarrow> bytes \<Rightarrow> ('e, 't) outcome"
  kv_scan_keys :: "'t \<Rightarrow> bytes \<Rightarrow> bytes \<Rightarrow> ('e, bytes list) outcome"

section \<open>Writes\<close>

type_synonym kv_view = "bytes \<rightharpoonup> bytes"

datatype kv_write = WPut bytes bytes | WDelete bytes | WDeleteRange bytes bytes

fun apply_write :: "kv_write \<Rightarrow> kv_view \<Rightarrow> kv_view" where
  "apply_write (WPut k v) m = m(k \<mapsto> v)"
| "apply_write (WDelete k) m = m(k := None)"
| "apply_write (WDeleteRange s e) m = (\<lambda>k. if s \<le> k \<and> k < e then None else m k)"

fun run_write :: "('e, 't) kv_transaction \<Rightarrow> 't \<Rightarrow> kv_write \<Rightarrow> ('e, 't) outcome" where
  "run_write kv t (WPut k v) = kv_put kv t k v"
| "run_write kv t (WDelete k) = kv_delete kv t k"
| "run_write kv t (WDeleteRange s e) = kv_delete_range kv t s e"

definition run_writes :: "('e, 't) kv_transaction \<Rightarrow> 't \<Rightarrow> kv_write list \<Rightarrow> ('e, 't) outcome" where
  "run_writes kv t ws = foldR (run_write kv) t ws"

section \<open>The contract\<close>

locale kv_core =
  fixes kv :: "('e, 't) kv_transaction"
    and snap pending :: "'t \<Rightarrow> kv_view"
    and ok :: "'t \<Rightarrow> bool"
  assumes get_law: "ok t \<Longrightarrow> kv_get kv t k = Inr (snap t k)"
    and put_law: "ok t \<Longrightarrow> \<exists>t'. kv_put kv t k v = Inr t' \<and> ok t' \<and> snap t' = snap t \<and>
      pending t' = (pending t)(k \<mapsto> v)"
    and delete_law: "ok t \<Longrightarrow> \<exists>t'. kv_delete kv t k = Inr t' \<and> ok t' \<and> snap t' = snap t \<and>
      pending t' = (pending t)(k := None)"
    and delete_range_law: "ok t \<Longrightarrow> \<exists>t'. kv_delete_range kv t s e = Inr t' \<and> ok t' \<and> snap t' = snap t \<and>
      pending t' = (\<lambda>k. if s \<le> k \<and> k < e then None else pending t k)"
begin

lemma write_law:
  "ok t \<Longrightarrow> \<exists>t'. run_write kv t w = Inr t' \<and> ok t' \<and> snap t' = snap t \<and>
    pending t' = apply_write w (pending t)"
  using put_law delete_law delete_range_law by (cases w) auto

lemma writes_law:
  "ok t \<Longrightarrow> \<exists>t'. run_writes kv t ws = Inr t' \<and> ok t' \<and> snap t' = snap t \<and>
    pending t' = fold apply_write ws (pending t)"
proof (induction ws arbitrary: t)
  case (Cons w ws)
  obtain t1 where t1: "run_write kv t w = Inr t1" "ok t1" "snap t1 = snap t" "pending t1 = apply_write w (pending t)"
    using write_law [OF Cons.prems] by blast
  then show ?case using Cons.IH [OF t1(2)] by (auto simp: run_writes_def)
qed (simp add: run_writes_def)

lemma get_total: "ok t \<Longrightarrow> settled (kv_get kv t k)"
  by (simp add: get_law)

end

text \<open>With scans, which see the snapshot or the pending view.\<close>

locale kv_provider = kv_core kv snap pending ok
  for kv :: "('e, 't) kv_transaction" and snap pending seen :: "'t \<Rightarrow> kv_view" and ok :: "'t \<Rightarrow> bool" +
  assumes scan_law: "ok t \<Longrightarrow> \<exists>ks. kv_scan_keys kv t s e = Inr ks \<and> sorted_wrt (<) ks \<and>
      set ks = {k. s \<le> k \<and> k < e \<and> seen t k \<noteq> None}"
    and seen_law: "ok t \<Longrightarrow> seen t = snap t \<or> seen t = pending t"

lemma apply_write_outside:
  "(case w of WPut k v \<Rightarrow> x \<noteq> k | WDelete k \<Rightarrow> x \<noteq> k | WDeleteRange s e \<Rightarrow> \<not> (s \<le> x \<and> x < e)) \<Longrightarrow>
    apply_write w m x = m x"
  by (cases w) auto

end
