(* ===== verification/Mem_Kv.thy ===== *)
theory Mem_Kv
  imports Kv_Store
begin

text \<open>
  The in-memory store of \<^verbatim>\<open>rdb-pgsvc/src/memkv.rs\<close> (the mock store of the analyzer's tests
  is the same code). Every key carries a version; a deleted key stays as an entry without
  a value. A transaction works on copies of the store and its commit checks that the keys it
  wrote still have the versions it began with. The persistent red-black tree and the hash map of
  written keys are ordered maps; versions are 64-bit words that wrap.
\<close>

section \<open>Stores and transactions\<close>

type_synonym mem_map = "(bytes, bytes option \<times> 64 word) btree"

record mem_store =
  ms_data :: mem_map
  ms_txn_count :: "64 word"

record mem_transaction =
  mt_id :: "64 word"
  mt_read_buffer :: mem_map
  mt_buffer :: mem_map
  mt_modified :: "(bytes, 64 word) btree"

record mem_iterator =
  mi_map :: mem_map
  mi_current :: bytes
  mi_end :: bytes

definition mem_new :: mem_store where
  "mem_new = \<lparr>ms_data = [], ms_txn_count = 0\<rparr>"

definition mem_dump :: "mem_store \<Rightarrow> mem_map" where
  "mem_dump s = ms_data s"

definition begin_transaction :: "mem_store \<Rightarrow> mem_transaction \<times> mem_store" where
  "begin_transaction s =
     (\<lparr>mt_id = ms_txn_count s + 1, mt_read_buffer = ms_data s, mt_buffer = ms_data s, mt_modified = []\<rparr>,
      s\<lparr>ms_txn_count := ms_txn_count s + 1\<rparr>)"

section \<open>Operations\<close>

definition version_of :: "mem_map \<Rightarrow> bytes \<Rightarrow> 64 word" where
  "version_of m k = (case bt_get m k of Some x \<Rightarrow> snd x | None \<Rightarrow> 0)"

definition mem_get :: "mem_transaction \<Rightarrow> bytes \<Rightarrow> bytes option" where
  "mem_get t k = Option.bind (bt_get (mt_read_buffer t) k) fst"

definition mem_write :: "mem_transaction \<Rightarrow> bytes \<Rightarrow> bytes option \<Rightarrow> mem_transaction" where
  "mem_write t k v =
     (let version = version_of (mt_buffer t) k in
      t\<lparr>mt_buffer := bt_insert k (v, version + 1) (mt_buffer t),
        mt_modified := (if bt_get (mt_modified t) k = None then bt_insert k version (mt_modified t) else mt_modified t)\<rparr>)"

definition mem_put :: "mem_transaction \<Rightarrow> bytes \<Rightarrow> bytes \<Rightarrow> mem_transaction" where
  "mem_put t k v = mem_write t k (Some v)"

definition mem_delete :: "mem_transaction \<Rightarrow> bytes \<Rightarrow> mem_transaction" where
  "mem_delete t k = mem_write t k None"

definition mem_delete_range :: "mem_transaction \<Rightarrow> bytes \<Rightarrow> bytes \<Rightarrow> mem_transaction" where
  "mem_delete_range t s e =
     (let to_delete = map fst (bt_range s e (mt_buffer t)) in
      foldl (\<lambda>t k. mem_write t k None) t to_delete)"

definition mem_scan_keys :: "mem_transaction \<Rightarrow> bytes \<Rightarrow> bytes \<Rightarrow> mem_iterator" where
  "mem_scan_keys t s e = \<lparr>mi_map = mt_buffer t, mi_current = s, mi_end = e\<rparr>"

fun mem_next_loop ::
  "mem_iterator \<Rightarrow> (bytes \<times> bytes option \<times> 64 word) list \<Rightarrow> bytes option \<times> mem_iterator" where
  "mem_next_loop it [] = (None, it)"
| "mem_next_loop it ((k, v) # rest) =
     (let it' = it\<lparr>mi_current := k @ [0]\<rparr> in
      case fst v of Some _ \<Rightarrow> (Some k, it') | None \<Rightarrow> mem_next_loop it' rest)"

definition mem_next :: "mem_iterator \<Rightarrow> bytes option \<times> mem_iterator" where
  "mem_next it = mem_next_loop it (bt_range (mi_current it) (mi_end it) (mi_map it))"

text \<open>Calling \<open>next\<close> until it returns \<open>None\<close>.\<close>

fun mem_collect :: "nat \<Rightarrow> mem_iterator \<Rightarrow> bytes list option" where
  "mem_collect 0 it = None"
| "mem_collect (Suc n) it =
     (case mem_next it of
        (None, _) \<Rightarrow> Some []
      | (Some k, it') \<Rightarrow> map_option ((#) k) (mem_collect n it'))"

definition install :: "mem_map \<Rightarrow> mem_map \<Rightarrow> bytes \<times> 64 word \<Rightarrow> (kv_error, mem_map) outcome" where
  "install buf data x =
     bindR (unwrap ''called `Option::unwrap()` on a `None` value'' (bt_get buf (fst x))) (\<lambda>v.
     Inr (bt_insert (fst x) v data))"

definition mem_commit :: "mem_transaction \<Rightarrow> mem_store \<Rightarrow> (kv_error, mem_store) outcome" where
  "mem_commit t s =
     bindR (foldR (\<lambda>_ (k, initial_version).
         if version_of (ms_data s) k \<noteq> initial_version then Inl (Err Conflict) else Inr ()) () (mt_modified t)) (\<lambda>_.
     bindR (foldR (install (mt_buffer t)) (ms_data s) (mt_modified t)) (\<lambda>data.
     Inr (s\<lparr>ms_data := data\<rparr>)))"

text \<open>The store as a record of transaction operations, its scans read to the end.\<close>

definition mem_scan :: "mem_transaction \<Rightarrow> bytes \<Rightarrow> bytes \<Rightarrow> ('e, bytes list) outcome" where
  "mem_scan t s e =
     (case mem_collect (Suc (length (mt_buffer t))) (mem_scan_keys t s e) of
        Some ks \<Rightarrow> Inr ks | None \<Rightarrow> Inl OutOfFuel)"

definition mem_kv :: "('e, mem_transaction) kv_transaction" where
  "mem_kv = \<lparr>kv_get = (\<lambda>t k. Inr (mem_get t k)), kv_put = (\<lambda>t k v. Inr (mem_put t k v)),
     kv_delete = (\<lambda>t k. Inr (mem_delete t k)), kv_delete_range = (\<lambda>t s e. Inr (mem_delete_range t s e)),
     kv_scan_keys = mem_scan\<rparr>"

text \<open>
  Transactions that run side by side on one store: a step begins a transaction, applies one
  of its writes, commits it or drops it. \<open>mem_reach n\<close> holds of the systems that \<open>n\<close> steps reach from an
  empty store.
\<close>

record mem_system =
  sys_store :: mem_store
  sys_txns :: "nat \<rightharpoonup> mem_transaction"

inductive mem_step :: "mem_system \<Rightarrow> mem_system \<Rightarrow> bool" where
  step_begin: "sys_txns S i = None \<Longrightarrow> begin_transaction (sys_store S) = (t, s') \<Longrightarrow>
    mem_step S (S\<lparr>sys_store := s', sys_txns := (sys_txns S)(i \<mapsto> t)\<rparr>)"
| step_put: "sys_txns S i = Some t \<Longrightarrow> mem_step S (S\<lparr>sys_txns := (sys_txns S)(i \<mapsto> mem_put t k v)\<rparr>)"
| step_delete: "sys_txns S i = Some t \<Longrightarrow> mem_step S (S\<lparr>sys_txns := (sys_txns S)(i \<mapsto> mem_delete t k)\<rparr>)"
| step_delete_range: "sys_txns S i = Some t \<Longrightarrow>
    mem_step S (S\<lparr>sys_txns := (sys_txns S)(i \<mapsto> mem_delete_range t lo hi)\<rparr>)"
| step_commit: "sys_txns S i = Some t \<Longrightarrow> mem_commit t (sys_store S) = Inr s' \<Longrightarrow>
    mem_step S (S\<lparr>sys_store := s', sys_txns := (sys_txns S)(i := None)\<rparr>)"
| step_end: "sys_txns S i = Some t \<Longrightarrow> mem_step S (S\<lparr>sys_txns := (sys_txns S)(i := None)\<rparr>)"

inductive mem_reach :: "nat \<Rightarrow> mem_system \<Rightarrow> bool" where
  reach_new: "mem_reach 0 \<lparr>sys_store = mem_new, sys_txns = Map.empty\<rparr>"
| reach_step: "mem_reach n S \<Longrightarrow> mem_step S S' \<Longrightarrow> mem_reach (Suc n) S'"

section \<open>Writes\<close>

definition mem_view :: "mem_map \<Rightarrow> kv_view" where
  "mem_view m k = Option.bind (bt_get m k) fst"

definition mem_txn_ok :: "mem_transaction \<Rightarrow> bool" where
  "mem_txn_ok t \<longleftrightarrow> bt_ok (mt_read_buffer t) \<and> bt_ok (mt_buffer t) \<and> bt_ok (mt_modified t) \<and>
     (\<forall>k. bt_get (mt_modified t) k = None \<longrightarrow> bt_get (mt_buffer t) k = bt_get (mt_read_buffer t) k) \<and>
     (\<forall>k v. bt_get (mt_modified t) k = Some v \<longrightarrow>
        bt_get (mt_buffer t) k \<noteq> None \<and> v = version_of (mt_read_buffer t) k)"

lemma mem_write_simps:
  "mt_read_buffer (mem_write t k v) = mt_read_buffer t" "mt_id (mem_write t k v) = mt_id t"
  "bt_get (mt_buffer (mem_write t k v)) x =
     (if x = k then Some (v, version_of (mt_buffer t) k + 1) else bt_get (mt_buffer t) x)"
  "bt_get (mt_modified (mem_write t k v)) x =
     (if x = k \<and> bt_get (mt_modified t) k = None then Some (version_of (mt_buffer t) k) else bt_get (mt_modified t) x)"
  by (auto simp: mem_write_def Let_def bt_get_insert)

lemma version_of_cong: "bt_get a k = bt_get b k \<Longrightarrow> version_of a k = version_of b k"
  by (simp add: version_of_def)

lemma mem_write_ok:
  assumes "mem_txn_ok t"
  shows "mem_txn_ok (mem_write t k v)"
proof -
  have "bt_ok (mt_buffer (mem_write t k v))" "bt_ok (mt_modified (mem_write t k v))"
    using assms by (simp_all add: mem_txn_ok_def mem_write_def Let_def)
  then show ?thesis
    using assms version_of_cong [of "mt_buffer t" k "mt_read_buffer t"]
    unfolding mem_txn_ok_def mem_write_simps by auto
qed

lemma mem_write_view: "mem_view (mt_buffer (mem_write t k v)) = (mem_view (mt_buffer t))(k := v)"
  by (auto simp: mem_view_def mem_write_simps fun_eq_iff)

lemma mem_writes_fold:
  "mem_txn_ok t \<Longrightarrow> mem_txn_ok (foldl (\<lambda>t k. mem_write t k None) t ks) \<and>
    mt_read_buffer (foldl (\<lambda>t k. mem_write t k None) t ks) = mt_read_buffer t \<and>
    mem_view (mt_buffer (foldl (\<lambda>t k. mem_write t k None) t ks)) = (\<lambda>x. if x \<in> set ks then None else mem_view (mt_buffer t) x)"
proof (induction ks arbitrary: t)
  case (Cons k ks)
  then show ?case using Cons.IH [OF mem_write_ok [OF Cons.prems, of k None]]
    by (auto simp: mem_write_simps(1) mem_write_view fun_eq_iff)
qed simp

lemma mem_view_in_range:
  assumes "bt_ok m"
  shows "mem_view m k \<noteq> None \<Longrightarrow> s \<le> k \<Longrightarrow> k < e \<Longrightarrow> k \<in> set (map fst (bt_range s e m))"
  by (auto simp: mem_view_def bt_range_def bind_eq_Some_conv dest!: map_of_SomeD) (force)

lemma mem_delete_range_law:
  assumes "mem_txn_ok t"
  shows "mem_txn_ok (mem_delete_range t s e)" "mt_read_buffer (mem_delete_range t s e) = mt_read_buffer t"
    "mem_view (mt_buffer (mem_delete_range t s e)) = (\<lambda>k. if s \<le> k \<and> k < e then None else mem_view (mt_buffer t) k)"
proof -
  note * = mem_writes_fold [OF assms, of "map fst (bt_range s e (mt_buffer t))"]
  have "bt_ok (mt_buffer t)" using assms by (simp add: mem_txn_ok_def)
  then have "(\<lambda>x. if x \<in> set (map fst (bt_range s e (mt_buffer t))) then None else mem_view (mt_buffer t) x)
      = (\<lambda>k. if s \<le> k \<and> k < e then None else mem_view (mt_buffer t) k)"
    using mem_view_in_range [of "mt_buffer t" _ s e] by (fastforce simp: fun_eq_iff bt_range_def)
  with * show "mem_txn_ok (mem_delete_range t s e)" "mt_read_buffer (mem_delete_range t s e) = mt_read_buffer t"
    "mem_view (mt_buffer (mem_delete_range t s e)) = (\<lambda>k. if s \<le> k \<and> k < e then None else mem_view (mt_buffer t) k)"
    by (simp_all add: mem_delete_range_def)
qed

section \<open>Iterators\<close>

definition live_keys :: "mem_map \<Rightarrow> bytes \<Rightarrow> bytes \<Rightarrow> bytes list" where
  "live_keys m s e = map fst (filter (\<lambda>x. fst (snd x) \<noteq> None) (bt_range s e m))"

lemma after_key: "k @ [0] \<le> x \<longleftrightarrow> k < (x :: bytes)"
proof (induction k arbitrary: x)
  case Nil
  then show ?case by (cases x) (auto simp: word_neq_0_conv)
next
  case (Cons a k)
  then show ?case by (cases x) auto
qed

lemma range_after:
  fixes m :: "(bytes, 'v) btree"
  assumes "bt_ok m" "bt_range s e m = xs @ (k, v) # ys"
  shows "bt_range (k @ [0]) e m = ys"
proof -
  have srt: "sorted_wrt (<) (map fst (bt_range s e m))"
    using assms(1) by (simp add: bt_range_def bt_ok_def sorted_wrt_map sorted_wrt_filter)
  have "(k, v) \<in> set (bt_range s e m)" using assms(2) by simp
  then have "s \<le> k" by (simp add: bt_range_def)
  then have "bt_range (k @ [0]) e m = filter (\<lambda>x. k < fst x) (bt_range s e m)"
    by (auto simp: bt_range_def after_key dest: order.strict_trans1 [THEN order.strict_implies_order] intro!: filter_cong)
  also have "\<dots> = filter (\<lambda>x. k < fst x) xs @ filter (\<lambda>x. k < fst x) ys" by (simp add: assms(2))
  also have "filter (\<lambda>x. k < fst x) xs = []"
    using srt by (auto simp: assms(2) sorted_wrt_append filter_empty_conv)
  also have "filter (\<lambda>x. k < fst x) ys = ys"
    using srt by (auto simp: assms(2) sorted_wrt_append filter_id_conv)
  finally show ?thesis by simp
qed

lemma mem_next_loop_spec:
  "fst (mem_next_loop it xs) = (case filter (\<lambda>x. fst (snd x) \<noteq> None) xs of [] \<Rightarrow> None | x # _ \<Rightarrow> Some (fst x))"
  "filter (\<lambda>x. fst (snd x) \<noteq> None) xs = (k, v) # ys \<Longrightarrow> snd (mem_next_loop it xs) = it\<lparr>mi_current := k @ [0]\<rparr>"
  by (induction it xs rule: mem_next_loop.induct) (auto simp: Let_def split: option.splits)

lemma mem_collect_live:
  assumes "bt_ok (mi_map it)" "length (live_keys (mi_map it) (mi_current it) (mi_end it)) < n"
  shows "mem_collect n it = Some (live_keys (mi_map it) (mi_current it) (mi_end it))"
  using assms
proof (induction n arbitrary: it)
  case (Suc n)
  let ?r = "bt_range (mi_current it) (mi_end it) (mi_map it)" and ?live = "\<lambda>x :: bytes \<times> bytes option \<times> 64 word. fst (snd x) \<noteq> None"
  show ?case
  proof (cases "filter ?live ?r")
    case Nil
    then have "fst (mem_next it) = None" by (simp add: mem_next_def mem_next_loop_spec(1))
    then show ?thesis using Nil by (cases "mem_next it") (simp add: live_keys_def)
  next
    case (Cons x ys)
    obtain k v where x: "x = (k, v)" by (cases x) auto
    let ?it = "it\<lparr>mi_current := k @ [0]\<rparr>"
    have nxt: "mem_next it = (Some k, ?it)"
      using mem_next_loop_spec(1) [of it ?r] mem_next_loop_spec(2) [OF Cons [unfolded x], of it] Cons x
      by (simp add: mem_next_def prod_eq_iff)
    obtain us vs where uv: "?r = us @ (k, v) # vs" "ys = filter ?live vs"
      using Cons x by (auto simp: filter_eq_Cons_iff)
    have "live_keys (mi_map ?it) (mi_current ?it) (mi_end ?it) = map fst ys"
      using range_after [OF Suc.prems(1) uv(1)] uv(2) by (simp add: live_keys_def)
    moreover have "length ys < n" using Suc.prems(2) Cons by (simp add: live_keys_def)
    ultimately have "mem_collect n ?it = Some (map fst ys)" using Suc.IH [of ?it] Suc.prems(1) by simp
    then show ?thesis using nxt Cons x by (simp add: live_keys_def)
  qed
qed simp

section \<open>The store as a provider\<close>

lemma mem_scan_live:
  assumes "bt_ok (mt_buffer t)"
  shows "mem_scan t s e = Inr (live_keys (mt_buffer t) s e)"
proof -
  have "length (live_keys (mt_buffer t) s e) \<le> length (mt_buffer t)"
    unfolding live_keys_def bt_range_def by (simp add: le_trans [OF length_filter_le length_filter_le])
  then have "mem_collect (Suc (length (mt_buffer t))) (mem_scan_keys t s e) = Some (live_keys (mt_buffer t) s e)"
    using mem_collect_live [of "mem_scan_keys t s e"] assms by (simp add: mem_scan_keys_def del: mem_collect.simps)
  then show ?thesis by (simp only: mem_scan_def option.case)
qed

lemma live_keys_spec:
  assumes "bt_ok m"
  shows "sorted_wrt (<) (live_keys m s e)" "set (live_keys m s e) = {k. s \<le> k \<and> k < e \<and> mem_view m k \<noteq> None}"
proof -
  show "sorted_wrt (<) (live_keys m s e)"
    using assms by (simp add: live_keys_def bt_range_def bt_ok_def sorted_wrt_map sorted_wrt_filter)
  show "set (live_keys m s e) = {k. s \<le> k \<and> k < e \<and> mem_view m k \<noteq> None}"
    using bt_get_Some_iff [OF assms]
    by (auto simp: live_keys_def bt_range_def mem_view_def bind_eq_Some_conv image_iff) force+
qed

interpretation mem: kv_provider "mem_kv :: ('e, mem_transaction) kv_transaction"
  "\<lambda>t. mem_view (mt_read_buffer t)" "\<lambda>t. mem_view (mt_buffer t)" "\<lambda>t. mem_view (mt_buffer t)" mem_txn_ok
proof
  fix t :: mem_transaction and k v s e :: bytes assume t: "mem_txn_ok t"
  then have buf: "bt_ok (mt_buffer t)" by (simp add: mem_txn_ok_def)
  show "kv_get (mem_kv :: ('e, mem_transaction) kv_transaction) t k = Inr (mem_view (mt_read_buffer t) k)"
    by (simp add: mem_kv_def mem_get_def mem_view_def)
  show "\<exists>t'. kv_put (mem_kv :: ('e, mem_transaction) kv_transaction) t k v = Inr t' \<and> mem_txn_ok t' \<and>
      mem_view (mt_read_buffer t') = mem_view (mt_read_buffer t) \<and>
      mem_view (mt_buffer t') = (mem_view (mt_buffer t))(k \<mapsto> v)"
    using mem_write_ok [OF t] by (simp add: mem_kv_def mem_put_def mem_write_simps(1) mem_write_view)
  show "\<exists>t'. kv_delete (mem_kv :: ('e, mem_transaction) kv_transaction) t k = Inr t' \<and> mem_txn_ok t' \<and>
      mem_view (mt_read_buffer t') = mem_view (mt_read_buffer t) \<and>
      mem_view (mt_buffer t') = (mem_view (mt_buffer t))(k := None)"
    using mem_write_ok [OF t] by (simp add: mem_kv_def mem_delete_def mem_write_simps(1) mem_write_view)
  show "\<exists>t'. kv_delete_range (mem_kv :: ('e, mem_transaction) kv_transaction) t s e = Inr t' \<and> mem_txn_ok t' \<and>
      mem_view (mt_read_buffer t') = mem_view (mt_read_buffer t) \<and>
      mem_view (mt_buffer t') = (\<lambda>k. if s \<le> k \<and> k < e then None else mem_view (mt_buffer t) k)"
    using mem_delete_range_law [OF t] by (simp add: mem_kv_def)
  show "\<exists>ks. kv_scan_keys (mem_kv :: ('e, mem_transaction) kv_transaction) t s e = Inr ks \<and> sorted_wrt (<) ks \<and>
      set ks = {k. s \<le> k \<and> k < e \<and> mem_view (mt_buffer t) k \<noteq> None}"
    by (simp add: mem_kv_def mem_scan_live [OF buf] live_keys_spec [OF buf])
qed simp

section \<open>Commits\<close>

lemma check_versions:
  "foldR (\<lambda>_ (k, v). if version_of d k \<noteq> v then Inl (Err Conflict) else Inr ()) () xs =
    (if \<forall>(k, v) \<in> set xs. version_of d k = v then Inr () else Inl (Err Conflict))"
  by (induction xs) auto

lemma install_writes:
  "(\<forall>x \<in> set xs. bt_get buf (fst x) \<noteq> None) \<Longrightarrow> bt_ok d \<Longrightarrow>
   \<exists>d'. foldR (install buf) d xs = Inr d' \<and> bt_ok d' \<and>
     (\<forall>k. bt_get d' k = (if k \<in> fst ` set xs then bt_get buf k else bt_get d k))"
proof (induction xs arbitrary: d)
  case (Cons x xs)
  obtain v where v: "bt_get buf (fst x) = Some v" using Cons.prems(1) by auto
  obtain d' where "foldR (install buf) (bt_insert (fst x) v d) xs = Inr d'"
    "bt_ok d'" "\<forall>k. bt_get d' k = (if k \<in> fst ` set xs then bt_get buf k else bt_get (bt_insert (fst x) v d) k)"
    using Cons.IH [of "bt_insert (fst x) v d"] Cons.prems by auto
  moreover have "install buf d x = Inr (bt_insert (fst x) v d)" using v by (simp add: install_def)
  ultimately show ?case using v by (auto simp: bt_get_insert)
qed simp

lemma mem_commit_spec:
  assumes "mem_txn_ok t" "bt_ok (ms_data s)"
  shows "if \<exists>k v. bt_get (mt_modified t) k = Some v \<and> version_of (ms_data s) k \<noteq> v
    then mem_commit t s = Inl (Err Conflict)
    else \<exists>s'. mem_commit t s = Inr s' \<and> ms_txn_count s' = ms_txn_count s \<and> bt_ok (ms_data s') \<and>
      (\<forall>k. bt_get (ms_data s') k = (if bt_get (mt_modified t) k \<noteq> None then bt_get (mt_buffer t) k else bt_get (ms_data s) k))"
proof -
  have ok: "bt_ok (mt_modified t)" using assms(1) by (simp add: mem_txn_ok_def)
  have chk: "(\<forall>(k, v) \<in> set (mt_modified t). version_of (ms_data s) k = v) \<longleftrightarrow>
      \<not> (\<exists>k v. bt_get (mt_modified t) k = Some v \<and> version_of (ms_data s) k \<noteq> v)"
    using bt_get_Some_iff [OF ok] by auto
  have "\<forall>x \<in> set (mt_modified t). bt_get (mt_buffer t) (fst x) \<noteq> None"
    using assms(1) bt_get_Some_iff [OF ok] by (fastforce simp: mem_txn_ok_def)
  from install_writes [OF this assms(2)] obtain d' where
    d': "foldR (install (mt_buffer t)) (ms_data s) (mt_modified t) = Inr d'" "bt_ok d'"
      "\<forall>k. bt_get d' k = (if k \<in> fst ` set (mt_modified t) then bt_get (mt_buffer t) k else bt_get (ms_data s) k)"
    by blast
  have key: "k \<in> fst ` set (mt_modified t) \<longleftrightarrow> bt_get (mt_modified t) k \<noteq> None" for k
    by (simp add: map_of_eq_None_iff)
  show ?thesis
    using d'(2,3) unfolding key mem_commit_def check_versions chk d'(1) by auto
qed

section \<open>Concurrent transactions\<close>

text \<open>Versions are positive and bounded by the number of steps, so they do not wrap.\<close>

definition versions_ok :: "nat \<Rightarrow> mem_map \<Rightarrow> bool" where
  "versions_ok n m \<longleftrightarrow> bt_ok m \<and> (\<forall>k x. bt_get m k = Some x \<longrightarrow> 1 \<le> unat (snd x) \<and> unat (snd x) \<le> n)"

definition newer :: "mem_map \<Rightarrow> mem_map \<Rightarrow> bool" where
  "newer d m \<longleftrightarrow> (\<forall>k. unat (version_of m k) \<le> unat (version_of d k) \<and>
     (version_of m k = version_of d k \<longrightarrow> bt_get m k = bt_get d k))"

definition txn_inv :: "nat \<Rightarrow> mem_map \<Rightarrow> mem_transaction \<Rightarrow> bool" where
  "txn_inv n d t \<longleftrightarrow> mem_txn_ok t \<and> versions_ok n (mt_read_buffer t) \<and> versions_ok n (mt_buffer t) \<and>
     newer d (mt_read_buffer t) \<and>
     (\<forall>k v. bt_get (mt_modified t) k = Some v \<longrightarrow> unat v < unat (version_of (mt_buffer t) k))"

definition sys_inv :: "nat \<Rightarrow> mem_system \<Rightarrow> bool" where
  "sys_inv n S \<longleftrightarrow> versions_ok n (ms_data (sys_store S)) \<and>
     (\<forall>i t. sys_txns S i = Some t \<longrightarrow> txn_inv n (ms_data (sys_store S)) t)"

text \<open>A write to the keys \<open>K\<close>: each gets the next version and its first version is remembered.\<close>

definition wrote :: "bytes set \<Rightarrow> mem_transaction \<Rightarrow> mem_transaction \<Rightarrow> bool" where
  "wrote K t t' \<longleftrightarrow> mt_read_buffer t' = mt_read_buffer t \<and>
     (\<forall>k. if k \<in> K then (\<exists>v. bt_get (mt_buffer t') k = Some (v, version_of (mt_buffer t) k + 1)) \<and>
            bt_get (mt_modified t') k = (case bt_get (mt_modified t) k of None \<Rightarrow> Some (version_of (mt_buffer t) k) | Some v \<Rightarrow> Some v)
          else bt_get (mt_buffer t') k = bt_get (mt_buffer t) k \<and> bt_get (mt_modified t') k = bt_get (mt_modified t) k)"

lemma wrote_modified:
  "wrote K t t' \<Longrightarrow> k \<in> K \<Longrightarrow> bt_get (mt_modified t') k =
    (case bt_get (mt_modified t) k of None \<Rightarrow> Some (version_of (mt_buffer t) k) | Some v \<Rightarrow> Some v)"
  unfolding wrote_def by meson

lemma wrote_write: "wrote {k} t (mem_write t k v)"
  by (auto simp: wrote_def mem_write_simps split: option.split)

lemma wrote_writes: "distinct ks \<Longrightarrow> wrote (set ks) t (foldl (\<lambda>t k. mem_write t k None) t ks)"
proof (induction ks rule: rev_induct)
  case (snoc k ks)
  then have IH: "wrote (set ks) t (foldl (\<lambda>t k. mem_write t k None) t ks)" and k: "k \<notin> set ks" by auto
  then have "version_of (mt_buffer (foldl (\<lambda>t k. mem_write t k None) t ks)) k = version_of (mt_buffer t) k"
    by (auto simp: wrote_def version_of_def)
  with IH k show ?case by (auto simp: wrote_def mem_write_simps split: option.split)
qed (simp add: wrote_def)

lemma wrote_delete_range:
  assumes "bt_ok (mt_buffer t)"
  shows "wrote (set (map fst (bt_range s e (mt_buffer t)))) t (mem_delete_range t s e)"
proof -
  have "distinct (map fst (bt_range s e (mt_buffer t)))"
    using bt_ok_distinct [OF bt_ok_filter [OF assms]] by (simp add: bt_range_def)
  from wrote_writes [OF this] show ?thesis by (simp add: mem_delete_range_def)
qed

lemma version_le: "versions_ok n m \<Longrightarrow> unat (version_of m k) \<le> n"
  by (auto simp: versions_ok_def version_of_def split: option.splits)

lemma version_succ:
  assumes "versions_ok n m" "Suc n < 2 ^ 64"
  shows "unat (version_of m k + 1) = Suc (unat (version_of m k))"
proof -
  have "unat (version_of m k) + 1 < 2 ^ 64" using version_le [OF assms(1), of k] assms(2) by simp
  then show ?thesis by (simp add: unat_word_ariths)
qed

lemma versions_ok_mono: "versions_ok n m \<Longrightarrow> n \<le> n' \<Longrightarrow> versions_ok n' m"
  by (auto simp: versions_ok_def) (meson le_trans)

lemma txn_inv_mono: "txn_inv n d t \<Longrightarrow> txn_inv (Suc n) d t"
  by (auto simp: txn_inv_def intro: versions_ok_mono)

lemma txn_inv_wrote:
  assumes t: "txn_inv n d t" and w: "wrote K t t'" and "mem_txn_ok t'" "Suc n < 2 ^ 64"
  shows "txn_inv (Suc n) d t'"
proof -
  have buf: "versions_ok n (mt_buffer t)" and read: "mt_read_buffer t' = mt_read_buffer t"
    using t w by (auto simp: txn_inv_def wrote_def)
  have ver: "unat (version_of (mt_buffer t') k) = Suc (unat (version_of (mt_buffer t) k))" if k: "k \<in> K" for k
  proof -
    obtain v where "bt_get (mt_buffer t') k = Some (v, version_of (mt_buffer t) k + 1)"
      using w k unfolding wrote_def by meson
    then show ?thesis using version_succ [OF buf assms(4), of k] by (simp add: version_of_def [of "mt_buffer t'"])
  qed
  have same: "bt_get (mt_buffer t') k = bt_get (mt_buffer t) k" "bt_get (mt_modified t') k = bt_get (mt_modified t) k"
    if "k \<notin> K" for k
    using w that by (auto simp: wrote_def)
  have "1 \<le> unat (snd x) \<and> unat (snd x) \<le> Suc n" if "bt_get (mt_buffer t') k = Some x" for k x
  proof (cases "k \<in> K")
    case True
    then have "unat (snd x) = Suc (unat (version_of (mt_buffer t) k))"
      using ver [OF True] that by (simp add: version_of_def [of "mt_buffer t'"])
    then show ?thesis using version_le [OF buf, of k] by simp
  next
    case False
    then have "bt_get (mt_buffer t) k = Some x" using same(1) that by simp
    then show ?thesis using buf unfolding versions_ok_def by (meson le_SucI)
  qed
  then have "versions_ok (Suc n) (mt_buffer t')" using assms(3) by (simp add: versions_ok_def mem_txn_ok_def)
  moreover have "unat v < unat (version_of (mt_buffer t') k)" if "bt_get (mt_modified t') k = Some v" for k v
  proof (cases "k \<in> K")
    case True
    then have "bt_get (mt_modified t) k = Some v \<or> v = version_of (mt_buffer t) k"
      using wrote_modified [OF w True] that by (auto split: option.splits)
    moreover have "bt_get (mt_modified t) k = Some v \<Longrightarrow> unat v < unat (version_of (mt_buffer t) k)"
      using t unfolding txn_inv_def by blast
    ultimately have "unat v \<le> unat (version_of (mt_buffer t) k)" by (metis order.refl order.strict_implies_order)
    then show ?thesis using ver [OF True] by simp
  next
    case False
    then have "bt_get (mt_modified t) k = Some v" "version_of (mt_buffer t') k = version_of (mt_buffer t) k"
      using same [OF False] that version_of_cong [OF same(1) [OF False]] by simp_all
    then show ?thesis using t unfolding txn_inv_def by metis
  qed
  ultimately show ?thesis
    using t read assms(3) versions_ok_mono [of n "mt_read_buffer t" "Suc n"] by (auto simp: txn_inv_def)
qed

lemma conflict_iff:
  assumes "txn_inv n d t" "bt_get (mt_modified t) k = Some v"
  shows "version_of d k = v \<longleftrightarrow> bt_get d k = bt_get (mt_read_buffer t) k"
proof -
  have v: "v = version_of (mt_read_buffer t) k" using assms by (auto simp: txn_inv_def mem_txn_ok_def)
  have "version_of (mt_read_buffer t) k = version_of d k \<longrightarrow> bt_get (mt_read_buffer t) k = bt_get d k"
    using assms(1) by (auto simp: txn_inv_def newer_def)
  then show ?thesis using v version_of_cong [of d k "mt_read_buffer t"] by auto
qed

lemma commit_inv:
  assumes S: "sys_inv n S" and t: "sys_txns S i = Some t" and c: "mem_commit t (sys_store S) = Inr s'"
  shows "sys_inv n (S\<lparr>sys_store := s', sys_txns := (sys_txns S)(i := None)\<rparr>)"
proof -
  let ?d = "ms_data (sys_store S)" and ?d' = "ms_data s'"
  have inv: "txn_inv n ?d t" "versions_ok n ?d" using S t by (auto simp: sys_inv_def)
  then have ok: "mem_txn_ok t" "bt_ok ?d" by (auto simp: txn_inv_def versions_ok_def)
  have match: "\<forall>k v. bt_get (mt_modified t) k = Some v \<longrightarrow> version_of ?d k = v" and "bt_ok ?d'" and
    d': "bt_get ?d' k = (if bt_get (mt_modified t) k \<noteq> None then bt_get (mt_buffer t) k else bt_get ?d k)" for k
    using mem_commit_spec [OF ok] c by (auto split: if_splits)
  then have "versions_ok n ?d'"
    using inv by (auto simp: versions_ok_def txn_inv_def split: if_splits)
  moreover have "newer ?d' m" if m: "newer ?d m" for m
    unfolding newer_def
  proof
    fix k
    show "unat (version_of m k) \<le> unat (version_of ?d' k) \<and>
        (version_of m k = version_of ?d' k \<longrightarrow> bt_get m k = bt_get ?d' k)"
    proof (cases "bt_get (mt_modified t) k")
      case None
      then show ?thesis using d' [of k] version_of_cong [of ?d' k ?d] m by (simp add: newer_def)
    next
      case (Some v)
      then have "unat (version_of ?d k) < unat (version_of ?d' k)"
        using match d' [of k] version_of_cong [of ?d' k "mt_buffer t"] inv(1) by (auto simp: txn_inv_def)
      moreover have "unat (version_of m k) \<le> unat (version_of ?d k)" using m by (simp add: newer_def)
      ultimately show ?thesis by auto
    qed
  qed
  ultimately show ?thesis using S by (auto simp: sys_inv_def txn_inv_def)
qed

lemma sys_inv_Suc: "sys_inv n S \<Longrightarrow> sys_inv (Suc n) S"
  by (auto simp: sys_inv_def txn_inv_mono intro: versions_ok_mono)

lemma sys_inv_txn:
  "sys_inv n S \<Longrightarrow> txn_inv (Suc n) (ms_data (sys_store S)) t \<Longrightarrow> sys_inv (Suc n) (S\<lparr>sys_txns := (sys_txns S)(i \<mapsto> t)\<rparr>)"
  by (auto simp: sys_inv_def txn_inv_mono intro: versions_ok_mono)

lemma mem_step_inv:
  assumes "mem_step S S'" "sys_inv n S" "Suc n < 2 ^ 64"
  shows "sys_inv (Suc n) S'"
  using assms(1)
proof cases
  case (step_begin i t s')
  then have t: "t = fst (begin_transaction (sys_store S))" "s' = snd (begin_transaction (sys_store S))" by auto
  have "txn_inv n (ms_data (sys_store S)) t"
    using assms(2) by (auto simp: t sys_inv_def txn_inv_def begin_transaction_def mem_txn_ok_def versions_ok_def
        newer_def bt_ok_def)
  then show ?thesis
    using assms(2) step_begin t by (auto simp: sys_inv_def begin_transaction_def txn_inv_mono intro: versions_ok_mono)
next
  case (step_put i t k v)
  then have t: "txn_inv n (ms_data (sys_store S)) t" using assms(2) by (simp add: sys_inv_def)
  then have "mem_txn_ok t" by (simp add: txn_inv_def)
  then show ?thesis using txn_inv_wrote [OF t wrote_write mem_write_ok assms(3)] sys_inv_txn [OF assms(2)] step_put
    by (simp add: mem_put_def)
next
  case (step_delete i t k)
  then have t: "txn_inv n (ms_data (sys_store S)) t" using assms(2) by (simp add: sys_inv_def)
  then have "mem_txn_ok t" by (simp add: txn_inv_def)
  then show ?thesis using txn_inv_wrote [OF t wrote_write mem_write_ok assms(3)] sys_inv_txn [OF assms(2)] step_delete
    by (simp add: mem_delete_def)
next
  case (step_delete_range i t lo hi)
  then have t: "txn_inv n (ms_data (sys_store S)) t" using assms(2) by (simp add: sys_inv_def)
  then have ok: "mem_txn_ok t" "bt_ok (mt_buffer t)" by (auto simp: txn_inv_def mem_txn_ok_def)
  then show ?thesis
    using txn_inv_wrote [OF t wrote_delete_range [OF ok(2)] mem_delete_range_law(1) [OF ok(1)] assms(3)]
      sys_inv_txn [OF assms(2)] step_delete_range by simp
next
  case (step_commit i t s')
  then show ?thesis using commit_inv [OF assms(2)] sys_inv_Suc by simp
next
  case (step_end i t)
  then show ?thesis using sys_inv_Suc [OF assms(2)] by (auto simp: sys_inv_def)
qed

lemma mem_reach_inv: "mem_reach n S \<Longrightarrow> n < 2 ^ 64 \<Longrightarrow> sys_inv n S"
proof (induction rule: mem_reach.induct)
  case reach_new
  show ?case by (simp add: sys_inv_def mem_new_def versions_ok_def bt_ok_def)
next
  case (reach_step n S S')
  then show ?case using mem_step_inv by simp
qed

text \<open>
  C14. No lost updates: in every interleaving of transactions (of fewer than \<open>2 ^ 64\<close> steps), a commit
  succeeds exactly when each key the transaction wrote still has the content its
  snapshot saw; it then installs precisely the transaction's writes. Otherwise it
  reports a conflict and leaves the store alone.
\<close>

theorem no_lost_updates:
  assumes "mem_reach n S" "n < 2 ^ 64" "sys_txns S i = Some t"
  shows "if \<forall>k. bt_get (mt_modified t) k \<noteq> None \<longrightarrow> bt_get (ms_data (sys_store S)) k = bt_get (mt_read_buffer t) k
    then \<exists>s'. mem_commit t (sys_store S) = Inr s' \<and>
      (\<forall>k. bt_get (ms_data s') k = (if bt_get (mt_modified t) k \<noteq> None then bt_get (mt_buffer t) k
         else bt_get (ms_data (sys_store S)) k))
    else mem_commit t (sys_store S) = Inl (Err Conflict)"
proof -
  have inv: "txn_inv n (ms_data (sys_store S)) t" "versions_ok n (ms_data (sys_store S))"
    using mem_reach_inv [OF assms(1,2)] assms(3) by (auto simp: sys_inv_def)
  then have ok: "mem_txn_ok t" "bt_ok (ms_data (sys_store S))" by (auto simp: txn_inv_def versions_ok_def)
  let ?same = "\<forall>k. bt_get (mt_modified t) k \<noteq> None \<longrightarrow> bt_get (ms_data (sys_store S)) k = bt_get (mt_read_buffer t) k"
  have eq: "(\<exists>k v. bt_get (mt_modified t) k = Some v \<and> version_of (ms_data (sys_store S)) k \<noteq> v) \<longleftrightarrow> \<not> ?same"
    using conflict_iff [OF inv(1)] by fastforce
  have split: "(if \<not> P then A else \<exists>s. f s \<and> g s \<and> h s \<and> q s) \<Longrightarrow> (if P then \<exists>s. f s \<and> q s else A)" for P A f g h q
    by auto
  show ?thesis by (rule split [OF mem_commit_spec [OF ok, unfolded eq]])
qed


text \<open>Two transactions that began together and wrote the same key: the second commit conflicts.\<close>

definition race_txn :: mem_transaction where
  "race_txn = mem_put (fst (begin_transaction mem_new)) [1] [7]"

lemma race_txn_eq:
  "race_txn = \<lparr>mt_id = 1, mt_read_buffer = [], mt_buffer = [([1], Some [7], 1)], mt_modified = [([1], 0)]\<rparr>"
  by (simp add: race_txn_def mem_put_def mem_write_def begin_transaction_def mem_new_def version_of_def Let_def)

lemma race_reach:
  "mem_reach 3 \<lparr>sys_store = snd (begin_transaction (snd (begin_transaction mem_new))),
     sys_txns = [0 \<mapsto> race_txn, 1 \<mapsto> fst (begin_transaction (snd (begin_transaction mem_new)))]\<rparr>"
proof -
  let ?s1 = "snd (begin_transaction mem_new)" and ?t0 = "fst (begin_transaction mem_new)"
  let ?s2 = "snd (begin_transaction ?s1)" and ?t1 = "fst (begin_transaction ?s1)"
  have "mem_step \<lparr>sys_store = mem_new, sys_txns = Map.empty\<rparr> \<lparr>sys_store = ?s1, sys_txns = [0 \<mapsto> ?t0]\<rparr>"
    using step_begin [of "\<lparr>sys_store = mem_new, sys_txns = Map.empty\<rparr>" 0 ?t0 ?s1] by simp
  moreover have "mem_step \<lparr>sys_store = ?s1, sys_txns = [0 \<mapsto> ?t0]\<rparr> \<lparr>sys_store = ?s2, sys_txns = [0 \<mapsto> ?t0, 1 \<mapsto> ?t1]\<rparr>"
    using step_begin [of "\<lparr>sys_store = ?s1, sys_txns = [0 \<mapsto> ?t0]\<rparr>" 1 ?t1 ?s2] by simp
  moreover have "mem_step \<lparr>sys_store = ?s2, sys_txns = [0 \<mapsto> ?t0, 1 \<mapsto> ?t1]\<rparr> \<lparr>sys_store = ?s2, sys_txns = [0 \<mapsto> race_txn, 1 \<mapsto> ?t1]\<rparr>"
    using step_put [of "\<lparr>sys_store = ?s2, sys_txns = [0 \<mapsto> ?t0, 1 \<mapsto> ?t1]\<rparr>" 0 ?t0 "[1]" "[7]"]
    by (simp add: race_txn_def fun_upd_twist)
  ultimately have "mem_reach (Suc (Suc (Suc 0))) \<lparr>sys_store = ?s2, sys_txns = [0 \<mapsto> race_txn, 1 \<mapsto> ?t1]\<rparr>"
    using reach_step [OF reach_step [OF reach_step [OF reach_new]]] by blast
  then show ?thesis by (simp add: numeral_3_eq_3)
qed

theorem no_lost_updates_witness:
  "\<exists>s'. mem_commit race_txn (snd (begin_transaction (snd (begin_transaction mem_new)))) = Inr s' \<and>
    bt_get (ms_data s') [1] = Some (Some [7], 1)"
  using no_lost_updates [OF race_reach, of 0 race_txn]
  by (auto simp: race_txn_eq begin_transaction_def mem_new_def)

lemma run_write_read_buffer:
  "mem_txn_ok t \<Longrightarrow> run_write (mem_kv :: ('e, mem_transaction) kv_transaction) t w = Inr t' \<Longrightarrow>
    mem_txn_ok t' \<and> mt_read_buffer t' = mt_read_buffer t"
  by (cases w) (auto simp: mem_kv_def mem_put_def mem_delete_def mem_write_simps mem_write_ok mem_delete_range_law)

lemma run_writes_read_buffer:
  assumes "run_writes (mem_kv :: ('e, mem_transaction) kv_transaction) t ws = Inr t'" "mem_txn_ok t"
  shows "mem_txn_ok t' \<and> mt_read_buffer t' = mt_read_buffer t"
proof (rule foldR_invariant [OF assms(1) [unfolded run_writes_def]])
  fix u w u' assume "mem_txn_ok u \<and> mt_read_buffer u = mt_read_buffer t"
    "run_write (mem_kv :: ('e, mem_transaction) kv_transaction) u w = Inr u'"
  then show "mem_txn_ok u' \<and> mt_read_buffer u' = mt_read_buffer t" using run_write_read_buffer by metis
qed (use assms(2) in simp)

lemma mem_begin_ok: "bt_ok (ms_data s) \<Longrightarrow> mem_txn_ok (fst (begin_transaction s))"
  by (simp add: begin_transaction_def mem_txn_ok_def)

lemma own_commit:
  assumes "mem_txn_ok t" "mt_read_buffer t = ms_data s" "bt_ok (ms_data s)"
  shows "\<exists>s'. mem_commit t s = Inr s' \<and> mem_view (ms_data s') = mem_view (mt_buffer t) \<and> bt_ok (ms_data s')"
proof -
  have "\<not> (\<exists>k v. bt_get (mt_modified t) k = Some v \<and> version_of (ms_data s) k \<noteq> v)"
    using assms(1,2) by (auto simp: mem_txn_ok_def)
  from mem_commit_spec [OF assms(1,3), unfolded if_not_P [OF this]]
  obtain s' where s': "bt_ok (ms_data s')" "mem_commit t s = Inr s'" "\<forall>k. bt_get (ms_data s') k =
      (if bt_get (mt_modified t) k \<noteq> None then bt_get (mt_buffer t) k else bt_get (ms_data s) k)"
    by blast
  have "mem_view (ms_data s') = mem_view (mt_buffer t)"
    using s'(3) assms(1,2) by (auto simp: mem_view_def mem_txn_ok_def fun_eq_iff)
  then show ?thesis using s'(1,2) by blast
qed

text \<open>
  A transaction that runs alone has the effect of its writes: after begin, any list of
  puts, deletes and range deletes, and commit, the store holds exactly what the
  writes make of its former content.
\<close>

lemma serial_commit:
  assumes "bt_ok (ms_data s)" "begin_transaction s = (t, s1)"
  shows "\<exists>t' s'. run_writes (mem_kv :: ('e, mem_transaction) kv_transaction) t ws = Inr t' \<and> mem_commit t' s1 = Inr s' \<and>
    mem_view (ms_data s') = fold apply_write ws (mem_view (ms_data s)) \<and> bt_ok (ms_data s')"
proof -
  have t: "mem_txn_ok t" "mt_read_buffer t = ms_data s" "mt_buffer t = ms_data s" "ms_data s1 = ms_data s"
    using assms by (auto simp: begin_transaction_def mem_txn_ok_def bt_ok_def)
  obtain t' where t': "run_writes (mem_kv :: ('e, mem_transaction) kv_transaction) t ws = Inr t'"
    "mem_view (mt_buffer t') = fold apply_write ws (mem_view (mt_buffer t))"
    using mem.writes_law [OF t(1)] by blast
  have "mem_txn_ok t'" "mt_read_buffer t' = ms_data s1"
    using run_writes_read_buffer [OF t'(1) t(1)] t(2,4) by auto
  then show ?thesis using own_commit [of t' s1] assms(1) t' t(3,4) by auto
qed

text \<open>
  Scanning: the keys that repeated calls of \<open>next\<close> yield are exactly the keys of the range that have a value
  in the transaction's buffer, in ascending order, and the calls end. In this store a
  scan sees the transaction's own writes, while \<open>get\<close> does not.
\<close>

theorem scan_yields_live_keys:
  assumes "mem_txn_ok t"
  shows "\<exists>ks. mem_collect (Suc (length (mt_buffer t))) (mem_scan_keys t s e) = Some ks \<and> sorted_wrt (<) ks \<and>
    set ks = {k. s \<le> k \<and> k < e \<and> mem_view (mt_buffer t) k \<noteq> None}"
proof -
  have ok: "bt_ok (mt_buffer t)" using assms by (simp add: mem_txn_ok_def)
  have "mem_scan t s e = (Inr (live_keys (mt_buffer t) s e) :: (unit, _) outcome)" by (rule mem_scan_live [OF ok])
  then have "mem_collect (Suc (length (mt_buffer t))) (mem_scan_keys t s e) = Some (live_keys (mt_buffer t) s e)"
    unfolding mem_scan_def by (auto simp del: mem_collect.simps split: option.splits)
  then show ?thesis using live_keys_spec [OF ok] by blast
qed

theorem scan_yields_live_keys_witness:
  "\<exists>ks. mem_collect (Suc (length (mt_buffer race_txn))) (mem_scan_keys race_txn [] [9]) = Some ks \<and> set ks = {[1]} \<and>
    mem_get race_txn [1] = None"
proof -
  have t: "mem_txn_ok race_txn"
    unfolding race_txn_def mem_put_def
    by (rule mem_write_ok) (simp add: begin_transaction_def mem_txn_ok_def mem_new_def bt_ok_def)
  have "{k. [] \<le> k \<and> k < [9] \<and> mem_view (mt_buffer race_txn) k \<noteq> None} = {[1]}"
    by (auto simp: race_txn_eq mem_view_def split: if_splits)
  with scan_yields_live_keys [OF t, of "[]" "[9]"] show ?thesis
    by (auto simp: race_txn_eq mem_get_def simp del: mem_collect.simps)
qed

end
