(* ===== verification/Sqlite_Kv.thy ===== *)
theory Sqlite_Kv
  imports Mem_Kv
begin

text \<open>
  The SQLite store of \<^verbatim>\<open>rdb-server/src/kv_backend/sqlite.rs\<close>. A transaction owns a worker that
  holds an open SQLite transaction; writes are collected in a log and replayed as SQL statements
  by the commit. SQLite itself is a parameter: the record \<open>rusqlite\<close> has one function per
  statement that the source prepares, on a state \<open>'d\<close> of the open transaction, and
  \<open>sqlite_laws\<close> states what those statements are documented to do. The channels between a
  transaction and its worker are calls; a worker whose transaction could not be opened is gone.
\<close>


section \<open>Transactions\<close>

datatype mod_op = MPut bytes bytes | MDelete bytes | MDeleteRange bytes bytes

datatype sqlite_error = SqliteFailure "string option" | OtherSqliteError | Interrupted

record 'd rusqlite =
  sql_select_value :: "string \<Rightarrow> bytes \<Rightarrow> 'd \<Rightarrow> (sqlite_error, bytes option) outcome"
  sql_select_keys_desc :: "string \<Rightarrow> bytes \<Rightarrow> bytes \<Rightarrow> 'd \<Rightarrow> (sqlite_error, bytes list) outcome"
  sql_upsert :: "string \<Rightarrow> bytes \<Rightarrow> bytes \<Rightarrow> 'd \<Rightarrow> (sqlite_error, 'd) outcome"
  sql_delete :: "string \<Rightarrow> bytes \<Rightarrow> 'd \<Rightarrow> (sqlite_error, 'd) outcome"
  sql_delete_range :: "string \<Rightarrow> bytes \<Rightarrow> bytes \<Rightarrow> 'd \<Rightarrow> (sqlite_error, 'd) outcome"
  sql_commit :: "'d \<Rightarrow> (sqlite_error, 'd) outcome"

datatype 'd txn_worker = WorkerGone | Worker "'d option"

record sqlite_store =
  ss_table :: string
  ss_prefix :: bytes

record 'd sqlite_txn =
  st_worker :: "'d txn_worker"
  st_log :: "mod_op list"
  st_table :: string
  st_prefix :: bytes

definition sqlite_new :: "string \<Rightarrow> bytes \<Rightarrow> sqlite_store" where
  "sqlite_new table pre = \<lparr>ss_table = table, ss_prefix = pre\<rparr>"

fun start_worker :: "(sqlite_error, 'd) outcome \<Rightarrow> 'd txn_worker" where
  "start_worker (Inr txn) = Worker (Some txn)"
| "start_worker (Inl e) = WorkerGone"

definition sqlite_begin :: "(sqlite_error, 'd) outcome \<Rightarrow> sqlite_store \<Rightarrow> 'd sqlite_txn" where
  "sqlite_begin transaction s =
     \<lparr>st_worker = start_worker transaction, st_log = [], st_table = ss_table s, st_prefix = ss_prefix s\<rparr>"

fun run_work :: "'d txn_worker \<Rightarrow> ('d option \<Rightarrow> (sqlite_error, 'a) outcome) \<Rightarrow> (sqlite_error, 'a) outcome" where
  "run_work WorkerGone f = Inl (Err Interrupted)"
| "run_work (Worker txn) f = f txn"

definition sqlite_get :: "'d rusqlite \<Rightarrow> 'd sqlite_txn \<Rightarrow> bytes \<Rightarrow> (sqlite_error, bytes option) outcome" where
  "sqlite_get S t key =
     run_work (st_worker t) (\<lambda>txn.
       bindR (unwrap ''called `Option::unwrap()` on a `None` value'' txn) (\<lambda>d.
       sql_select_value S (st_table t) (st_prefix t @ key) d))"

definition sqlite_put :: "'d sqlite_txn \<Rightarrow> bytes \<Rightarrow> bytes \<Rightarrow> 'd sqlite_txn" where
  "sqlite_put t key value = t\<lparr>st_log := st_log t @ [MPut (st_prefix t @ key) value]\<rparr>"

definition sqlite_delete :: "'d sqlite_txn \<Rightarrow> bytes \<Rightarrow> 'd sqlite_txn" where
  "sqlite_delete t key = t\<lparr>st_log := st_log t @ [MDelete (st_prefix t @ key)]\<rparr>"

definition sqlite_delete_range :: "'d sqlite_txn \<Rightarrow> bytes \<Rightarrow> bytes \<Rightarrow> 'd sqlite_txn" where
  "sqlite_delete_range t s e =
     t\<lparr>st_log := st_log t @ [MDeleteRange (st_prefix t @ s) (st_prefix t @ e)]\<rparr>"

text \<open>\<open>x[prefix_len..]\<close> panics when the key is shorter.\<close>

definition strip_key :: "nat \<Rightarrow> bytes \<Rightarrow> ('e, bytes) outcome" where
  "strip_key n x = (if n \<le> length x then Inr (drop n x) else Inl (Panic ''range start index out of range''))"

definition sqlite_scan_keys ::
  "'d rusqlite \<Rightarrow> 'd sqlite_txn \<Rightarrow> bytes \<Rightarrow> bytes \<Rightarrow> (sqlite_error, bytes list) outcome" where
  "sqlite_scan_keys S t s e =
     run_work (st_worker t) (\<lambda>txn.
       bindR (unwrap ''called `Option::unwrap()` on a `None` value'' txn) (\<lambda>d.
       bindR (sql_select_keys_desc S (st_table t) (st_prefix t @ s) (st_prefix t @ e) d) (\<lambda>keys.
       mapR (strip_key (length (st_prefix t))) keys)))"

definition sqlite_next :: "bytes list \<Rightarrow> bytes option \<times> bytes list" where
  "sqlite_next keys = (if keys = [] then (None, []) else (Some (last keys), butlast keys))"

function sqlite_collect :: "bytes list \<Rightarrow> bytes list" where
  "sqlite_collect keys =
     (case sqlite_next keys of (None, _) \<Rightarrow> [] | (Some k, rest) \<Rightarrow> k # sqlite_collect rest)"
  by auto
termination by (relation "measure length") (auto simp: sqlite_next_def split: if_splits)

fun replay_op :: "'d rusqlite \<Rightarrow> string \<Rightarrow> 'd \<Rightarrow> mod_op \<Rightarrow> (sqlite_error, 'd) outcome" where
  "replay_op S table d (MPut key value) = sql_upsert S table key value d"
| "replay_op S table d (MDelete key) = sql_delete S table key d"
| "replay_op S table d (MDeleteRange s e) = sql_delete_range S table s e d"

fun commit_error :: "sqlite_error \<Rightarrow> kv_error" where
  "commit_error (SqliteFailure (Some reason)) =
     (if reason = ''database is locked'' then Conflict else CommitStateUnknown)"
| "commit_error _ = CommitStateUnknown"

definition commit_work :: "'d rusqlite \<Rightarrow> 'd sqlite_txn \<Rightarrow> (sqlite_error, 'd) outcome" where
  "commit_work S t =
     run_work (st_worker t) (\<lambda>txn.
       bindR (unwrap ''called `Option::unwrap()` on a `None` value'' txn) (\<lambda>d.
       bindR (foldR (replay_op S (st_table t)) d (st_log t)) (sql_commit S)))"

definition sqlite_commit :: "'d rusqlite \<Rightarrow> 'd sqlite_txn \<Rightarrow> (kv_error, 'd) outcome" where
  "sqlite_commit S t =
     (case commit_work S t of
        Inr d \<Rightarrow> Inr d
      | Inl (Err e) \<Rightarrow> Inl (Err (commit_error e))
      | Inl (Panic m) \<Rightarrow> Inl (Panic m)
      | Inl OutOfFuel \<Rightarrow> Inl OutOfFuel)"

definition sqlite_kv :: "'d rusqlite \<Rightarrow> (sqlite_error, 'd sqlite_txn) kv_transaction" where
  "sqlite_kv S = \<lparr>kv_get = sqlite_get S, kv_put = (\<lambda>t k v. Inr (sqlite_put t k v)),
     kv_delete = (\<lambda>t k. Inr (sqlite_delete t k)), kv_delete_range = (\<lambda>t s e. Inr (sqlite_delete_range t s e)),
     kv_scan_keys = (\<lambda>t s e. bindR (sqlite_scan_keys S t s e) (\<lambda>keys. Inr (sqlite_collect keys)))\<rparr>"

section \<open>What the database promises\<close>

text \<open>
  \<open>view d table\<close> is the content of a table that the open transaction \<open>d\<close> sees. Reads
  return it, keys in descending byte order; a write either fails or has the effect its
  statement describes; a commit either fails or keeps the view.
\<close>

definition effect :: "('d \<Rightarrow> bool) \<Rightarrow> ('d \<Rightarrow> string \<Rightarrow> kv_view) \<Rightarrow> (string \<Rightarrow> kv_view) \<Rightarrow> (sqlite_error, 'd) outcome \<Rightarrow> bool" where
  "effect I view v r \<longleftrightarrow> settled r \<and> (\<forall>d'. r = Inr d' \<longrightarrow> I d' \<and> view d' = v)"

definition sqlite_laws :: "'d rusqlite \<Rightarrow> ('d \<Rightarrow> string \<Rightarrow> kv_view) \<Rightarrow> ('d \<Rightarrow> bool) \<Rightarrow> bool" where
  "sqlite_laws S view I \<longleftrightarrow> (\<forall>d tab. I d \<longrightarrow>
     (\<forall>k. sql_select_value S tab k d = Inr (view d tab k)) \<and>
     (\<forall>s e. \<exists>ks. sql_select_keys_desc S tab s e d = Inr ks \<and> sorted_wrt (>) ks \<and>
        set ks = {k. s \<le> k \<and> k < e \<and> view d tab k \<noteq> None}) \<and>
     (\<forall>k v. effect I view ((view d)(tab := (view d tab)(k \<mapsto> v))) (sql_upsert S tab k v d)) \<and>
     (\<forall>k. effect I view ((view d)(tab := (view d tab)(k := None))) (sql_delete S tab k d)) \<and>
     (\<forall>s e. effect I view ((view d)(tab := (\<lambda>k. if s \<le> k \<and> k < e then None else view d tab k)))
        (sql_delete_range S tab s e d)) \<and>
     effect I view (view d) (sql_commit S d))"

fun op_write :: "mod_op \<Rightarrow> kv_write" where
  "op_write (MPut k v) = WPut k v"
| "op_write (MDelete k) = WDelete k"
| "op_write (MDeleteRange s e) = WDeleteRange s e"

definition txn_db :: "'d sqlite_txn \<Rightarrow> 'd option" where
  "txn_db t = (case st_worker t of WorkerGone \<Rightarrow> None | Worker d \<Rightarrow> d)"

definition table_view :: "('d \<Rightarrow> string \<Rightarrow> kv_view) \<Rightarrow> 'd sqlite_txn \<Rightarrow> kv_view" where
  "table_view view t = (case txn_db t of None \<Rightarrow> Map.empty | Some d \<Rightarrow> view d (st_table t))"

definition sqlite_snap :: "('d \<Rightarrow> string \<Rightarrow> kv_view) \<Rightarrow> 'd sqlite_txn \<Rightarrow> kv_view" where
  "sqlite_snap view t k = table_view view t (st_prefix t @ k)"

definition sqlite_pending :: "('d \<Rightarrow> string \<Rightarrow> kv_view) \<Rightarrow> 'd sqlite_txn \<Rightarrow> kv_view" where
  "sqlite_pending view t k = fold apply_write (map op_write (st_log t)) (table_view view t) (st_prefix t @ k)"

definition sqlite_ok :: "'d rusqlite \<Rightarrow> ('d \<Rightarrow> string \<Rightarrow> kv_view) \<Rightarrow> ('d \<Rightarrow> bool) \<Rightarrow> 'd sqlite_txn \<Rightarrow> bool" where
  "sqlite_ok S view I t \<longleftrightarrow> sqlite_laws S view I \<and> (\<exists>d. st_worker t = Worker (Some d) \<and> I d)"

section \<open>Scans\<close>

declare sqlite_collect.simps [simp del]

lemma sqlite_collect_rev: "sqlite_collect keys = rev keys"
proof (induction keys rule: rev_induct)
  case Nil
  show ?case by (subst sqlite_collect.simps) (simp add: sqlite_next_def)
next
  case (snoc k keys)
  then show ?case by (subst sqlite_collect.simps) (simp add: sqlite_next_def)
qed

text \<open>A range between two keys with a common prefix holds only keys with that prefix.\<close>

lemma range_keeps_prefix:
  fixes p :: "'a::linorder list"
  shows "p @ s \<le> k \<Longrightarrow> k < p @ e \<Longrightarrow> prefix p k"
proof (induction p arbitrary: k)
  case (Cons a p)
  then show ?case by (cases k) (auto dest: order.asym)
qed simp

lemma strip_keys: "(\<forall>k \<in> set ks. prefix p k) \<Longrightarrow> mapR (strip_key (length p)) ks = Inr (map (drop (length p)) ks)"
  by (induction ks) (auto simp: strip_key_def prefix_def)

lemma map_drop_prefix:
  fixes p :: bytes
  assumes "\<forall>k \<in> set ks. prefix p k"
  shows "sorted_wrt (>) ks \<longleftrightarrow> sorted_wrt (>) (map (drop (length p)) ks)"
    "set (map (drop (length p)) ks) = {k. p @ k \<in> set ks}"
proof -
  have "\<exists>rs. ks = map ((@) p) rs"
    using assms by (induction ks) (auto simp: prefix_def intro: exI [where x = "_ # _"] exI [where x = "[]"])
  then show "sorted_wrt (>) ks \<longleftrightarrow> sorted_wrt (>) (map (drop (length p)) ks)"
    "set (map (drop (length p)) ks) = {k. p @ k \<in> set ks}"
    by (auto simp: sorted_wrt_map comp_def image_image)
qed

lemma sqlite_scan:
  assumes "sqlite_ok S view I t"
  shows "\<exists>ks. kv_scan_keys (sqlite_kv S) t s e = Inr ks \<and> sorted_wrt (<) ks \<and>
    set ks = {k. s \<le> k \<and> k < e \<and> sqlite_snap view t k \<noteq> None}"
proof -
  let ?p = "st_prefix t"
  obtain d where d: "st_worker t = Worker (Some d)" "I d" and laws: "sqlite_laws S view I"
    using assms by (auto simp: sqlite_ok_def)
  obtain ks where ks: "sql_select_keys_desc S (st_table t) (?p @ s) (?p @ e) d = Inr ks" "sorted_wrt (>) ks"
    "set ks = {k. ?p @ s \<le> k \<and> k < ?p @ e \<and> view d (st_table t) k \<noteq> None}"
    using laws d(2) unfolding sqlite_laws_def by blast
  have pre: "\<forall>k \<in> set ks. prefix ?p k" using ks(3) range_keeps_prefix by blast
  let ?r = "map (drop (length ?p)) ks"
  have run: "kv_scan_keys (sqlite_kv S) t s e = Inr (rev ?r)"
    using d ks(1) by (simp add: sqlite_kv_def sqlite_scan_keys_def sqlite_collect_rev strip_keys [OF pre])
  have "sorted_wrt (<) (rev ?r)" using ks(2) map_drop_prefix(1) [OF pre] by (simp add: sorted_wrt_rev)
  moreover have "set (rev ?r) = {k. s \<le> k \<and> k < e \<and> sqlite_snap view t k \<noteq> None}"
    unfolding set_rev map_drop_prefix(2) [OF pre] using d(1)
    by (simp add: ks(3) sqlite_snap_def table_view_def txn_db_def)
  ultimately show ?thesis using run by blast
qed

lemma pending_write:
  "sqlite_pending view (t\<lparr>st_log := st_log t @ [w]\<rparr>) = (\<lambda>k. apply_write (op_write w)
     (fold apply_write (map op_write (st_log t)) (table_view view t)) (st_prefix t @ k))"
  by (cases "txn_db t") (simp_all add: sqlite_pending_def table_view_def txn_db_def fun_eq_iff)

lemma sqlite_log_ok [simp]:
  "sqlite_ok S view I (t\<lparr>st_log := l\<rparr>) = sqlite_ok S view I t" "sqlite_snap view (t\<lparr>st_log := l\<rparr>) = sqlite_snap view t"
  "table_view view (t\<lparr>st_log := l\<rparr>) = table_view view t"
  by (cases "txn_db t"; simp add: sqlite_ok_def sqlite_snap_def table_view_def txn_db_def fun_eq_iff)+

interpretation sqlite: kv_provider "sqlite_kv S" "sqlite_snap view" "sqlite_pending view" "sqlite_snap view"
  "sqlite_ok S view I" for S view I
proof
  fix t k v s e assume t: "sqlite_ok S view I t"
  then obtain d where d: "st_worker t = Worker (Some d)" "I d" and laws: "sqlite_laws S view I"
    by (auto simp: sqlite_ok_def)
  have "sql_select_value S (st_table t) (st_prefix t @ k) d = Inr (view d (st_table t) (st_prefix t @ k))"
    using laws d(2) unfolding sqlite_laws_def by blast
  then show "kv_get (sqlite_kv S) t k = Inr (sqlite_snap view t k)"
    using d by (simp add: sqlite_kv_def sqlite_get_def sqlite_snap_def table_view_def txn_db_def)
  show "\<exists>t'. kv_put (sqlite_kv S) t k v = Inr t' \<and> sqlite_ok S view I t' \<and> sqlite_snap view t' = sqlite_snap view t \<and>
      sqlite_pending view t' = (sqlite_pending view t)(k \<mapsto> v)"
    using t by (simp add: sqlite_kv_def sqlite_put_def pending_write fun_eq_iff) (simp add: sqlite_pending_def)
  show "\<exists>t'. kv_delete (sqlite_kv S) t k = Inr t' \<and> sqlite_ok S view I t' \<and> sqlite_snap view t' = sqlite_snap view t \<and>
      sqlite_pending view t' = (sqlite_pending view t)(k := None)"
    using t by (simp add: sqlite_kv_def sqlite_delete_def pending_write fun_eq_iff) (simp add: sqlite_pending_def)
  show "\<exists>t'. kv_delete_range (sqlite_kv S) t s e = Inr t' \<and> sqlite_ok S view I t' \<and> sqlite_snap view t' = sqlite_snap view t \<and>
      sqlite_pending view t' = (\<lambda>k. if s \<le> k \<and> k < e then None else sqlite_pending view t k)"
    using t by (simp add: sqlite_kv_def sqlite_delete_range_def pending_write fun_eq_iff) (simp add: sqlite_pending_def)
  show "\<exists>ks. kv_scan_keys (sqlite_kv S) t s e = Inr ks \<and> sorted_wrt (<) ks \<and>
      set ks = {k. s \<le> k \<and> k < e \<and> sqlite_snap view t k \<noteq> None}"
    by (rule sqlite_scan [OF t])
qed simp

section \<open>Commits\<close>

lemma effect_cases:
  "effect I view v r \<Longrightarrow> (\<exists>e. r = Inl (Err e)) \<or> (\<exists>d'. r = Inr d' \<and> I d' \<and> view d' = v)"
  by (auto simp: effect_def settled_cases)

lemma replay_effect:
  assumes "sqlite_laws S view I" "I d"
  shows "effect I view ((view d)(tab := apply_write (op_write w) (view d tab))) (replay_op S tab d w)"
  using assms by (cases w) (auto simp: sqlite_laws_def)

lemma replay_log:
  assumes "sqlite_laws S view I" "I d"
  shows "effect I view ((view d)(tab := fold apply_write (map op_write ws) (view d tab))) (foldR (replay_op S tab) d ws)"
  using assms(2)
proof (induction ws arbitrary: d)
  case (Cons w ws)
  show ?case using effect_cases [OF replay_effect [OF assms(1) Cons.prems, of tab w]]
  proof (elim disjE exE conjE)
    fix d' assume d': "replay_op S tab d w = Inr d'" "I d'"
      "view d' = (view d)(tab := apply_write (op_write w) (view d tab))"
    have "foldR (replay_op S tab) d (w # ws) = foldR (replay_op S tab) d' ws" using d'(1) by simp
    then show ?thesis using Cons.IH [OF d'(2), unfolded d'(3) fun_upd_same fun_upd_upd] by (simp only: list.map fold_simps)
  qed (simp add: effect_def)
qed (simp add: effect_def)

lemma commit_effect:
  assumes "sqlite_laws S view I" "st_worker t = Worker (Some d)" "I d"
  shows "effect I view ((view d)(st_table t := fold apply_write (map op_write (st_log t)) (view d (st_table t)))) (commit_work S t)"
proof -
  have c: "effect I view (view d') (sql_commit S d')" if "I d'" for d'
    using assms(1) that unfolding sqlite_laws_def by blast
  show ?thesis using effect_cases [OF replay_log [OF assms(1,3), of "st_table t" "st_log t"]] c assms(2)
    by (auto simp: commit_work_def effect_def)
qed

text \<open>The log of a transaction only names keys below its prefix.\<close>

fun op_within :: "bytes \<Rightarrow> mod_op \<Rightarrow> bool" where
  "op_within p (MPut k v) = prefix p k"
| "op_within p (MDelete k) = prefix p k"
| "op_within p (MDeleteRange s e) = (prefix p s \<and> prefix p e)"

lemma op_within_outside: "op_within p w \<Longrightarrow> \<not> prefix p k \<Longrightarrow> apply_write (op_write w) m k = m k"
  by (cases w) (auto simp: prefix_def dest: range_keeps_prefix)

lemma log_outside:
  "list_all (op_within p) ws \<Longrightarrow> \<not> prefix p k \<Longrightarrow> fold apply_write (map op_write ws) m k = m k"
  by (induction ws arbitrary: m) (auto simp: op_within_outside)

lemma run_writes_log:
  assumes "run_writes (sqlite_kv S) t ws = Inr t'" "list_all (op_within (st_prefix t)) (st_log t)"
  shows "st_worker t' = st_worker t \<and> st_table t' = st_table t \<and> st_prefix t' = st_prefix t \<and>
    list_all (op_within (st_prefix t)) (st_log t')"
proof (rule foldR_invariant [OF assms(1) [unfolded run_writes_def]])
  fix u w u' assume "st_worker u = st_worker t \<and> st_table u = st_table t \<and> st_prefix u = st_prefix t \<and>
    list_all (op_within (st_prefix t)) (st_log u)" "run_write (sqlite_kv S) u w = Inr u'"
  then show "st_worker u' = st_worker t \<and> st_table u' = st_table t \<and> st_prefix u' = st_prefix t \<and>
    list_all (op_within (st_prefix t)) (st_log u')"
    by (cases w) (auto simp: sqlite_kv_def sqlite_put_def sqlite_delete_def sqlite_delete_range_def)
qed (use assms(2) in simp)

text \<open>
  C31. A transaction of the SQLite store that commits changes its own table below its own prefix and
  nothing else: there the table afterwards is what the writes make of its former content,
  every other key and every other table is untouched. When the commit does not
  succeed, it reports a conflict or an unknown state.
\<close>

theorem sqlite_transaction:
  assumes "sqlite_laws S view I" "I d"
  shows "\<exists>t. run_writes (sqlite_kv S) (sqlite_begin (Inr d) (sqlite_new table p)) ws = Inr t \<and>
    (case sqlite_commit S t of
       Inl e \<Rightarrow> e = Err Conflict \<or> e = Err CommitStateUnknown
     | Inr d' \<Rightarrow> (\<forall>k. view d' table (p @ k) = fold apply_write ws (\<lambda>k. view d table (p @ k)) k) \<and>
         (\<forall>k. \<not> prefix p k \<longrightarrow> view d' table k = view d table k) \<and>
         (\<forall>tab. tab \<noteq> table \<longrightarrow> view d' tab = view d tab))"
proof -
  let ?t0 = "sqlite_begin (Inr d) (sqlite_new table p)"
  have t0: "sqlite_ok S view I ?t0" "st_worker ?t0 = Worker (Some d)" "st_table ?t0 = table" "st_prefix ?t0 = p" "st_log ?t0 = []"
    using assms by (auto simp: sqlite_ok_def sqlite_begin_def sqlite_new_def)
  obtain t where t: "run_writes (sqlite_kv S) ?t0 ws = Inr t"
    "sqlite_pending view t = fold apply_write ws (sqlite_pending view ?t0)"
    using sqlite.writes_law [OF t0(1)] by blast
  have f: "st_worker t = Worker (Some d)" "st_table t = table" "st_prefix t = p" "list_all (op_within p) (st_log t)"
    using run_writes_log [OF t(1)] t0 by auto
  let ?v = "fold apply_write (map op_write (st_log t)) (view d table)"
  have p: "?v (p @ k) = fold apply_write ws (\<lambda>k. view d table (p @ k)) k" for k
    using fun_cong [OF t(2), of k] f t0
    by (simp add: sqlite_pending_def [abs_def] table_view_def txn_db_def)
  have out: "commit_error e = Conflict \<or> commit_error e = CommitStateUnknown" for e
    by (cases e rule: commit_error.cases) auto
  show ?thesis
    using t(1) effect_cases [OF commit_effect [OF assms(1) f(1) assms(2)]] p log_outside [OF f(4)] out f(2)
    by (auto simp: sqlite_commit_def)
qed


text \<open>A database of ordered tables whose statements always succeed.\<close>

definition sample_sqlite :: "(string \<Rightarrow> (bytes, bytes) btree) rusqlite" where
  "sample_sqlite = \<lparr>sql_select_value = (\<lambda>tab k d. Inr (bt_get (d tab) k)),
     sql_select_keys_desc = (\<lambda>tab s e d. Inr (rev (map fst (bt_range s e (d tab))))),
     sql_upsert = (\<lambda>tab k v d. Inr (d(tab := bt_insert k v (d tab)))),
     sql_delete = (\<lambda>tab k d. Inr (d(tab := bt_remove k (d tab)))),
     sql_delete_range = (\<lambda>tab s e d. Inr (d(tab := filter (\<lambda>x. \<not> (s \<le> fst x \<and> fst x < e)) (d tab)))),
     sql_commit = Inr\<rparr>"

definition sample_tables :: "(string \<Rightarrow> (bytes, bytes) btree) \<Rightarrow> bool" where
  "sample_tables d \<longleftrightarrow> (\<forall>tab. bt_ok (d tab))"

lemma sample_sqlite_laws: "sqlite_laws sample_sqlite (\<lambda>d tab. bt_get (d tab)) sample_tables"
proof -
  have keys: "set (rev (map fst (bt_range s e m))) = {k. s \<le> k \<and> k < e \<and> bt_get m k \<noteq> None}"
    and desc: "bt_ok m \<Longrightarrow> sorted_wrt (>) (rev (map fst (bt_range s e m)))" for s e :: bytes and m :: "(bytes, bytes) btree"
    by (auto simp: bt_range_def map_of_eq_None_iff bt_ok_def sorted_wrt_rev sorted_wrt_map sorted_wrt_filter simp del: not_None_eq)
  have filt: "bt_ok m \<Longrightarrow> bt_get (filter (\<lambda>x. s \<le> fst x \<longrightarrow> \<not> fst x < e) m) = (\<lambda>k. if s \<le> k \<and> k < e then None else bt_get m k)"
    for s e :: bytes and m :: "(bytes, bytes) btree"
    by (auto simp: fun_eq_iff bt_get_filter [where P = "\<lambda>x. s \<le> x \<longrightarrow> \<not> x < e"])
  have upd: "effect sample_tables (\<lambda>d tab. bt_get (d tab)) ((\<lambda>tab. bt_get (d tab))(tab := v)) (Inr (d(tab := m)))"
    if "sample_tables d" "bt_ok m" "bt_get m = v" for d tab v and m :: "(bytes, bytes) btree"
  proof -
    have "sample_tables (d(tab := m))" using that(1,2) by (simp add: sample_tables_def)
    then show ?thesis using that(3) by (simp add: effect_def fun_upd_def if_distrib cong: if_cong)
  qed
  have idle: "effect sample_tables (\<lambda>d tab. bt_get (d tab)) (\<lambda>tab. bt_get (d tab)) (Inr d)" if "sample_tables d" for d
    using that by (simp add: effect_def)
  show ?thesis
    unfolding sqlite_laws_def
  proof (intro allI impI conjI)
    fix d :: "string \<Rightarrow> (bytes, bytes) btree" and tab k v s e assume d: "sample_tables d"
    then have ok: "bt_ok (d tab)" by (simp add: sample_tables_def)
    show "sql_select_value sample_sqlite tab k d = Inr (bt_get (d tab) k)" by (simp add: sample_sqlite_def)
    show "\<exists>ks. sql_select_keys_desc sample_sqlite tab s e d = Inr ks \<and> sorted_wrt (>) ks \<and>
        set ks = {k. s \<le> k \<and> k < e \<and> bt_get (d tab) k \<noteq> None}"
      using keys desc [OF ok] by (simp add: sample_sqlite_def)
    show "effect sample_tables (\<lambda>d tab. bt_get (d tab)) ((\<lambda>tab. bt_get (d tab))(tab := (bt_get (d tab))(k \<mapsto> v)))
        (sql_upsert sample_sqlite tab k v d)"
      using upd [OF d bt_ok_insert [OF ok]] by (simp add: sample_sqlite_def bt_get_insert fun_eq_iff)
    show "effect sample_tables (\<lambda>d tab. bt_get (d tab)) ((\<lambda>tab. bt_get (d tab))(tab := (bt_get (d tab))(k := None)))
        (sql_delete sample_sqlite tab k d)"
      using upd [OF d bt_ok_remove [OF ok]] by (simp add: sample_sqlite_def bt_get_remove [OF ok] fun_eq_iff)
    show "effect sample_tables (\<lambda>d tab. bt_get (d tab)) ((\<lambda>tab. bt_get (d tab))(tab := \<lambda>k. if s \<le> k \<and> k < e then None else bt_get (d tab) k))
        (sql_delete_range sample_sqlite tab s e d)"
      using upd [OF d bt_ok_filter [OF ok] filt [OF ok]] by (simp add: sample_sqlite_def)
    show "effect sample_tables (\<lambda>d tab. bt_get (d tab)) (\<lambda>tab. bt_get (d tab)) (sql_commit sample_sqlite d)"
      using idle [OF d] by (simp add: sample_sqlite_def)
  qed
qed

definition sample_db :: "string \<Rightarrow> (bytes, bytes) btree" where
  "sample_db _ = [([1, 5], [6]), ([2], [3])]"

theorem sqlite_transaction_witness:
  "\<exists>t d'. run_writes (sqlite_kv sample_sqlite) (sqlite_begin (Inr sample_db) (sqlite_new ''user_data'' [1]))
      [WPut [7] [8], WDeleteRange [4] [6]] = Inr t \<and> sqlite_commit sample_sqlite t = Inr d' \<and>
    bt_get (d' ''user_data'') [1, 7] = Some [8] \<and> bt_get (d' ''user_data'') [1, 5] = None \<and>
    bt_get (d' ''user_data'') [2] = Some [3] \<and> bt_get (d' ''system'') [1, 5] = Some [6]"
proof -
  let ?ws = "[WPut [7] [8], WDeleteRange [4] [6]]"
  let ?t0 = "sqlite_begin (Inr sample_db) (sqlite_new ''user_data'' [1])"
  have tabs: "sample_tables sample_db" by (simp add: sample_tables_def bt_ok_def sample_db_def)
  have run: "\<exists>d'. sqlite_commit sample_sqlite t = Inr d'" if "run_writes (sqlite_kv sample_sqlite) ?t0 ?ws = Inr t" for t
    using that by (auto simp: run_writes_def sqlite_kv_def sqlite_begin_def sqlite_new_def sqlite_put_def sqlite_delete_range_def
        sqlite_commit_def commit_work_def sample_sqlite_def)
  from sqlite_transaction [OF sample_sqlite_laws, OF tabs, of "''user_data''" "[1]" ?ws] obtain t d'
    where t: "run_writes (sqlite_kv sample_sqlite) ?t0 ?ws = Inr t" "sqlite_commit sample_sqlite t = Inr d'"
    and v: "\<forall>k. bt_get (d' ''user_data'') ([1] @ k) = fold apply_write ?ws (\<lambda>k. bt_get (sample_db ''user_data'') ([1] @ k)) k"
      "\<forall>k. \<not> prefix [1] k \<longrightarrow> bt_get (d' ''user_data'') k = bt_get (sample_db ''user_data'') k"
      "\<forall>tab. tab \<noteq> ''user_data'' \<longrightarrow> bt_get (d' tab) = bt_get (sample_db tab)"
    using run by fastforce
  have "bt_get (d' ''user_data'') [2] = Some [3]" using v(2) [rule_format, of "[2]"] by (simp add: sample_db_def)
  moreover have "bt_get (d' ''system'') [1, 5] = Some [6]" using v(3) [rule_format, of "''system''"] by (simp add: sample_db_def)
  ultimately show ?thesis
    using t v(1) [rule_format, of "[7]"] v(1) [rule_format, of "[5]"] by (auto simp: sample_db_def)
qed

text \<open>
  Commit errors: the store reports a conflict, on which the executor retries, exactly when SQLite says
  that the database is locked; every other failure, and a worker that is gone, is an
  unknown commit state.
\<close>

theorem sqlite_commit_errors:
  "(sqlite_commit S t = Inl (Err Conflict) \<longleftrightarrow>
      commit_work S t = Inl (Err (SqliteFailure (Some ''database is locked'')))) \<and>
   (sqlite_commit S t = Inl (Err CommitStateUnknown) \<longleftrightarrow>
      (\<exists>e. commit_work S t = Inl (Err e) \<and> e \<noteq> SqliteFailure (Some ''database is locked''))) \<and>
   sqlite_commit S (t\<lparr>st_worker := WorkerGone\<rparr>) = Inl (Err CommitStateUnknown)"
proof -
  have c: "commit_error e = Conflict \<longleftrightarrow> e = SqliteFailure (Some ''database is locked'')" for e
    by (cases e rule: commit_error.cases) auto
  then have u: "commit_error e = CommitStateUnknown \<longleftrightarrow> e \<noteq> SqliteFailure (Some ''database is locked'')" for e
    using kv_error.exhaust [of "commit_error e"] by (metis kv_error.distinct(1))
  show ?thesis
    using c u by (auto simp: sqlite_commit_def commit_work_def split: sum.split fault.split)
qed

section \<open>Two stores side by side\<close>

locale kv_pair =
  a: kv_provider kv snap pending seen ok + b: kv_provider kv' snap' pending' seen' ok'
  for kv :: "('e, 't) kv_transaction" and snap pending seen ok
    and kv' :: "('f, 'u) kv_transaction" and snap' pending' seen' ok'
begin

lemma same_writes:
  assumes "ok t" "ok' u" "snap t = snap' u" "pending t = pending' u"
  shows "\<exists>t' u'. run_writes kv t ws = Inr t' \<and> run_writes kv' u ws = Inr u' \<and> pending t' = pending' u' \<and>
    (\<forall>k x. kv_get kv t' k = Inr x \<longleftrightarrow> kv_get kv' u' k = Inr x)"
proof -
  obtain t' where t': "run_writes kv t ws = Inr t'" "ok t'" "snap t' = snap t" "pending t' = fold apply_write ws (pending t)"
    using a.writes_law [OF assms(1)] by blast
  obtain u' where u': "run_writes kv' u ws = Inr u'" "ok' u'" "snap' u' = snap' u" "pending' u' = fold apply_write ws (pending' u)"
    using b.writes_law [OF assms(2)] by blast
  show ?thesis using t' u' assms(3,4) by (simp add: a.get_law b.get_law)
qed

end

interpretation mem_sqlite: kv_pair "mem_kv :: ('e, mem_transaction) kv_transaction"
  "\<lambda>t. mem_view (mt_read_buffer t)" "\<lambda>t. mem_view (mt_buffer t)" "\<lambda>t. mem_view (mt_buffer t)" mem_txn_ok
  "sqlite_kv S" "sqlite_snap view" "sqlite_pending view" "sqlite_snap view" "sqlite_ok S view I" for S view I
  by unfold_locales

text \<open>
  C32. The two stores agree: transactions of the in-memory store and of the SQLite store that see the same content
  answer every read alike after any writes, and have the same content to commit.
\<close>

theorem stores_agree:
  assumes "mem_txn_ok t" "sqlite_ok S view I u"
    and "mem_view (mt_read_buffer t) = sqlite_snap view u" "mem_view (mt_buffer t) = sqlite_pending view u"
  shows "\<exists>t' u'. run_writes (mem_kv :: (unit, mem_transaction) kv_transaction) t ws = Inr t' \<and>
    run_writes (sqlite_kv S) u ws = Inr u' \<and>
    mem_view (mt_buffer t') = sqlite_pending view u' \<and>
    (\<forall>k x. kv_get (mem_kv :: (unit, mem_transaction) kv_transaction) t' k = Inr x \<longleftrightarrow> kv_get (sqlite_kv S) u' k = Inr x)"
  using assms by (rule mem_sqlite.same_writes)

theorem stores_agree_witness:
  "\<exists>t' u'. run_writes (mem_kv :: (unit, mem_transaction) kv_transaction) (fst (begin_transaction mem_new)) [WPut [1] [2]] = Inr t' \<and>
    run_writes (sqlite_kv sample_sqlite) (sqlite_begin (Inr (\<lambda>_. [])) (sqlite_new ''user_data'' [])) [WPut [1] [2]] = Inr u' \<and>
    mem_view (mt_buffer t') = sqlite_pending (\<lambda>d tab. bt_get (d tab)) u'"
proof -
  let ?u = "sqlite_begin (Inr (\<lambda>_. [])) (sqlite_new ''user_data'' []) :: (string \<Rightarrow> (bytes, bytes) btree) sqlite_txn"
  have "mem_txn_ok (fst (begin_transaction mem_new))"
    by (simp add: begin_transaction_def mem_txn_ok_def mem_new_def)
  moreover have "sqlite_ok sample_sqlite (\<lambda>d tab. bt_get (d tab)) sample_tables ?u"
    using sample_sqlite_laws by (simp add: sqlite_ok_def sqlite_begin_def sample_tables_def)
  moreover have "mem_view (mt_read_buffer (fst (begin_transaction mem_new))) = sqlite_snap (\<lambda>d tab. bt_get (d tab)) ?u"
    "mem_view (mt_buffer (fst (begin_transaction mem_new))) = sqlite_pending (\<lambda>d tab. bt_get (d tab)) ?u"
    by (auto simp: fun_eq_iff begin_transaction_def mem_new_def mem_view_def sqlite_snap_def sqlite_pending_def
        table_view_def txn_db_def sqlite_begin_def)
  ultimately show ?thesis using stores_agree by blast
qed


end
