(* ===== verification/Exec_Storage.thy ===== *)
theory Exec_Storage
  imports Bytecode Sqlite_Kv
begin

text \<open>
  How the executor reads and writes tables and sets (\<^verbatim>\<open>treewalker/exec.rs\<close>): reading a field of a
  table, storing a value below a walker, clearing a set, deleting one member, and the map of
  exports that a script starts from. Every operation takes the transaction as a record of
  operations and a state, so it runs on every store that offers the key-value interface.
\<close>

section \<open>Errors\<close>

datatype 'e exec_error =
    NotImplemented string
  | NullUnwrapped
  | FreshTableOrSetNotSupported
  | ExportTypeNotSupported
  | MaxRecursionDepthExceeded nat
  | BothSelectCandidatesFired
  | PathIntegrityFailure string
  | ConflictAfterRetries
  | ScriptThrownError string
  | ScriptThrownNull
  | KvFailed 'e
  | CommitFailed kv_error
  | DecodeFailed

fun lift_kv :: "('e, 'a) outcome \<Rightarrow> ('e exec_error, 'a) outcome" where
  "lift_kv (Inr x) = Inr x"
| "lift_kv (Inl (Err e)) = Inl (Err (KvFailed e))"
| "lift_kv (Inl (Panic m)) = Inl (Panic m)"
| "lift_kv (Inl OutOfFuel) = Inl OutOfFuel"

text \<open>\<^verbatim>\<open>unwrap()\<close> and \<^verbatim>\<open>expect(..)\<close> on a \<^verbatim>\<open>Result\<close>.\<close>

fun unwrap_path :: "string \<Rightarrow> ('x, 'a) outcome \<Rightarrow> ('e, 'a) outcome" where
  "unwrap_path m (Inr x) = Inr x"
| "unwrap_path m (Inl (Err e)) = Inl (Panic m)"
| "unwrap_path m (Inl (Panic p)) = Inl (Panic p)"
| "unwrap_path m (Inl OutOfFuel) = Inl OutOfFuel"

abbreviation unwrap_none :: string where
  "unwrap_none \<equiv> ''called `Option::unwrap()` on a `None` value''"

abbreviation unwrap_err :: string where
  "unwrap_err \<equiv> ''called `Result::unwrap()` on an `Err` value''"

section \<open>Reading\<close>

definition read_table_element ::
  "externs \<Rightarrow> compiled_schema \<Rightarrow> ('e, 't) kv_transaction \<Rightarrow> 't \<Rightarrow> string \<times> (string \<times> vm_value) list residence \<Rightarrow>
   string \<Rightarrow> ('e exec_error, vm_value) outcome" where
  "read_table_element E sch kv t table key =
     (case snd table of
        Fresh x \<Rightarrow> unwrap ''read_table_element: key not found in table'' (bt_get x key)
      | Resident walker \<Rightarrow>
          bindR (unwrap unwrap_none (bt_get (cs_types sch) (fst table))) (\<lambda>specialized_ty.
          bindR (unwrap unwrap_none (bt_get (st_fields specialized_ty) key)) (\<lambda>field.
          bindR (unwrap_path ''inconsistency: field not found in table'' (enter_field walker key)) (\<lambda>w.
          case fst field of
            FPrimitive p \<Rightarrow>
              bindR (lift_kv (kv_get kv t (generate_key w))) (\<lambda>raw.
              bindR (option_mapR (\<lambda>x. ok_or DecodeFailed (rmp_from_slice E x)) raw) (\<lambda>raw_data.
              Inr (case raw_data of Some x \<Rightarrow> VPrimitive x | None \<Rightarrow> VNull (TPrimitive p))))
          | FSet member_ty \<Rightarrow> Inr (VSet (vm_type_of_field member_ty) (Resident w))
          | FTable x \<Rightarrow> Inr (VTable x (Resident w))))))"

definition generate_root_map ::
  "compiled_schema \<Rightarrow> storage_key storage_plan \<Rightarrow> ('e exec_error, vm_value) outcome" where
  "generate_root_map sch plan =
     bindR (foldR (\<lambda>m (field_name, field_ty).
         case field_ty of
           FTable x \<Rightarrow>
             bindR (unwrap_path unwrap_err (from_export plan field_name)) (\<lambda>w.
             Inr (bt_insert field_name (VTable x (Resident w)) m))
         | FSet x \<Rightarrow>
             bindR (unwrap_path unwrap_err (from_export plan field_name)) (\<lambda>w.
             Inr (bt_insert field_name (VSet (vm_type_of_field x) (Resident w)) m))
         | FPrimitive _ \<Rightarrow> Inl (Err ExportTypeNotSupported))
       [] (cs_exports sch)) (\<lambda>m. Inr (VMap m))"

section \<open>Writing\<close>

text \<open>\<^verbatim>\<open>*key.last_mut().unwrap() += 1\<close>\<close>

definition increment_last :: "bytes \<Rightarrow> ('e, bytes) outcome" where
  "increment_last key = (if key = [] then Inl (Panic unwrap_none) else Inr (butlast key @ [last key + 1]))"

definition delete_set ::
  "('e, 't) kv_transaction \<Rightarrow> 't \<Rightarrow> path_walker \<Rightarrow> ('e exec_error, 't) outcome" where
  "delete_set kv t walker =
     bindR (unwrap_path unwrap_err (set_fast_scan_prefix walker)) (\<lambda>fast_scan_start_key.
     bindR (increment_last fast_scan_start_key) (\<lambda>fast_scan_end_key.
     bindR (unwrap_path unwrap_err (set_data_prefix walker)) (\<lambda>data_start_key.
     bindR (increment_last data_start_key) (\<lambda>data_end_key.
     bindR (lift_kv (kv_delete_range kv t fast_scan_start_key fast_scan_end_key)) (\<lambda>t1.
     lift_kv (kv_delete_range kv t1 data_start_key data_end_key))))))"

definition delete_entry_from_set ::
  "externs \<Rightarrow> ('e, 't) kv_transaction \<Rightarrow> 't \<Rightarrow> path_walker \<Rightarrow> primitive_value \<Rightarrow> ('e exec_error, 't) outcome" where
  "delete_entry_from_set E kv t walker primary_key_value =
     (let raw = serialize_for_key_component E primary_key_value in
      bindR (unwrap_path unwrap_err (set_fast_scan_prefix walker)) (\<lambda>fast_scan_prefix.
      bindR (unwrap_path unwrap_err (set_data_prefix walker)) (\<lambda>data_prefix.
      let data_start_key = data_prefix @ raw @ [0];
          data_end_key = butlast data_start_key @ [1] in
      bindR (lift_kv (kv_delete kv t (fast_scan_prefix @ raw))) (\<lambda>t1.
      lift_kv (kv_delete_range kv t1 data_start_key data_end_key)))))"

fun walk_and_insert ::
  "externs \<Rightarrow> ('e, 't) kv_transaction \<Rightarrow> 't \<Rightarrow> path_walker \<Rightarrow> vm_value \<Rightarrow> ('e exec_error, 't) outcome" where
  "walk_and_insert E kv t walker (VNull ty) = lift_kv (kv_delete kv t (generate_key walker))"
| "walk_and_insert E kv t walker (VPrimitive x) =
     lift_kv (kv_put kv t (generate_key walker) (rmp_to_vec E x))"
| "walk_and_insert E kv t walker (VSet member_ty kind) =
     bindR (lift_kv (kv_put kv t (generate_key walker) [])) (\<lambda>t1.
     case kind of
       Fresh members \<Rightarrow>
         bindR (delete_set kv t1 walker) (\<lambda>t2.
         foldR (\<lambda>t e.
             bindR (unwrap_path unwrap_err (set_fast_scan_prefix walker)) (\<lambda>fast_scan_prefix.
             bindR (lift_kv (kv_put kv t (fast_scan_prefix @ fst e) [])) (\<lambda>t'.
             bindR (unwrap_path unwrap_err (enter_set_raw walker (fst e))) (\<lambda>w.
             walk_and_insert E kv t' w (snd e))))) t2 members)
     | Resident _ \<Rightarrow> Inl (Err (NotImplemented ''set copy is not implemented'')))"
| "walk_and_insert E kv t walker (VTable ty kind) =
     bindR (lift_kv (kv_put kv t (generate_key walker) [])) (\<lambda>t1.
     case kind of
       Fresh flds \<Rightarrow>
         foldR (\<lambda>t e.
             bindR (unwrap_path unwrap_err (enter_field walker (fst e))) (\<lambda>w.
             walk_and_insert E kv t w (snd e))) t1 flds
     | Resident _ \<Rightarrow> Inl (Err (NotImplemented ''table copy is not implemented'')))"
| "walk_and_insert E kv t walker _ =
     Inl (Panic ''inconsistency: walk_and_insert encountered non-storable type'')"

section \<open>Writes without a store\<close>

text \<open>The writes that storing a value amounts to, as a list; the reference for \<open>walk_and_insert\<close>.\<close>

definition delete_set_writes :: "path_walker \<Rightarrow> ('e, kv_write list) outcome" where
  "delete_set_writes walker =
     bindR (unwrap_path unwrap_err (set_fast_scan_prefix walker)) (\<lambda>p.
     bindR (unwrap_path unwrap_err (set_data_prefix walker)) (\<lambda>q.
     Inr [WDeleteRange p (butlast p @ [last p + 1]), WDeleteRange q (butlast q @ [last q + 1])]))"

fun insert_writes :: "externs \<Rightarrow> path_walker \<Rightarrow> vm_value \<Rightarrow> ('e exec_error, kv_write list) outcome" where
  "insert_writes E w (VNull ty) = Inr [WDelete (generate_key w)]"
| "insert_writes E w (VPrimitive x) = Inr [WPut (generate_key w) (rmp_to_vec E x)]"
| "insert_writes E w (VSet member_ty kind) =
     (case kind of
        Fresh members \<Rightarrow>
          bindR (delete_set_writes w) (\<lambda>ws.
          bindR (mapR (\<lambda>e.
              bindR (unwrap_path unwrap_err (set_fast_scan_prefix w)) (\<lambda>p.
              bindR (unwrap_path unwrap_err (enter_set_raw w (fst e))) (\<lambda>w'.
              bindR (insert_writes E w' (snd e)) (\<lambda>ws'. Inr (WPut (p @ fst e) [] # ws'))))) members) (\<lambda>wss.
          Inr (WPut (generate_key w) [] # ws @ concat wss)))
      | Resident _ \<Rightarrow> Inl (Err (NotImplemented ''set copy is not implemented'')))"
| "insert_writes E w (VTable ty kind) =
     (case kind of
        Fresh flds \<Rightarrow>
          bindR (mapR (\<lambda>e.
              bindR (unwrap_path unwrap_err (enter_field w (fst e))) (\<lambda>w'.
              insert_writes E w' (snd e))) flds) (\<lambda>wss.
          Inr (WPut (generate_key w) [] # concat wss))
      | Resident _ \<Rightarrow> Inl (Err (NotImplemented ''table copy is not implemented'')))"
| "insert_writes E w _ = Inl (Panic ''inconsistency: walk_and_insert encountered non-storable type'')"

section \<open>Every store runs the same writes\<close>

lemma lift_kv_bindR: "lift_kv (bindR r f) = bindR (lift_kv r) (\<lambda>x. lift_kv (f x))"
  by (cases r rule: lift_kv.cases) auto

lemma run_writes_append: "run_writes kv t (ws @ vs) = bindR (run_writes kv t ws) (\<lambda>u. run_writes kv u vs)"
  by (simp add: run_writes_def foldR_append)

lemma run_writes_simps [simp]:
  "run_writes kv t [] = Inr t" "run_writes kv t (w # ws) = bindR (run_write kv t w) (\<lambda>u. run_writes kv u ws)"
  by (simp_all add: run_writes_def)

lemma increment_last_snoc [simp]: "increment_last (p @ [b]) = Inr (p @ [b + 1])"
  by (simp add: increment_last_def)

context kv_core
begin

lemma writesE:
  assumes "ok t"
  obtains u where "run_writes kv t ws = Inr u" "ok u" "snap u = snap t" "pending u = fold apply_write ws (pending t)"
  using writes_law [OF assms] by blast

lemma run_each:
  assumes "\<And>x t. x \<in> set xs \<Longrightarrow> ok t \<Longrightarrow> f t x = bindR (g x) (\<lambda>ws. lift_kv (run_writes kv t ws))" "ok t"
  shows "foldR f t xs = bindR (mapR g xs) (\<lambda>wss. lift_kv (run_writes kv t (concat wss)))"
  using assms
proof (induction xs arbitrary: t)
  case (Cons x xs)
  show ?case
  proof (cases "g x")
    case (Inl e)
    then show ?thesis using Cons.prems by simp
  next
    case (Inr ws)
    obtain u where u: "run_writes kv t ws = Inr u" "ok u" by (rule writesE [OF Cons.prems(2)])
    have "foldR f u xs = bindR (mapR g xs) (\<lambda>wss. lift_kv (run_writes kv u (concat wss)))"
      by (rule Cons.IH [OF _ u(2)]) (simp add: Cons.prems(1))
    moreover have "f t x = Inr u" using Cons.prems Inr u(1) by simp
    ultimately show ?thesis using Inr u(1) by (cases "mapR g xs") (simp_all add: run_writes_append)
  qed
qed simp

lemma delete_set_runs:
  assumes "ok t"
  shows "delete_set kv t w = bindR (delete_set_writes w) (\<lambda>ws. lift_kv (run_writes kv t ws))"
proof (cases "sn_set (pw_node w)")
  case (Some m)
  obtain u where "kv_delete_range kv t (generate_key w @ [1]) (generate_key w @ [1 + 1]) = Inr u"
    using delete_range_law [OF assms] by blast
  then show ?thesis
    using Some by (simp add: delete_set_def delete_set_writes_def set_fast_scan_prefix_def set_data_prefix_def
        lift_kv_bindR)
qed (simp add: delete_set_def delete_set_writes_def set_fast_scan_prefix_def)

lemma walk_and_insert_runs:
  "ok t \<Longrightarrow> walk_and_insert E kv t w v = bindR (insert_writes E w v) (\<lambda>ws. lift_kv (run_writes kv t ws))"
proof (induction v arbitrary: t w)
  case (VTable ty kind)
  obtain u where u: "kv_put kv t (generate_key w) [] = Inr u" "ok u" using put_law [OF VTable.prems] by blast
  show ?case
  proof (cases kind)
    case (Fresh flds)
    have IH: "walk_and_insert E kv t w (snd e) = bindR (insert_writes E w (snd e)) (\<lambda>ws. lift_kv (run_writes kv t ws))"
      if "e \<in> set flds" "ok t" for e t w
      using VTable.IH [of flds e "snd e"] that Fresh by (cases e) auto
    have "foldR (\<lambda>t e. bindR (unwrap_path unwrap_err (enter_field w (fst e))) (\<lambda>w. walk_and_insert E kv t w (snd e))) u flds =
        bindR (mapR (\<lambda>e. bindR (unwrap_path unwrap_err (enter_field w (fst e))) (\<lambda>w. insert_writes E w (snd e))) flds)
          (\<lambda>wss. lift_kv (run_writes kv u (concat wss)))"
      by (rule run_each [OF _ u(2)]) (auto simp: IH bindR_def split: sum.split)
    then show ?thesis using Fresh u by (auto simp: bindR_def split: sum.split)
  qed (simp add: u)
next
  case (VSet ty kind)
  obtain u where u: "kv_put kv t (generate_key w) [] = Inr u" "ok u" using put_law [OF VSet.prems] by blast
  show ?case
  proof (cases kind)
    case (Fresh members)
    have IH: "walk_and_insert E kv t w (snd e) = bindR (insert_writes E w (snd e)) (\<lambda>ws. lift_kv (run_writes kv t ws))"
      if "e \<in> set members" "ok t" for e t w
      using VSet.IH [of members e "snd e"] that Fresh by (cases e) auto
    let ?f = "\<lambda>t e. bindR (unwrap_path unwrap_err (set_fast_scan_prefix w)) (\<lambda>p. bindR (lift_kv (kv_put kv t (p @ fst e) []))
          (\<lambda>t'. bindR (unwrap_path unwrap_err (enter_set_raw w (fst e))) (\<lambda>w. walk_and_insert E kv t' w (snd e))))"
    let ?g = "\<lambda>e. bindR (unwrap_path unwrap_err (set_fast_scan_prefix w)) (\<lambda>p. bindR (unwrap_path unwrap_err (enter_set_raw w (fst e)))
          (\<lambda>w'. bindR (insert_writes E w' (snd e)) (\<lambda>ws'. Inr (WPut (p @ fst e) [] # ws'))))"
    have one: "?f t e = bindR (?g e) (\<lambda>ws. lift_kv (run_writes kv t ws))" if e: "e \<in> set members" and t: "ok t" for e t
    proof (cases "set_fast_scan_prefix w")
      case (Inr p)
      obtain t' where "kv_put kv t (p @ fst e) [] = Inr t'" "ok t'" using put_law [OF t] by blast
      then show ?thesis using Inr IH [OF e] by (auto simp: bindR_def split: sum.split)
    qed (auto simp: set_fast_scan_prefix_def bindR_def ok_or_def split: option.splits)
    have members: "foldR ?f u' members = bindR (mapR ?g members) (\<lambda>wss. lift_kv (run_writes kv u' (concat wss)))" if "ok u'" for u'
      by (rule run_each [OF one that])
    show ?thesis
    proof (cases "delete_set_writes w :: ('e exec_error, kv_write list) outcome")
      case (Inl e)
      then show ?thesis using Fresh u delete_set_runs [OF u(2)] by simp
    next
      case (Inr ws)
      obtain u' where u': "run_writes kv u ws = Inr u'" "ok u'" by (rule writesE [OF u(2)])
      show ?thesis using Fresh u Inr u' members [OF u'(2)] delete_set_runs [OF u(2)]
        by (simp add: run_writes_append bindR_assoc)
    qed
  qed (simp add: u)
qed (auto simp: bindR_def split: sum.split)

lemma walk_and_insert_pending:
  assumes "walk_and_insert E kv t w v = Inr t'" "ok t"
  shows "\<exists>ws. insert_writes E w v = (Inr ws :: ('e exec_error, _) outcome) \<and> ok t' \<and> snap t' = snap t \<and>
    pending t' = fold apply_write ws (pending t)"
proof -
  obtain ws where ws: "insert_writes E w v = (Inr ws :: ('e exec_error, _) outcome)" "lift_kv (run_writes kv t ws) = Inr t'"
    using assms walk_and_insert_runs by auto
  obtain u where "run_writes kv t ws = Inr u" "ok u" "snap u = snap t" "pending u = fold apply_write ws (pending t)"
    by (rule writesE [OF assms(2)])
  with ws show ?thesis by auto
qed

end

end
