(* ===== verification/Typeck.thy ===== *)
theory Typeck
  imports Bytecode
begin

text \<open>
  The type checker of scripts, \<^verbatim>\<open>treewalker/typeck.rs\<close>. Errors carry the offending types rather than
  their debug text. A hash set of candidate types is a list without repetitions. The strongly
  connected components of the call graph come from \<^verbatim>\<open>petgraph\<close>: \<open>kosaraju\<close> is a parameter that
  takes the number of graphs and the list of call edges.
\<close>

section \<open>Errors and contexts\<close>

datatype typeck_error =
    InvalidInEdge
  | InvalidPrecondition
  | ConstIndexOob
  | IdentIndexOob
  | ParamIndexOob
  | TypeIndexOob
  | SubgraphIndexOob
  | InEdgeCountMismatch nat tw_graph_node nat
  | ExpectingTypedNode
  | ExpectingList vm_type
  | ExpectingSet vm_type
  | NonCovariantTypes vm_type vm_type
  | NonEqualTypes vm_type vm_type
  | NotMap vm_type
  | NotTable vm_type
  | NotMapOrTable vm_type
  | NotSetType vm_type
  | TableTypeNotFound string
  | MapFieldNotPresentInTable string string
  | GraphOutputIndexOob
  | GraphEffectIndexOob
  | ParamTypeIndexOob
  | OutputTypeIndexOob
  | OutputNodeIndexOob
  | OutputTypeMismatch "vm_type option" "vm_type option"
  | ExpectingBoolOutputForFilterSubgraphs "vm_type option"
  | FieldNotPresentInTable string string
  | FieldNotPresentInMap string
  | NotPrimaryKey string string
  | UnknownParamTypeNotResolved nat nat
  | MultipleParamTypeCandidates nat nat "vm_type list"
  | ParamCountMismatch string nat nat
  | SelectTypeMismatch vm_type vm_type
  | PresenceCheckOnUnsupportedType vm_type
  | BadBinopOperands vm_type vm_type
  | InvalidListPrepend vm_type vm_type
  | CannotBuildSetFromList vm_type
  | NotList vm_type
  | NotListOrSet vm_type
  | MissingOutputFromReduce
  | CannotInsertPrimaryKey
  | RangeReduceOnNonSet

type_synonym param_candidates = "vm_type list list"

record global_tyck_context =
  tc_vm :: tw_vm
  tc_scc_post_order :: "nat list list"
  tc_expected :: "param_candidates list"

record graph_type_info =
  gti_params :: "vm_type list"
  gti_nodes :: "vm_type option list"

type_synonym global_type_info = "graph_type_info list"

type_synonym param_sink = "(nat, param_candidates) btree"

section \<open>Checks\<close>

definition index_or_panic :: "'a list \<Rightarrow> nat \<Rightarrow> ('e, 'a) outcome" where
  "index_or_panic xs i = unwrap ''index out of bounds'' (nth_opt xs i)"

definition ensure_type :: "vm_type option \<Rightarrow> (typeck_error, vm_type) outcome" where
  "ensure_type x = ok_or ExpectingTypedNode x"

definition ensure_covariant :: "vm_type \<Rightarrow> vm_type \<Rightarrow> (typeck_error, unit) outcome" where
  "ensure_covariant dst src = (if is_covariant_from dst src then Inr () else Inl (Err (NonCovariantTypes dst src)))"

definition ensure_type_eq :: "vm_type \<Rightarrow> vm_type \<Rightarrow> (typeck_error, unit) outcome" where
  "ensure_type_eq dst src = (if dst = src then Inr () else Inl (Err (NonEqualTypes dst src)))"

fun extract_list_element_type :: "vm_type \<Rightarrow> (typeck_error, vm_type) outcome" where
  "extract_list_element_type (TList x) = Inr x"
| "extract_list_element_type x = Inl (Err (ExpectingList x))"

fun extract_set_element_type :: "vm_type \<Rightarrow> (typeck_error, vm_type) outcome" where
  "extract_set_element_type (TSet x) = Inr x"
| "extract_set_element_type x = Inl (Err (ExpectingSet x))"

definition validate_in_edges ::
  "nat \<Rightarrow> tw_graph_node \<Rightarrow> nat list \<Rightarrow> vm_type option list \<Rightarrow> (typeck_error, vm_type list) outcome" where
  "validate_in_edges n node in_edges types =
     (if n \<noteq> length in_edges then Inl (Err (InEdgeCountMismatch n node (length in_edges)))
      else mapR (\<lambda>i. bindR (index_or_panic types i) ensure_type) in_edges)"

definition validate_subgraph_call ::
  "tw_vm \<Rightarrow> string \<Rightarrow> nat \<Rightarrow> param_sink \<Rightarrow> vm_type list \<Rightarrow> (typeck_error, tw_graph \<times> param_sink) outcome" where
  "validate_subgraph_call vm opname subgraph_index sink param_types =
     bindR (ok_or SubgraphIndexOob (nth_opt (s_graphs (vm_script vm)) subgraph_index)) (\<lambda>subgraph.
     if length (g_param_types subgraph) \<noteq> length param_types
     then Inl (Err (ParamCountMismatch opname (length param_types) (length (g_param_types subgraph))))
     else
       let v = (case bt_get sink subgraph_index of Some v \<Rightarrow> v | None \<Rightarrow> replicate (length param_types) []) in
       if length v \<noteq> length param_types then Inl (Panic ''assertion failed: v.len() == param_types.len()'')
       else Inr (subgraph, bt_insert subgraph_index (map2 List.insert param_types v) sink))"

definition subgraph_output :: "tw_vm \<Rightarrow> tw_graph \<Rightarrow> vm_type option" where
  "subgraph_output vm subgraph =
     Option.bind (g_output_type subgraph) (\<lambda>x. map_option vm_type_from (nth_opt (s_types (vm_script vm)) x))"

definition find_ident :: "tw_vm \<Rightarrow> nat \<Rightarrow> (typeck_error, string) outcome" where
  "find_ident vm i = ok_or IdentIndexOob (nth_opt (s_idents (vm_script vm)) i)"

definition find_table :: "tw_vm \<Rightarrow> string \<Rightarrow> (typeck_error, specialized_type) outcome" where
  "find_table vm name = ok_or (TableTypeNotFound name) (bt_get (cs_types (vm_schema vm)) name)"

text \<open>The primary key argument of \<open>DeleteFromSet\<close> and \<open>GetSetElement\<close>.\<close>

definition check_primary_key_arg :: "tw_vm \<Rightarrow> vm_type \<Rightarrow> vm_type \<Rightarrow> (typeck_error, vm_type) outcome" where
  "check_primary_key_arg vm primary_key_value_ty set_ty =
     bindR (extract_set_element_type set_ty) (\<lambda>set_member_ty.
     bindR (unwrap ''called `Option::unwrap()` on a `None` value'' (set_primary_key (vm_schema vm) set_ty)) (\<lambda>(key, _).
     case set_member_ty of
       TTable name \<Rightarrow>
         bindR (find_table vm name) (\<lambda>table_ty.
         bindR (ok_or (FieldNotPresentInTable key (st_name table_ty)) (bt_get (st_fields table_ty) key)) (\<lambda>field.
         bindR (ensure_covariant (vm_type_of_field (fst field)) primary_key_value_ty) (\<lambda>_.
         Inr set_member_ty)))
     | _ \<Rightarrow> Inl (Err (NotTable set_member_ty))))"

text \<open>The map argument of \<open>BuildTable\<close>.\<close>

definition check_map_fields :: "specialized_type \<Rightarrow> vm_type \<Rightarrow> (typeck_error, unit) outcome" where
  "check_map_fields table_ty map_ty =
     (case map_ty of
        TMap x \<Rightarrow>
          foldR (\<lambda>_ (name, actual_ty).
            case bt_get (st_fields table_ty) name of
              Some field \<Rightarrow> ensure_covariant (vm_type_of_field (fst field)) actual_ty
            | None \<Rightarrow> Inl (Err (MapFieldNotPresentInTable name (st_name table_ty)))) () x
      | _ \<Rightarrow> Inl (Err (NotMap map_ty)))"

definition check_insert_into_table :: "tw_vm \<Rightarrow> string \<Rightarrow> vm_type \<Rightarrow> vm_type \<Rightarrow> (typeck_error, unit) outcome" where
  "check_insert_into_table vm key value_ty table_ty =
     (case table_ty of
        TTable name \<Rightarrow>
          bindR (find_table vm name) (\<lambda>t.
          bindR (ok_or (FieldNotPresentInTable key (st_name t)) (bt_get (st_fields t) key)) (\<lambda>field.
          if is_primary (snd field) then Inl (Err CannotInsertPrimaryKey)
          else ensure_covariant (vm_type_of_field (fst field)) value_ty))
      | _ \<Rightarrow> Inl (Err (NotTable table_ty)))"

definition type_of_get_field :: "tw_vm \<Rightarrow> string \<Rightarrow> vm_type \<Rightarrow> (typeck_error, vm_type) outcome" where
  "type_of_get_field vm key map_or_table_ty =
     (case map_or_table_ty of
        TMap x \<Rightarrow> ok_or (FieldNotPresentInMap key) (bt_get x key)
      | TTable name \<Rightarrow>
          bindR (find_table vm name) (\<lambda>t.
          ok_or (FieldNotPresentInTable key (st_name t)) (map_option (\<lambda>x. vm_type_of_field (fst x)) (bt_get (st_fields t) key)))
      | _ \<Rightarrow> Inl (Err (NotMapOrTable map_or_table_ty)))"

definition type_of_add :: "vm_type \<Rightarrow> vm_type \<Rightarrow> (typeck_error, vm_type) outcome" where
  "type_of_add l r =
     (if l = r \<and> l \<in> {TPrimitive Int64T, TPrimitive DoubleT, TPrimitive StringT} then Inr l
      else Inl (Err (BadBinopOperands l r)))"

definition type_of_sub :: "vm_type \<Rightarrow> vm_type \<Rightarrow> (typeck_error, vm_type) outcome" where
  "type_of_sub l r =
     (if l = r \<and> l \<in> {TPrimitive Int64T, TPrimitive DoubleT} then Inr l else Inl (Err (BadBinopOperands l r)))"

text \<open>The arguments of \<open>Reduce\<close>: parameter, initial value and the list or set, with its range checked.\<close>

definition reduce_arguments ::
  "tw_vm \<Rightarrow> bool \<Rightarrow> tw_graph_node \<Rightarrow> nat list \<Rightarrow> vm_type option list \<Rightarrow> (typeck_error, vm_type \<times> vm_type \<times> vm_type) outcome" where
  "reduce_arguments vm has_range node in_edges types =
     (if has_range
      then bindR (validate_in_edges 5 node in_edges types) (\<lambda>a.
           bindR (ok_or RangeReduceOnNonSet (set_primary_key (vm_schema vm) (a ! 2))) (\<lambda>(_, primary_key_ty).
           bindR (ensure_type_eq (vm_type_of_field primary_key_ty) (a ! 3)) (\<lambda>_.
           bindR (ensure_type_eq (vm_type_of_field primary_key_ty) (a ! 4)) (\<lambda>_.
           Inr (a ! 0, a ! 1, a ! 2)))))
      else bindR (validate_in_edges 3 node in_edges types) (\<lambda>a. Inr (a ! 0, a ! 1, a ! 2)))"

definition reduce_member :: "vm_type \<Rightarrow> (typeck_error, vm_type) outcome" where
  "reduce_member ty =
     (case ty of TList x \<Rightarrow> Inr x | TSet x \<Rightarrow> Inr x | _ \<Rightarrow> Inl (Err (NotListOrSet ty)))"

section \<open>Nodes\<close>

text \<open>Nodes that have exactly as many inputs as their operation takes.\<close>

abbreviation with_inputs where
  "with_inputs n node in_edges types k \<equiv> bindR (validate_in_edges n node in_edges types) k"

definition typeck_node ::
  "tw_vm \<Rightarrow> vm_type list \<Rightarrow> vm_type option list \<Rightarrow> param_sink \<Rightarrow> tw_graph_node \<Rightarrow> nat list \<Rightarrow>
   (typeck_error, vm_type option \<times> param_sink) outcome" where
  "typeck_node vm params types sink node in_edges =
     (case node of
        BuildSet \<Rightarrow>
          with_inputs 1 node in_edges types (\<lambda>a.
          bindR (extract_list_element_type (a ! 0)) (\<lambda>element_ty.
          case element_ty of
            TTable _ \<Rightarrow> Inr (Some (TSet element_ty), sink)
          | _ \<Rightarrow> Inl (Err (CannotBuildSetFromList element_ty))))
      | BuildTable i \<Rightarrow>
          with_inputs 1 node in_edges types (\<lambda>a.
          bindR (find_ident vm i) (\<lambda>name.
          bindR (find_table vm name) (\<lambda>table_ty.
          bindR (check_map_fields table_ty (a ! 0)) (\<lambda>_.
          Inr (Some (TTable (st_name table_ty)), sink)))))
      | CreateList i \<Rightarrow>
          bindR (ok_or TypeIndexOob (nth_opt (vm_types vm) i)) (\<lambda>member_ty. Inr (Some (TList member_ty), sink))
      | CreateMap \<Rightarrow> Inr (Some (TMap []), sink)
      | DeleteFromSet \<Rightarrow>
          with_inputs 2 node in_edges types (\<lambda>a.
          bindR (check_primary_key_arg vm (a ! 0) (a ! 1)) (\<lambda>_. Inr (None, sink)))
      | DeleteFromMap i \<Rightarrow>
          with_inputs 1 node in_edges types (\<lambda>a.
          bindR (find_ident vm i) (\<lambda>key.
          case a ! 0 of
            TMap x \<Rightarrow> Inr (Some (TMap (bt_remove key x)), sink)
          | ty \<Rightarrow> Inl (Err (NotMap ty))))
      | GetField i \<Rightarrow>
          with_inputs 1 node in_edges types (\<lambda>a.
          bindR (find_ident vm i) (\<lambda>key.
          bindR (type_of_get_field vm key (a ! 0)) (\<lambda>ty. Inr (Some ty, sink))))
      | GetSetElement \<Rightarrow>
          with_inputs 2 node in_edges types (\<lambda>a.
          bindR (check_primary_key_arg vm (a ! 0) (a ! 1)) (\<lambda>ty. Inr (Some ty, sink)))
      | FilterSet i \<Rightarrow>
          with_inputs 2 node in_edges types (\<lambda>a.
          bindR (extract_set_element_type (a ! 1)) (\<lambda>set_member_ty.
          bindR (validate_subgraph_call vm ''FilterSet'' i sink [set_member_ty, a ! 0]) (\<lambda>(subgraph, sink').
          if subgraph_output vm subgraph = Some TBool then Inr (Some set_member_ty, sink')
          else Inl (Err (ExpectingBoolOutputForFilterSubgraphs (subgraph_output vm subgraph))))))
      | InsertIntoMap i \<Rightarrow>
          with_inputs 2 node in_edges types (\<lambda>a.
          bindR (find_ident vm i) (\<lambda>key.
          case a ! 1 of
            TMap x \<Rightarrow> Inr (Some (TMap (bt_insert key (a ! 0) x)), sink)
          | ty \<Rightarrow> Inl (Err (NotMap ty))))
      | InsertIntoSet \<Rightarrow>
          with_inputs 2 node in_edges types (\<lambda>a.
          case a ! 1 of
            TSet x \<Rightarrow> bindR (ensure_covariant x (a ! 0)) (\<lambda>_. Inr (None, sink))
          | ty \<Rightarrow> Inl (Err (NotSetType ty)))
      | InsertIntoTable i \<Rightarrow>
          with_inputs 2 node in_edges types (\<lambda>a.
          bindR (find_ident vm i) (\<lambda>key.
          bindR (check_insert_into_table vm key (a ! 0) (a ! 1)) (\<lambda>_. Inr (None, sink))))
      | LoadConst i \<Rightarrow>
          with_inputs 0 node in_edges types (\<lambda>_.
          bindR (ok_or ConstIndexOob (nth_opt (vm_consts vm) i)) (\<lambda>v. Inr (Some (vm_type_of_value v), sink)))
      | LoadParam i \<Rightarrow>
          bindR (ok_or ParamIndexOob (nth_opt params i)) (\<lambda>ty. Inr (Some ty, sink))
      | EqN \<Rightarrow>
          with_inputs 2 node in_edges types (\<lambda>a. bindR (ensure_covariant (a ! 0) (a ! 1)) (\<lambda>_. Inr (Some TBool, sink)))
      | NeN \<Rightarrow>
          with_inputs 2 node in_edges types (\<lambda>a. bindR (ensure_covariant (a ! 0) (a ! 1)) (\<lambda>_. Inr (Some TBool, sink)))
      | AndN \<Rightarrow>
          with_inputs 2 node in_edges types (\<lambda>a.
          bindR (ensure_type_eq (a ! 0) TBool) (\<lambda>_. bindR (ensure_type_eq (a ! 1) TBool) (\<lambda>_. Inr (Some TBool, sink))))
      | OrN \<Rightarrow>
          with_inputs 2 node in_edges types (\<lambda>a.
          bindR (ensure_type_eq (a ! 0) TBool) (\<lambda>_. bindR (ensure_type_eq (a ! 1) TBool) (\<lambda>_. Inr (Some TBool, sink))))
      | NotN \<Rightarrow>
          with_inputs 1 node in_edges types (\<lambda>a. bindR (ensure_type_eq (a ! 0) TBool) (\<lambda>_. Inr (Some TBool, sink)))
      | Select \<Rightarrow>
          with_inputs 2 node in_edges types (\<lambda>a.
          if a ! 0 \<noteq> a ! 1 then Inl (Err (SelectTypeMismatch (a ! 0) (a ! 1))) else Inr (Some (a ! 0), sink))
      | IsPresent \<Rightarrow>
          with_inputs 1 node in_edges types (\<lambda>a.
          case a ! 0 of
            TSet _ \<Rightarrow> Inr (Some TBool, sink)
          | TTable _ \<Rightarrow> Inr (Some TBool, sink)
          | ty \<Rightarrow> Inl (Err (PresenceCheckOnUnsupportedType ty)))
      | IsNull \<Rightarrow> with_inputs 1 node in_edges types (\<lambda>_. Inr (Some TBool, sink))
      | Nop \<Rightarrow> with_inputs 1 node in_edges types (\<lambda>a. Inr (Some (a ! 0), sink))
      | Call i \<Rightarrow>
          bindR (mapR (\<lambda>x. bindR (index_or_panic types x) ensure_type) in_edges) (\<lambda>param_types.
          bindR (validate_subgraph_call vm ''Call'' i sink param_types) (\<lambda>(subgraph, sink').
          Inr (subgraph_output vm subgraph, sink')))
      | Add \<Rightarrow> with_inputs 2 node in_edges types (\<lambda>a. bindR (type_of_add (a ! 0) (a ! 1)) (\<lambda>ty. Inr (Some ty, sink)))
      | Sub \<Rightarrow> with_inputs 2 node in_edges types (\<lambda>a. bindR (type_of_sub (a ! 0) (a ! 1)) (\<lambda>ty. Inr (Some ty, sink)))
      | PrependToList \<Rightarrow>
          with_inputs 2 node in_edges types (\<lambda>a.
          case a ! 1 of
            TList x \<Rightarrow>
              if is_covariant_from x (a ! 0) then Inr (Some (TList x), sink)
              else Inl (Err (InvalidListPrepend (TList x) (a ! 0)))
          | ty \<Rightarrow> Inl (Err (InvalidListPrepend ty (a ! 0))))
      | PopFromList \<Rightarrow>
          with_inputs 1 node in_edges types (\<lambda>a.
          case a ! 0 of TList x \<Rightarrow> Inr (Some (TList x), sink) | ty \<Rightarrow> Inl (Err (NotList ty)))
      | ListHead \<Rightarrow>
          with_inputs 1 node in_edges types (\<lambda>a.
          case a ! 0 of TList x \<Rightarrow> Inr (Some x, sink) | ty \<Rightarrow> Inl (Err (NotList ty)))
      | Reduce i has_range \<Rightarrow>
          bindR (reduce_arguments vm has_range node in_edges types) (\<lambda>(subgraph_param, reduce_init, list_or_set_ty).
          bindR (reduce_member list_or_set_ty) (\<lambda>member_ty.
          bindR (validate_subgraph_call vm ''Reduce'' i sink [subgraph_param, reduce_init, member_ty]) (\<lambda>(subgraph, sink').
          bindR (ok_or MissingOutputFromReduce (subgraph_output vm subgraph)) (\<lambda>output.
          bindR (ensure_covariant reduce_init output) (\<lambda>_. Inr (Some output, sink'))))))
      | Throw \<Rightarrow>
          with_inputs 1 node in_edges types (\<lambda>a.
          bindR (ensure_type_eq (TPrimitive StringT) (a ! 0)) (\<lambda>_. Inr (None, sink))))"

section \<open>Graphs\<close>

definition check_precondition :: "nat \<Rightarrow> vm_type option list \<Rightarrow> nat option \<Rightarrow> (typeck_error, unit) outcome" where
  "check_precondition i types precondition =
     (case precondition of
        None \<Rightarrow> Inr ()
      | Some j \<Rightarrow>
          if j \<ge> i then Inl (Err InvalidPrecondition)
          else bindR (index_or_panic types j) (\<lambda>ty.
               if ty \<noteq> None \<and> ty \<noteq> Some TBool then Inl (Err InvalidPrecondition) else Inr ()))"

definition typeck_step ::
  "tw_vm \<Rightarrow> vm_type list \<Rightarrow> vm_type option list \<times> param_sink \<Rightarrow> tw_graph_node \<times> nat list \<times> nat option \<Rightarrow>
   (typeck_error, vm_type option list \<times> param_sink) outcome" where
  "typeck_step vm params st n =
     (case (st, n) of ((types, sink), (node, in_edges, precondition)) \<Rightarrow>
      if \<exists>j \<in> set in_edges. j \<ge> length types then Inl (Err InvalidInEdge)
      else bindR (check_precondition (length types) types precondition) (\<lambda>_.
           bindR (typeck_node vm params types sink node in_edges) (\<lambda>(ty, sink').
           Inr (types @ [ty], sink'))))"

definition resolve_param ::
  "tw_vm \<Rightarrow> nat \<Rightarrow> nat \<Rightarrow> vm_type \<Rightarrow> vm_type list \<Rightarrow> (typeck_error, vm_type) outcome" where
  "resolve_param vm graph_index i p expected =
     bindR (if p = TUnknown
            then (case expected of
                    [] \<Rightarrow> Inl (Err (UnknownParamTypeNotResolved i graph_index))
                  | [ty] \<Rightarrow> Inr ty
                  | _ \<Rightarrow> Inl (Err (MultipleParamTypeCandidates i graph_index expected)))
            else foldR (\<lambda>p x. bindR (ensure_covariant p x) (\<lambda>_. Inr p)) p expected) (\<lambda>p'.
     Inr (if p' = TSchema then vm_type_of_schema (vm_schema vm) else p'))"

definition resolve_params ::
  "tw_vm \<Rightarrow> param_candidates list \<Rightarrow> nat \<Rightarrow> vm_type list \<Rightarrow> (typeck_error, vm_type list) outcome" where
  "resolve_params vm expected graph_index params =
     mapR (\<lambda>(i, p).
       bindR (index_or_panic expected graph_index) (\<lambda>cs.
       bindR (index_or_panic cs i) (\<lambda>e. resolve_param vm graph_index i p e))) (enumerate 0 params)"

definition check_output ::
  "vm_type option \<Rightarrow> nat option \<Rightarrow> vm_type option list \<Rightarrow> (typeck_error, unit) outcome" where
  "check_output output_type output types =
     bindR (option_mapR (\<lambda>x. bindR (ok_or OutputNodeIndexOob (nth_opt types x)) ensure_type) output) (\<lambda>actual_output_ty.
     case (output_type, actual_output_ty) of
       (Some a, Some b) \<Rightarrow> ensure_covariant a b
     | (None, None) \<Rightarrow> Inr ()
     | _ \<Rightarrow> Inl (Err (OutputTypeMismatch output_type actual_output_ty)))"

definition typeck_graph ::
  "tw_vm \<Rightarrow> param_candidates list \<Rightarrow> nat \<Rightarrow> param_sink \<Rightarrow> (typeck_error, graph_type_info \<times> param_sink) outcome" where
  "typeck_graph vm expected graph_index sink =
     bindR (index_or_panic (s_graphs (vm_script vm)) graph_index) (\<lambda>g.
     if (case g_output g of Some x \<Rightarrow> x \<ge> length (g_nodes g) | None \<Rightarrow> False) then Inl (Err GraphOutputIndexOob)
     else
       bindR (option_mapR (\<lambda>x. ok_or OutputTypeIndexOob (nth_opt (vm_types vm) x)) (g_output_type g)) (\<lambda>output_type.
       bindR (mapR (\<lambda>x. ok_or ParamTypeIndexOob (nth_opt (vm_types vm) x)) (g_param_types g)) (\<lambda>declared.
       bindR (resolve_params vm expected graph_index declared) (\<lambda>params.
       bindR (foldR (typeck_step vm params) ([], sink) (g_nodes g)) (\<lambda>(types, sink').
       bindR (check_output output_type (g_output g) types) (\<lambda>_.
       Inr (\<lparr>gti_params = params, gti_nodes = types\<rparr>, sink')))))))"

section \<open>Scripts\<close>

definition call_edges :: "tw_script \<Rightarrow> (typeck_error, (nat \<times> nat) list) outcome" where
  "call_edges script =
     foldR (\<lambda>es (i, g).
       foldR (\<lambda>es (n, _, _).
         foldR (\<lambda>es r. bindR (ok_or SubgraphIndexOob (nth_opt (s_graphs script) r)) (\<lambda>_. Inr (es @ [(i, r)])))
           es (subgraph_references n))
         es (g_nodes g))
       [] (enumerate 0 (s_graphs script))"

definition tyck_new ::
  "(nat \<Rightarrow> (nat \<times> nat) list \<Rightarrow> nat list list) \<Rightarrow> tw_vm \<Rightarrow> (typeck_error, global_tyck_context) outcome" where
  "tyck_new kosaraju vm =
     bindR (call_edges (vm_script vm)) (\<lambda>edges.
     Inr \<lparr>tc_vm = vm, tc_scc_post_order = kosaraju (length (s_graphs (vm_script vm))) edges,
       tc_expected = map (\<lambda>g. replicate (length (g_param_types g)) []) (s_graphs (vm_script vm))\<rparr>)"

definition merge_candidates ::
  "param_candidates list \<Rightarrow> nat \<times> param_candidates \<Rightarrow> (typeck_error, param_candidates list) outcome" where
  "merge_candidates expected entry =
     (case entry of (i, x) \<Rightarrow>
      bindR (index_or_panic expected i) (\<lambda>y.
      if length x \<noteq> length y then Inl (Panic ''assertion failed: x.len() == y.len()'')
      else Inr (expected[i := map2 (fold List.insert) x y])))"

definition typeck_scc ::
  "tw_vm \<Rightarrow> global_type_info \<times> param_candidates list \<Rightarrow> nat list \<Rightarrow>
   (typeck_error, global_type_info \<times> param_candidates list) outcome" where
  "typeck_scc vm st scc =
     (case st of (type_info, expected) \<Rightarrow>
      bindR (foldR (\<lambda>(info, sink) i.
          bindR (typeck_graph vm expected i sink) (\<lambda>(g, sink').
          if i < length info then Inr (info[i := g], sink') else Inl (Panic ''index out of bounds''))) (type_info, []) scc)
        (\<lambda>(info, sink).
      bindR (foldR merge_candidates expected sink) (\<lambda>expected'. Inr (info, expected'))))"

definition typeck :: "global_tyck_context \<Rightarrow> (typeck_error, global_type_info) outcome" where
  "typeck ctx =
     bindR (foldR (typeck_scc (tc_vm ctx))
       (map (\<lambda>_. \<lparr>gti_params = [], gti_nodes = []\<rparr>) (s_graphs (vm_script (tc_vm ctx))), tc_expected ctx)
       (rev (tc_scc_post_order ctx))) (\<lambda>(info, _). Inr info)"

end
