(* ===== verification/Exec_Graph.thy ===== *)
theory Exec_Graph
  imports Exec_Storage Typeck
begin

text \<open>
  The executor of compiled graphs (\<^verbatim>\<open>treewalker/exec.rs\<close>): the nodes, the data-flow scheduler and the
  retry loop around a transaction.

  A graph runs its nodes as futures. The model runs a future in one piece when the
  scheduler selects it; which of the waiting futures completes next is decided by a function
  \<open>pick\<close> that sees the whole state of the run, so every order of completion is covered.
  The recursive call of \<^verbatim>\<open>recursively_run_graph\<close> is passed to the node as an argument, and
  the recursion goes down on the number of levels that are left of \<^verbatim>\<open>MAX_RECURSION_DEPTH\<close>.
  The text of a \<^verbatim>\<open>NotImplemented\<close> error on \<open>FilterSet\<close> is shortened.
\<close>

section \<open>Fire rules\<close>

datatype fire_rule_kind = ParamDep nat | Precondition

record fire_rule_item =
  fr_target :: nat
  fr_kind :: fire_rule_kind

type_synonym fire_rule_table = "fire_rule_item list list"

definition push_rule :: "fire_rule_table \<Rightarrow> nat \<Rightarrow> fire_rule_item \<Rightarrow> ('e, fire_rule_table) outcome" where
  "push_rule m source item =
     (if source < length m then Inr (m[source := m ! source @ [item]]) else Inl (Panic ''index out of bounds''))"

definition node_rules ::
  "fire_rule_table \<Rightarrow> nat \<times> tw_graph_node \<times> nat list \<times> nat option \<Rightarrow> ('e, fire_rule_table) outcome" where
  "node_rules m n =
     (case n of (target, _, in_edges, precondition) \<Rightarrow>
      bindR (foldR (\<lambda>m (pos, source). push_rule m source \<lparr>fr_target = target, fr_kind = ParamDep pos\<rparr>) m (enumerate 0 in_edges)) (\<lambda>m'.
      case precondition of
        Some source \<Rightarrow> push_rule m' source \<lparr>fr_target = target, fr_kind = Precondition\<rparr>
      | None \<Rightarrow> Inr m'))"

definition generate_fire_rules :: "tw_graph \<Rightarrow> ('e, fire_rule_table) outcome" where
  "generate_fire_rules g = foldR node_rules (replicate (length (g_nodes g)) []) (enumerate 0 (g_nodes g))"

section \<open>Nodes\<close>

definition MAX_RECURSION_DEPTH :: nat where
  "MAX_RECURSION_DEPTH = 128"

abbreviation unreachable :: "('e, 'a) outcome" where
  "unreachable \<equiv> Inl (Panic ''internal error: entered unreachable code'')"

fun as_list :: "vm_value \<Rightarrow> ('e, vm_type \<times> vm_value list) outcome" where
  "as_list (VList ty xs) = Inr (ty, xs)"
| "as_list _ = unreachable"

fun as_map :: "vm_value \<Rightarrow> ('e, (string \<times> vm_value) list) outcome" where
  "as_map (VMap x) = Inr x"
| "as_map _ = unreachable"

fun as_primitive :: "vm_value \<Rightarrow> ('e, primitive_value) outcome" where
  "as_primitive (VPrimitive x) = Inr x"
| "as_primitive _ = unreachable"

fun as_set :: "vm_value \<Rightarrow> ('e, vm_type \<times> (bytes \<times> vm_value) list residence) outcome" where
  "as_set (VSet ty kind) = Inr (ty, kind)"
| "as_set _ = unreachable"

fun as_table_name :: "vm_type \<Rightarrow> ('e, string) outcome" where
  "as_table_name (TTable name) = Inr name"
| "as_table_name _ = unreachable"

fun resident :: "'f residence \<Rightarrow> ('e exec_error, path_walker) outcome" where
  "resident (Resident w) = Inr w"
| "resident (Fresh _) = Inl (Err FreshTableOrSetNotSupported)"

definition build_set :: "externs \<Rightarrow> tw_vm \<Rightarrow> vm_value \<Rightarrow> ('e exec_error, vm_value) outcome" where
  "build_set E vm v =
     bindR (as_list v) (\<lambda>(member_ty, xs).
     bindR (unwrap ''inconsistency: primary key not found'' (set_primary_key (vm_schema vm) (TSet member_ty))) (\<lambda>(primary_key, _).
     bindR (foldR (\<lambda>members n.
         bindR (unwrap_table n) (\<lambda>t.
         case snd t of
           Fresh _ \<Rightarrow> bindR (fresh_primary_key E primary_key (snd t)) (\<lambda>k. Inr (bt_insert k n members))
         | Resident _ \<Rightarrow> Inl (Err (NotImplemented ''table copy is not implemented'')))) [] xs) (\<lambda>members.
     Inr (VSet member_ty (Fresh members)))))"

definition build_table :: "tw_vm \<Rightarrow> nat \<Rightarrow> vm_value \<Rightarrow> ('e exec_error, vm_value) outcome" where
  "build_table vm i v =
     bindR (as_map v) (\<lambda>m.
     bindR (index_or_panic (s_idents (vm_script vm)) i) (\<lambda>ty.
     bindR (unwrap unwrap_none (bt_get (cs_types (vm_schema vm)) ty)) (\<lambda>specialized_ty.
     Inr (VTable ty (Fresh (foldl (\<lambda>table (field, fty, _).
       bt_insert field (case bt_get m field of Some x \<Rightarrow> x | None \<Rightarrow> VNull (vm_type_of_field fty)) table)
       [] (st_fields specialized_ty)))))))"

definition ident_at :: "tw_vm \<Rightarrow> nat \<Rightarrow> ('e, string) outcome" where
  "ident_at vm i = unwrap unwrap_none (nth_opt (s_idents (vm_script vm)) i)"

definition get_set_element :: "externs \<Rightarrow> vm_value \<Rightarrow> vm_value \<Rightarrow> ('e exec_error, vm_value) outcome" where
  "get_set_element E key sv =
     bindR (as_primitive key) (\<lambda>primary_key_value.
     bindR (as_set sv) (\<lambda>(ty, kind).
     bindR (as_table_name ty) (\<lambda>member_ty.
     bindR (resident kind) (\<lambda>walker.
     bindR (unwrap_path unwrap_err (enter_set E walker primary_key_value)) (\<lambda>w.
     Inr (VTable member_ty (Resident w)))))))"

definition insert_into_set ::
  "externs \<Rightarrow> tw_vm \<Rightarrow> ('e, 't) kv_transaction \<Rightarrow> 't \<Rightarrow> vm_value \<Rightarrow> vm_value \<Rightarrow> ('e exec_error, 't) outcome" where
  "insert_into_set E vm kv t val sv =
     bindR (unwrap ''inconsistency: primary key not found for set member''
       (set_primary_key (vm_schema vm) (vm_type_of_value sv))) (\<lambda>(primary_key, _).
     bindR (unwrap_table val) (\<lambda>table.
     bindR (read_table_element E (vm_schema vm) kv t table primary_key) (\<lambda>pv.
     bindR (unwrap_set sv) (\<lambda>(_, kind).
     bindR (unwrap_primitive pv) (\<lambda>p.
     let primary_key_value = serialize_for_key_component E p in
     bindR (resident kind) (\<lambda>walker.
     bindR (unwrap_path unwrap_err (set_fast_scan_prefix walker)) (\<lambda>fast_scan_prefix.
     bindR (lift_kv (kv_put kv t (fast_scan_prefix @ primary_key_value) [])) (\<lambda>t1.
     bindR (unwrap_path unwrap_err (enter_set_raw walker primary_key_value)) (\<lambda>w.
     walk_and_insert E kv t1 w val)))))))))"

definition insert_into_table ::
  "externs \<Rightarrow> ('e, 't) kv_transaction \<Rightarrow> 't \<Rightarrow> string \<Rightarrow> vm_value \<Rightarrow> vm_value \<Rightarrow> ('e exec_error, 't) outcome" where
  "insert_into_table E kv t key val tv =
     bindR (unwrap_table tv) (\<lambda>table.
     bindR (resident (snd table)) (\<lambda>walker.
     bindR (unwrap_path unwrap_err (enter_field walker key)) (\<lambda>w.
     walk_and_insert E kv t w val)))"

definition delete_from_set ::
  "externs \<Rightarrow> ('e, 't) kv_transaction \<Rightarrow> 't \<Rightarrow> vm_value \<Rightarrow> vm_value \<Rightarrow> ('e exec_error, 't) outcome" where
  "delete_from_set E kv t key sv =
     bindR (as_primitive key) (\<lambda>primary_key_value.
     bindR (as_set sv) (\<lambda>(_, kind).
     bindR (resident kind) (\<lambda>walker.
     delete_entry_from_set E kv t walker primary_key_value)))"

definition is_present :: "('e, 't) kv_transaction \<Rightarrow> 't \<Rightarrow> vm_value \<Rightarrow> ('e exec_error, bool) outcome" where
  "is_present kv t v =
     (let present = (\<lambda>w. bindR (lift_kv (kv_get kv t (generate_key w))) (\<lambda>x. Inr (x \<noteq> None))) in
      case v of
        VSet _ (Fresh _) \<Rightarrow> Inr True
      | VSet _ (Resident w) \<Rightarrow> present w
      | VTable _ (Fresh _) \<Rightarrow> Inr True
      | VTable _ (Resident w) \<Rightarrow> present w
      | _ \<Rightarrow> unreachable)"

definition add_values :: "externs \<Rightarrow> vm_value \<Rightarrow> vm_value \<Rightarrow> ('e, vm_value) outcome" where
  "add_values E x y =
     (case (x, y) of
        (VPrimitive (PInt64 l), VPrimitive (PInt64 r)) \<Rightarrow> Inr (VPrimitive (PInt64 (l + r)))
      | (VPrimitive (PDouble l), VPrimitive (PDouble r)) \<Rightarrow> Inr (VPrimitive (PDouble (f64_add E l r)))
      | (VPrimitive (PString l), VPrimitive (PString r)) \<Rightarrow> Inr (VPrimitive (PString (l @ r)))
      | _ \<Rightarrow> unreachable)"

definition sub_values :: "externs \<Rightarrow> vm_value \<Rightarrow> vm_value \<Rightarrow> ('e, vm_value) outcome" where
  "sub_values E x y =
     (case (x, y) of
        (VPrimitive (PInt64 l), VPrimitive (PInt64 r)) \<Rightarrow> Inr (VPrimitive (PInt64 (l - r)))
      | (VPrimitive (PDouble l), VPrimitive (PDouble r)) \<Rightarrow> Inr (VPrimitive (PDouble (f64_sub E l r)))
      | _ \<Rightarrow> unreachable)"

text \<open>The loop of \<open>Reduce\<close>: it ends early when the subgraph returns null.\<close>

fun reduce_loop ::
  "(vm_value list \<Rightarrow> 't \<Rightarrow> ('e, vm_value option \<times> 't) outcome) \<Rightarrow> ('k \<Rightarrow> ('e, vm_value) outcome) \<Rightarrow>
   vm_value \<Rightarrow> vm_value \<Rightarrow> 'k list \<Rightarrow> 't \<Rightarrow> ('e, vm_value \<times> 't) outcome" where
  "reduce_loop call elem param acc [] t = Inr (acc, t)"
| "reduce_loop call elem param acc (k # ks) t =
     bindR (elem k) (\<lambda>x.
     bindR (call [param, acc, x] t) (\<lambda>(output, t').
     bindR (unwrap ''inconsistency: ReduceList did not get an output from subgraph'' output) (\<lambda>v.
     if is_null v then Inr (acc, t') else reduce_loop call elem param v ks t')))"

definition reduce_range :: "externs \<Rightarrow> bool \<Rightarrow> vm_value list \<Rightarrow> bytes \<Rightarrow> ('e exec_error, bytes \<times> bytes) outcome" where
  "reduce_range E has_range params range_prefix =
     bindR (increment_last range_prefix) (\<lambda>range_end.
     if has_range
     then bindR (index_or_panic params 3) (\<lambda>maybe_start.
          bindR (index_or_panic params 4) (\<lambda>maybe_end.
          bindR (if is_null maybe_start then Inr range_prefix
                 else bindR (unwrap_primitive maybe_start) (\<lambda>p. Inr (range_prefix @ serialize_for_key_component E p))) (\<lambda>s.
          bindR (if is_null maybe_end then Inr range_end
                 else bindR (unwrap_primitive maybe_end) (\<lambda>p.
                      Inr (butlast range_end @ [last range_end - 1] @ serialize_for_key_component E p))) (\<lambda>e.
          Inr (s, e)))))
     else Inr (range_prefix, range_end))"

definition set_member :: "string \<Rightarrow> path_walker \<Rightarrow> bytes \<Rightarrow> bytes \<Rightarrow> ('e exec_error, vm_value) outcome" where
  "set_member ty walker range_prefix k =
     (if prefix range_prefix k
      then bindR (unwrap_path unwrap_err (enter_set_raw walker (drop (length range_prefix) k))) (\<lambda>w.
           Inr (VTable ty (Resident w)))
      else Inl (Panic unwrap_none))"

definition run_reduce ::
  "externs \<Rightarrow> tw_vm \<Rightarrow> ('e, 't) kv_transaction \<Rightarrow> (vm_value list \<Rightarrow> 't \<Rightarrow> ('e exec_error, vm_value option \<times> 't) outcome) \<Rightarrow>
   bool \<Rightarrow> vm_value list \<Rightarrow> 't \<Rightarrow> vm_type option \<Rightarrow> ('e exec_error, vm_value option \<times> 't) outcome" where
  "run_reduce E vm kv call has_range params t type_info =
     bindR (index_or_panic params 0) (\<lambda>subgraph_param.
     bindR (index_or_panic params 1) (\<lambda>reduce_init.
     bindR (index_or_panic params 2) (\<lambda>list_or_set.
     if is_null list_or_set then Inr (map_option VNull type_info, t)
     else
       bindR (case list_or_set of
           VList _ xs \<Rightarrow> reduce_loop call Inr subgraph_param reduce_init xs t
         | VSet member_ty kind \<Rightarrow>
             bindR (resident kind) (\<lambda>walker.
             bindR (as_table_name member_ty) (\<lambda>name.
             bindR (unwrap unwrap_none (bt_get (cs_types (vm_schema vm)) name)) (\<lambda>specialized_ty.
             bindR (unwrap_path unwrap_err (set_fast_scan_prefix walker)) (\<lambda>range_prefix.
             bindR (reduce_range E has_range params range_prefix) (\<lambda>(s, e).
             bindR (lift_kv (kv_scan_keys kv t s e)) (\<lambda>ks.
             reduce_loop call (set_member (st_name specialized_ty) walker range_prefix) subgraph_param reduce_init ks t))))))
         | _ \<Rightarrow> unreachable) (\<lambda>(v, t'). Inr (Some v, t')))))"

text \<open>The value of a node and the transaction afterwards; an effect node has no value.\<close>

definition run_node ::
  "externs \<Rightarrow> tw_vm \<Rightarrow> ('e, 't) kv_transaction \<Rightarrow> (nat \<Rightarrow> vm_value list \<Rightarrow> 't \<Rightarrow> ('e exec_error, vm_value option \<times> 't) outcome) \<Rightarrow>
   tw_graph_node \<Rightarrow> vm_value list \<Rightarrow> 't \<Rightarrow> vm_value list \<Rightarrow> vm_type option \<Rightarrow>
   ('e exec_error, vm_value option \<times> 't) outcome" where
  "run_node E vm kv call n params t graph_params type_info =
     (let p = index_or_panic params;
          value = (\<lambda>v. Inr (Some v, t));
          effect = (\<lambda>t'. Inr (None, t')) in
      if is_optional_chained n \<and> (\<exists>x \<in> set params. is_null x) then Inr (map_option VNull type_info, t)
      else case n of
        BuildSet \<Rightarrow> bindR (p 0) (\<lambda>l. bindR (build_set E vm l) value)
      | BuildTable i \<Rightarrow> bindR (p 0) (\<lambda>m. bindR (build_table vm i m) value)
      | CreateMap \<Rightarrow> value (VMap [])
      | DeleteFromMap i \<Rightarrow>
          bindR (p 0) (\<lambda>m.
          if is_null m then value m
          else bindR (as_map m) (\<lambda>x. bindR (ident_at vm i) (\<lambda>key. value (VMap (bt_remove key x)))))
      | GetField i \<Rightarrow>
          bindR (ident_at vm i) (\<lambda>key.
          bindR (p 0) (\<lambda>m.
          case m of
            VMap x \<Rightarrow> bindR (unwrap ''map field not found'' (bt_get x key)) value
          | VTable ty kind \<Rightarrow> bindR (read_table_element E (vm_schema vm) kv t (ty, kind) key) value
          | _ \<Rightarrow> unreachable))
      | GetSetElement \<Rightarrow> bindR (p 0) (\<lambda>k. bindR (p 1) (\<lambda>s. bindR (get_set_element E k s) value))
      | InsertIntoMap i \<Rightarrow>
          bindR (p 0) (\<lambda>v.
          bindR (p 1) (\<lambda>m.
          if is_null m then value m
          else bindR (as_map m) (\<lambda>x. bindR (ident_at vm i) (\<lambda>key. value (VMap (bt_insert key v x))))))
      | InsertIntoSet \<Rightarrow> bindR (p 0) (\<lambda>v. bindR (p 1) (\<lambda>s. bindR (insert_into_set E vm kv t v s) effect))
      | InsertIntoTable i \<Rightarrow>
          bindR (ident_at vm i) (\<lambda>key. bindR (p 0) (\<lambda>v. bindR (p 1) (\<lambda>m. bindR (insert_into_table E kv t key v m) effect)))
      | LoadConst i \<Rightarrow> bindR (index_or_panic (vm_consts vm) i) value
      | LoadParam i \<Rightarrow> bindR (index_or_panic graph_params i) value
      | DeleteFromSet \<Rightarrow> bindR (p 0) (\<lambda>k. bindR (p 1) (\<lambda>s. bindR (delete_from_set E kv t k s) effect))
      | EqN \<Rightarrow> bindR (p 0) (\<lambda>l. bindR (p 1) (\<lambda>r. value (VBool (vm_value_eq l r))))
      | NeN \<Rightarrow> bindR (p 0) (\<lambda>l. bindR (p 1) (\<lambda>r. value (VBool (\<not> vm_value_eq l r))))
      | AndN \<Rightarrow> bindR (p 0) (\<lambda>l. bindR (unwrap_bool l) (\<lambda>a. bindR (p 1) (\<lambda>r. bindR (unwrap_bool r) (\<lambda>b. value (VBool (a \<and> b))))))
      | OrN \<Rightarrow> bindR (p 0) (\<lambda>l. bindR (unwrap_bool l) (\<lambda>a. bindR (p 1) (\<lambda>r. bindR (unwrap_bool r) (\<lambda>b. value (VBool (a \<or> b))))))
      | NotN \<Rightarrow> bindR (p 0) (\<lambda>x. bindR (unwrap_bool x) (\<lambda>a. value (VBool (\<not> a))))
      | IsPresent \<Rightarrow> bindR (p 0) (\<lambda>x. bindR (is_present kv t x) (\<lambda>b. value (VBool b)))
      | IsNull \<Rightarrow> bindR (p 0) (\<lambda>x. value (VBool (is_null x)))
      | Nop \<Rightarrow> bindR (p 0) value
      | Call i \<Rightarrow> call i params t
      | Add \<Rightarrow> bindR (p 0) (\<lambda>l. bindR (p 1) (\<lambda>r. bindR (add_values E l r) value))
      | Sub \<Rightarrow> bindR (p 0) (\<lambda>l. bindR (p 1) (\<lambda>r. bindR (sub_values E l r) value))
      | CreateList i \<Rightarrow> bindR (unwrap unwrap_none (nth_opt (vm_types vm) i)) (\<lambda>ty. value (VList ty []))
      | PrependToList \<Rightarrow>
          bindR (p 0) (\<lambda>v. bindR (p 1) (\<lambda>l. bindR (as_list l) (\<lambda>(ty, xs). value (VList ty (v # xs)))))
      | PopFromList \<Rightarrow>
          bindR (p 0) (\<lambda>l. bindR (as_list l) (\<lambda>(ty, xs).
          value (case xs of _ # ys \<Rightarrow> VList ty ys | [] \<Rightarrow> VNull (vm_type_of_value l))))
      | ListHead \<Rightarrow>
          bindR (p 0) (\<lambda>l. bindR (as_list l) (\<lambda>(ty, xs). value (case xs of x # _ \<Rightarrow> x | [] \<Rightarrow> VNull ty)))
      | Select \<Rightarrow> Inl (Panic ''inconsistency: got select in run_node'')
      | FilterSet i \<Rightarrow> Inl (Err (NotImplemented ''FilterSet''))
      | Reduce i has_range \<Rightarrow> run_reduce E vm kv (call i) has_range params t type_info
      | Throw \<Rightarrow>
          bindR (p 0) (\<lambda>msg.
          if is_null msg then Inl (Err ScriptThrownNull)
          else bindR (unwrap_primitive msg) (\<lambda>x. bindR (unwrap_string x) (\<lambda>m. Inl (Err (ScriptThrownError m))))))"

section \<open>The scheduler\<close>

datatype future = NodeRun nat "vm_value list" | SelectRun nat vm_value

fun future_node :: "future \<Rightarrow> nat" where
  "future_node (NodeRun i _) = i"
| "future_node (SelectRun i _) = i"

record 't run_state =
  rs_deps :: "vm_value option list list"
  rs_pre :: "bool list"
  rs_futures :: "future list"
  rs_ret :: "vm_value option"
  rs_txn :: 't

definition initial_futures :: "tw_graph \<Rightarrow> future list" where
  "initial_futures g =
     map (\<lambda>(i, _). NodeRun i []) (List.filter (\<lambda>(_, _, in_edges, pre). in_edges = [] \<and> pre = None) (enumerate 0 (g_nodes g)))"

definition initial_state :: "tw_graph \<Rightarrow> 't \<Rightarrow> 't run_state" where
  "initial_state g t =
     \<lparr>rs_deps = map (\<lambda>(_, in_edges, _). replicate (length in_edges) None) (g_nodes g),
      rs_pre = map (\<lambda>(_, _, pre). pre = None) (g_nodes g),
      rs_futures = initial_futures g, rs_ret = None, rs_txn = t\<rparr>"

text \<open>\<^verbatim>\<open>select_all\<close> takes the completed future out of the vector by \<^verbatim>\<open>swap_remove\<close>.\<close>

definition swap_remove :: "'a list \<Rightarrow> nat \<Rightarrow> 'a list" where
  "swap_remove xs k = butlast (xs[k := last xs])"

definition run_future ::
  "(tw_graph_node \<Rightarrow> vm_value list \<Rightarrow> 't \<Rightarrow> vm_type option \<Rightarrow> ('e, vm_value option \<times> 't) outcome) \<Rightarrow>
   tw_graph \<Rightarrow> graph_type_info \<Rightarrow> future \<Rightarrow> 't \<Rightarrow> ('e, vm_value option \<times> 't) outcome" where
  "run_future run g info f t =
     (case f of
        NodeRun i params \<Rightarrow>
          bindR (index_or_panic (g_nodes g) i) (\<lambda>(n, _, _).
          bindR (index_or_panic (gti_nodes info) i) (\<lambda>ty. run n params t ty))
      | SelectRun i x \<Rightarrow> Inr (Some x, t))"

fun precondition_value :: "vm_value option \<Rightarrow> ('e, bool) outcome" where
  "precondition_value (Some (VBool x)) = Inr x"
| "precondition_value (Some (VNull _)) = Inr False"
| "precondition_value None = Inr True"
| "precondition_value _ = Inl (Panic ''inconsistency detected: invalid precondition'')"

text \<open>The first pass over the fire rules of a completed node records its result.\<close>

definition record_result ::
  "vm_value option \<Rightarrow> vm_value option list list \<times> bool list \<Rightarrow> fire_rule_item \<Rightarrow>
   ('e, vm_value option list list \<times> bool list) outcome" where
  "record_result result st item =
     (case st of (deps, pre) \<Rightarrow>
      case fr_kind item of
        ParamDep pos \<Rightarrow>
          bindR (unwrap ''run_graph: node is a parameter dependency but does not produce a value'' result) (\<lambda>v.
          bindR (index_or_panic deps (fr_target item)) (\<lambda>d.
          if pos < length d then Inr (deps[fr_target item := d[pos := Some v]], pre)
          else Inl (Panic ''index out of bounds'')))
      | Precondition \<Rightarrow>
          bindR (precondition_value result) (\<lambda>b.
          if fr_target item < length pre then Inr (deps, pre[fr_target item := b])
          else Inl (Panic ''index out of bounds'')))"

text \<open>The second pass starts the nodes that have become ready.\<close>

definition fire ::
  "tw_graph \<Rightarrow> bool list \<Rightarrow> vm_value option list list \<times> future list \<Rightarrow> fire_rule_item \<Rightarrow>
   ('e exec_error, vm_value option list list \<times> future list) outcome" where
  "fire g pre st item =
     (case st of (deps, futures) \<Rightarrow>
      let target = fr_target item in
      bindR (index_or_panic (g_nodes g) target) (\<lambda>(n, _, _).
      bindR (index_or_panic pre target) (\<lambda>ready.
      if \<not> ready then Inr (deps, futures)
      else bindR (index_or_panic deps target) (\<lambda>d.
        if is_select n
        then if d = [] then Inl (Err BothSelectCandidatesFired)
             else (case find_map id d of
                     Some x \<Rightarrow> Inr (deps[target := []], futures @ [SelectRun target x])
                   | None \<Rightarrow> Inr (deps, futures))
        else if None \<in> set d then Inr (deps, futures)
             else Inr (deps[target := []], futures @ [NodeRun target (map the d)])))))"

definition complete_node ::
  "tw_graph \<Rightarrow> fire_rule_table \<Rightarrow> nat \<Rightarrow> vm_value option \<Rightarrow> 't run_state \<Rightarrow> ('e exec_error, 't run_state) outcome" where
  "complete_node g rules i result s =
     bindR (index_or_panic rules i) (\<lambda>to_fire.
     bindR (foldR (record_result result) (rs_deps s, rs_pre s) to_fire) (\<lambda>(deps, pre).
     bindR (foldR (fire g pre) (deps, rs_futures s) to_fire) (\<lambda>(deps', futures).
     Inr (s\<lparr>rs_deps := deps', rs_pre := pre, rs_futures := futures,
       rs_ret := (if Some i = g_output g then result else rs_ret s)\<rparr>))))"

text \<open>One round of the loop: the future that \<open>pick\<close> names completes.\<close>

definition run_round ::
  "(tw_graph_node \<Rightarrow> vm_value list \<Rightarrow> 't \<Rightarrow> vm_type option \<Rightarrow> ('e exec_error, vm_value option \<times> 't) outcome) \<Rightarrow>
   tw_graph \<Rightarrow> graph_type_info \<Rightarrow> fire_rule_table \<Rightarrow> nat \<Rightarrow> 't run_state \<Rightarrow> ('e exec_error, 't run_state) outcome" where
  "run_round run g info rules k s =
     bindR (index_or_panic (rs_futures s) k) (\<lambda>f.
     bindR (run_future run g info f (rs_txn s)) (\<lambda>(result, t).
     complete_node g rules (future_node f) result
       (s\<lparr>rs_futures := swap_remove (rs_futures s) k, rs_txn := t\<rparr>)))"

fun run_loop ::
  "nat \<Rightarrow> ('t run_state \<Rightarrow> nat) \<Rightarrow>
   (tw_graph_node \<Rightarrow> vm_value list \<Rightarrow> 't \<Rightarrow> vm_type option \<Rightarrow> ('e exec_error, vm_value option \<times> 't) outcome) \<Rightarrow>
   tw_graph \<Rightarrow> graph_type_info \<Rightarrow> fire_rule_table \<Rightarrow> 't run_state \<Rightarrow> ('e exec_error, vm_value option \<times> 't) outcome" where
  "run_loop fuel pick run g info rules s =
     (if rs_futures s = [] then Inr (rs_ret s, rs_txn s)
      else case fuel of
        0 \<Rightarrow> Inl OutOfFuel
      | Suc n \<Rightarrow>
          bindR (run_round run g info rules (pick s mod length (rs_futures s)) s) (\<lambda>s'.
          run_loop n pick run g info rules s'))"

text \<open>
  The weight of a node bounds the rounds that its completion can lead to: the node itself and
  the weights of the targets of its fire rules, which come later in a checked graph. The
  total weight is the fuel of the loop.
\<close>

fun weights_from :: "nat \<Rightarrow> fire_rule_table \<Rightarrow> nat list" where
  "weights_from i [] = []"
| "weights_from i (items # rest) =
     (let ws = weights_from (Suc i) rest in
      Suc (sum_list (map (\<lambda>item. if i < fr_target item \<and> fr_target item - Suc i < length ws then ws ! (fr_target item - Suc i) else 0) items)) # ws)"

definition loop_fuel :: "fire_rule_table \<Rightarrow> nat" where
  "loop_fuel rules = sum_list (weights_from 0 rules)"

section \<open>The executor\<close>

record ('e, 't) executor =
  ex_vm :: tw_vm
  ex_kv :: "('e, 't) kv_transaction"
  ex_type_info :: global_type_info
  ex_fire_rules :: "fire_rule_table list"

definition executor_new ::
  "tw_vm \<Rightarrow> ('e, 't) kv_transaction \<Rightarrow> global_type_info \<Rightarrow> ('e exec_error, ('e, 't) executor) outcome" where
  "executor_new vm kv info =
     bindR (mapR generate_fire_rules (s_graphs (vm_script vm))) (\<lambda>rules.
     Inr \<lparr>ex_vm = vm, ex_kv = kv, ex_type_info = info, ex_fire_rules = rules\<rparr>)"

definition run_body ::
  "externs \<Rightarrow> ('e, 't) executor \<Rightarrow> ('t run_state \<Rightarrow> nat) \<Rightarrow>
   (nat \<Rightarrow> vm_value list \<Rightarrow> 't \<Rightarrow> ('e exec_error, vm_value option \<times> 't) outcome) \<Rightarrow>
   nat \<Rightarrow> vm_value list \<Rightarrow> 't \<Rightarrow> ('e exec_error, vm_value option \<times> 't) outcome" where
  "run_body E ex pick call graph_index graph_params t =
     bindR (index_or_panic (s_graphs (vm_script (ex_vm ex))) graph_index) (\<lambda>g.
     bindR (index_or_panic (ex_type_info ex) graph_index) (\<lambda>info.
     bindR (index_or_panic (ex_fire_rules ex) graph_index) (\<lambda>rules.
     run_loop (loop_fuel rules) pick
       (\<lambda>n params t ty. run_node E (ex_vm ex) (ex_kv ex) call n params t graph_params ty) g info rules (initial_state g t))))"

text \<open>The number of levels left stands for the depth \<open>MAX_RECURSION_DEPTH - left\<close>.\<close>

primrec recursively_run_graph ::
  "externs \<Rightarrow> ('e, 't) executor \<Rightarrow> (nat \<Rightarrow> nat \<Rightarrow> 't run_state \<Rightarrow> nat) \<Rightarrow> nat \<Rightarrow> nat \<Rightarrow> vm_value list \<Rightarrow> 't \<Rightarrow>
   ('e exec_error, vm_value option \<times> 't) outcome" where
  "recursively_run_graph E ex pick 0 = (\<lambda>graph_index graph_params t.
     Inl (Err (MaxRecursionDepthExceeded MAX_RECURSION_DEPTH)))"
| "recursively_run_graph E ex pick (Suc left) = (\<lambda>graph_index graph_params t.
     run_body E ex (pick left graph_index) (recursively_run_graph E ex pick left) graph_index graph_params t)"

text \<open>
  A store offers transactions; \<open>others i\<close> is what other clients do to the store between the
  beginning of attempt \<open>i\<close> and its commit.
\<close>

record ('e, 's, 't) kv_store =
  ks_begin :: "'s \<Rightarrow> ('e, 't \<times> 's) outcome"
  ks_commit :: "'t \<Rightarrow> 's \<Rightarrow> (kv_error, 's) outcome"

fun run_attempts ::
  "externs \<Rightarrow> ('e, 't) executor \<Rightarrow> ('e, 's, 't) kv_store \<Rightarrow> (nat \<Rightarrow> nat \<Rightarrow> 't run_state \<Rightarrow> nat) \<Rightarrow> (nat \<Rightarrow> 's \<Rightarrow> 's) \<Rightarrow>
   nat list \<Rightarrow> nat \<Rightarrow> vm_value list \<Rightarrow> 's \<Rightarrow> ('e exec_error, vm_value option) outcome \<times> 's" where
  "run_attempts E ex st pick others [] graph_index graph_params s = (Inl (Err ConflictAfterRetries), s)"
| "run_attempts E ex st pick others (i # is) graph_index graph_params s =
     (case lift_kv (ks_begin st s) of
        Inl e \<Rightarrow> (Inl e, s)
      | Inr (txn, s1) \<Rightarrow>
          let s2 = others i s1 in
          case recursively_run_graph E ex pick MAX_RECURSION_DEPTH graph_index graph_params txn of
            Inl e \<Rightarrow> (Inl e, s2)
          | Inr (ret, txn') \<Rightarrow>
              (case ks_commit st txn' s2 of
                 Inr s3 \<Rightarrow> (Inr ret, s3)
               | Inl (Err Conflict) \<Rightarrow> run_attempts E ex st pick others is graph_index graph_params s2
               | Inl (Err e) \<Rightarrow> (Inl (Err (CommitFailed e)), s2)
               | Inl (Panic m) \<Rightarrow> (Inl (Panic m), s2)
               | Inl OutOfFuel \<Rightarrow> (Inl OutOfFuel, s2)))"

definition run_graph ::
  "externs \<Rightarrow> ('e, 't) executor \<Rightarrow> ('e, 's, 't) kv_store \<Rightarrow> (nat \<Rightarrow> nat \<Rightarrow> 't run_state \<Rightarrow> nat) \<Rightarrow> (nat \<Rightarrow> 's \<Rightarrow> 's) \<Rightarrow>
   nat \<Rightarrow> vm_value list \<Rightarrow> 's \<Rightarrow> ('e exec_error, vm_value option) outcome \<times> 's" where
  "run_graph E ex st pick others graph_index graph_params s =
     run_attempts E ex st pick others [0..<10] graph_index graph_params s"

end
