(* ===== verification/Storage_Roundtrip.thy ===== *)
theory Storage_Roundtrip
  imports Exec_Storage
begin

text \<open>
  What the executor stores it reads back. The keys that a walker's writes touch form its
  region; the regions of different fields and of different members are disjoint, so
  storing a value below one walker leaves everything beside it alone. \<open>stored\<close> relates
  values to the content of a store, and the operations on tables and sets are shown to act
  on it as they should.
\<close>

section \<open>What a write touches\<close>

fun write_touches :: "kv_write \<Rightarrow> bytes \<Rightarrow> bool" where
  "write_touches (WPut k v) x = (x = k)"
| "write_touches (WDelete k) x = (x = k)"
| "write_touches (WDeleteRange s e) x = (s \<le> x \<and> x < e)"

lemma untouched: "\<not> write_touches w k \<Longrightarrow> apply_write w m k = m k"
  by (cases w) auto

lemma fold_untouched: "(\<And>w. w \<in> set ws \<Longrightarrow> \<not> write_touches w k) \<Longrightarrow> fold apply_write ws m k = m k"
  by (induction ws arbitrary: m) (auto simp: untouched)

text \<open>Writes to disjoint regions keep what each of them establishes in its region.\<close>

lemma fold_disjoint:
  assumes "list_all2 (\<lambda>x ws. (\<forall>w \<in> set ws. \<forall>k. write_touches w k \<longrightarrow> k \<in> F x) \<and> (\<forall>m. P x (fold apply_write ws m))) xs wss"
    and "\<And>x m m'. x \<in> set xs \<Longrightarrow> (\<And>k. k \<in> F x \<Longrightarrow> m k = m' k) \<Longrightarrow> P x m \<Longrightarrow> P x m'"
    and "distinct xs" "\<And>x y. x \<in> set xs \<Longrightarrow> y \<in> set xs \<Longrightarrow> x \<noteq> y \<Longrightarrow> F x \<inter> F y = {}"
  shows "x \<in> set xs \<Longrightarrow> P x (fold apply_write (concat wss) m)"
  using assms
proof (induction xs arbitrary: wss m)
  case (Cons y ys)
  from Cons.prems(2) obtain ws vss where w: "wss = ws # vss" "\<forall>w \<in> set ws. \<forall>k. write_touches w k \<longrightarrow> k \<in> F y"
    "\<And>m. P y (fold apply_write ws m)"
    and l: "list_all2 (\<lambda>x ws. (\<forall>w \<in> set ws. \<forall>k. write_touches w k \<longrightarrow> k \<in> F x) \<and> (\<forall>m. P x (fold apply_write ws m))) ys vss"
    by (auto simp: list_all2_Cons1)
  show ?case
  proof (cases "x = y")
    case True
    have "\<not> write_touches v k" if "v \<in> set (concat vss)" "k \<in> F y" for v k
    proof -
      obtain vs where vs: "vs \<in> set vss" "v \<in> set vs" using \<open>v \<in> set (concat vss)\<close> by auto
      then obtain z where "z \<in> set ys" "\<forall>w \<in> set vs. \<forall>k. write_touches w k \<longrightarrow> k \<in> F z"
        using list_all2_in2 [OF l] by blast
      then show ?thesis using Cons.prems(4,5) vs(2) \<open>k \<in> F y\<close>
        by (metis disjoint_iff distinct.simps(2) list.set_intros(1,2))
    qed
    then have "fold apply_write (concat vss) n k = n k" if "k \<in> F y" for k n
      using that by (intro fold_untouched) auto
    then show ?thesis
      using Cons.prems(3) [of y "fold apply_write ws m"] w(1,3) True by simp
  next
    case False
    then have "x \<in> set ys" using Cons.prems(1) by simp
    then have "P x (fold apply_write (concat vss) (fold apply_write ws m))"
    proof (rule Cons.IH [OF _ l])
      show "P z m'" if "z \<in> set ys" "\<And>k. k \<in> F z \<Longrightarrow> m k = m' k" "P z m" for z m m'
        using Cons.prems(3) [of z m m'] that by simp
      show "distinct ys" using Cons.prems(4) by simp
      show "F z \<inter> F z' = {}" if "z \<in> set ys" "z' \<in> set ys" "z \<noteq> z'" for z z'
        using Cons.prems(5) that by simp
    qed
    then show ?thesis using w(1) by simp
  qed
qed simp

section \<open>The region of a walker\<close>

definition foot :: "path_walker \<Rightarrow> storage_key storage_node \<Rightarrow> bytes set" where
  "foot w n = {k. \<exists>c r. k = up_key (pw_link w) @ c @ r \<and> c \<in> set (node_keys n)}"

definition entered :: "storage_key storage_plan \<Rightarrow> path_walker \<Rightarrow> storage_key storage_node \<Rightarrow> bool" where
  "entered plan w n \<longleftrightarrow> walker_ok plan w \<and> n \<in> set (plan_nodes plan) \<and> pw_key w = sn_key n \<and>
     (should_flatten w \<longrightarrow> pw_node w = n)"

lemma own_key_in_node_keys [simp]: "sn_key n \<in> set (node_keys n)"
  by (cases n) simp

lemma footI: "c \<in> set (node_keys n) \<Longrightarrow> up_key (pw_link w) @ c @ r \<in> foot w n"
  unfolding foot_def by blast

lemma footE:
  assumes "k \<in> foot w n"
  obtains c r where "k = up_key (pw_link w) @ c @ r" "c \<in> set (node_keys n)"
  using assms unfolding foot_def by blast

lemma foot_below: "entered plan w n \<Longrightarrow> generate_key w @ r \<in> foot w n"
  using footI [OF own_key_in_node_keys, of w n r] by (simp add: entered_def generate_key_up)

lemma own_key_in_foot: "entered plan w n \<Longrightarrow> generate_key w \<in> foot w n"
  using foot_below [of plan w n "[]"] by simp

lemma base_key_not_flat: "\<not> should_flatten w \<Longrightarrow> base_key w = generate_key w"
  by (simp add: generate_key_up base_key_up)

lemma set_not_flat: "entered plan w n \<Longrightarrow> sn_set (pw_node w) = Some m \<Longrightarrow> \<not> should_flatten w"
  by (auto simp: entered_def walker_ok_def)

lemma entered_field:
  assumes "plan_layout plan" "entered plan w n" "enter_field w f = Inr w'" and d: "distinct (plan_keys plan)"
  obtains c where "bt_get (sn_children (pw_node w)) f = Some c" "entered plan w' c" "up_key (pw_link w') = base_key w"
    "foot w' c \<subseteq> foot w n" "generate_key w \<notin> foot w' c"
proof -
  have w: "walker_ok plan w" "pw_key w = sn_key n" "should_flatten w \<Longrightarrow> pw_node w = n" "n \<in> set (plan_nodes plan)"
    using assms(2) by (auto simp: entered_def)
  have ok': "walker_ok plan w'" using step_walker_ok [OF assms(1) w(1), of "Field f"] assms(3) by simp
  from assms(3) obtain c where c: "bt_get (sn_children (pw_node w)) f = Some c" "pw_link w' = Some w" "pw_key w' = sn_key c"
    "should_flatten w' \<longleftrightarrow> subspace_reference c = None \<and> sn_flattened c" "subspace_reference c = None \<longrightarrow> pw_node w' = c"
    by (rule enter_field_cases)
  have node: "pw_node w \<in> set (plan_nodes plan)" using w(1) by (auto simp: walker_ok_def)
  have cn: "c \<in> set (plan_nodes plan)" by (rule plan_nodes_child [OF node c(1)])
  have base: "up_key (pw_link w') = base_key w" using c(2) by (simp add: up_key_def)
  have sub: "foot w' c \<subseteq> foot w n"
  proof (cases "should_flatten w")
    case True
    then have "set (node_keys c) \<subseteq> set (node_keys n)" using node_keys_child c(1) w(3) by metis
    then show ?thesis using True base by (auto simp: foot_def base_key_up)
  next
    case False
    then show ?thesis using base foot_below [OF assms(2)] base_key_not_flat [OF False] by (auto simp: foot_def [of w'])
  qed
  have own: "generate_key w \<notin> foot w' c"
  proof
    assume "generate_key w \<in> foot w' c"
    then obtain k r where k: "generate_key w = base_key w @ k @ r" "k \<in> set (node_keys c)" by (auto simp: foot_def base)
    have len: "length k = 12" "length (sn_key n) = 12"
      using key_lengths [OF assms(1) cn k(2)] assms(1) w(4) by (auto simp: plan_layout_def)
    then have "k \<noteq> []" by auto
    then have "should_flatten w" using k(1) base_key_not_flat [of w] by auto
    then have "sn_key n = k @ r" "pw_node w = n" using k(1) w(2,3) by (auto simp: generate_key_up base_key_up)
    then have "k = sn_key n" using len by simp
    moreover have "sn_key n \<notin> set (node_keys c)"
      using key_not_in_child [OF distinct_node_keys [OF d w(4)]] c(1) \<open>pw_node w = n\<close> by metis
    ultimately show False using k(2) by simp
  qed
  show thesis
    by (rule that [OF c(1) _ base sub own]) (use ok' cn c(3,4,5) in \<open>auto simp: entered_def\<close>)
qed


lemma entered_member:
  assumes "plan_layout plan" "entered plan w n" "enter_set_raw w pk = Inr w'"
  obtains m where "sn_set (pw_node w) = Some m" "entered plan w' m" "up_key (pw_link w') = generate_key w @ 0 # pk @ [0]"
    "foot w' m \<subseteq> foot w n" "\<not> should_flatten w"
proof -
  have w: "walker_ok plan w" using assms(2) by (simp add: entered_def)
  have ok': "walker_ok plan w'" using step_walker_ok [OF assms(1) w, of "Member pk"] assms(3) by simp
  from assms(3) obtain m where m: "sn_set (pw_node w) = Some m" "pw_node w' = m" "pw_key w' = sn_key m" "should_flatten w'"
    "pw_link w' = Some (PathWalker m (0 # pk @ [0]) (Some w) (pw_depth w + 1) False True None)"
    by (rule enter_set_cases)
  have flat: "\<not> should_flatten w" by (rule set_not_flat [OF assms(2) m(1)])
  have up: "up_key (pw_link w') = generate_key w @ 0 # pk @ [0]"
    using m(5) base_key_not_flat [OF flat] by (simp add: up_key_def base_key_up)
  have "pw_node w \<in> set (plan_nodes plan)" using w by (auto simp: walker_ok_def)
  then have "m \<in> set (plan_nodes plan)" using plan_nodes_set m(1) by blast
  then have "entered plan w' m" using ok' m by (simp add: entered_def)
  moreover have "foot w' m \<subseteq> foot w n"
    using foot_below [OF assms(2)] by (auto simp: foot_def [of w'] up)
  ultimately show thesis using that [OF m(1) _ up _ flat] by blast
qed

lemma foot_sibling:
  assumes "plan_layout plan" "distinct (plan_keys plan)" "entered plan w n"
    and "enter_field w f = Inr a" "enter_field w g = Inr b" "f \<noteq> g"
    and "bt_get (sn_children (pw_node w)) f = Some c" "bt_get (sn_children (pw_node w)) g = Some d"
    and "up_key (pw_link a) = base_key w" "up_key (pw_link b) = base_key w"
  shows "foot a c \<inter> foot b d = {}"
proof -
  have node: "pw_node w \<in> set (plan_nodes plan)" using assms(3) by (auto simp: walker_ok_def entered_def)
  have disj: "set (node_keys c) \<inter> set (node_keys d) = {}"
    by (rule distinct_children [OF distinct_node_keys [OF assms(2) node] assms(7,8,6)])
  have "length k = 12" if "k \<in> set (node_keys c) \<or> k \<in> set (node_keys d)" for k
    using key_lengths [OF assms(1)] plan_nodes_child [OF node assms(7)] plan_nodes_child [OF node assms(8)] that by blast
  then have len: "length x = 12 \<and> length y = 12" if "x \<in> set (node_keys c)" "y \<in> set (node_keys d)" for x y
    using that by blast
  show ?thesis
  proof (rule equals0I)
    fix k assume "k \<in> foot a c \<inter> foot b d"
    then have ka: "k \<in> foot a c" and kb: "k \<in> foot b d" by auto
    obtain x r where x: "k = base_key w @ x @ r" "x \<in> set (node_keys c)" using footE [OF ka] assms(9) by metis
    obtain y s where y: "k = base_key w @ y @ s" "y \<in> set (node_keys d)" using footE [OF kb] assms(10) by metis
    have "x @ r = y @ s" using x(1) y(1) by simp
    then have "x = y" using len [OF x(2) y(2)] by (simp add: append_eq_append_conv)
    then show False using disj x(2) y(2) by blast
  qed
qed

section \<open>Values as stored\<close>

text \<open>
  \<open>stored E m w v\<close> says that the content \<open>m\<close> of a store holds the value \<open>v\<close> at the walker \<open>w\<close>:
  a primitive under its key, a table as an empty marker with its fields below, a set as a
  marker, an index entry per member and nothing else in the index, and the members.
\<close>

fun stored :: "externs \<Rightarrow> kv_view \<Rightarrow> path_walker \<Rightarrow> vm_value \<Rightarrow> bool" where
  "stored E m w (VNull ty) = (m (generate_key w) = None)"
| "stored E m w (VPrimitive p) = (m (generate_key w) = Some (rmp_to_vec E p))"
| "stored E m w (VTable ty (Fresh flds)) =
     (m (generate_key w) = Some [] \<and>
      list_all (\<lambda>e. case enter_field w (fst e) of Inr w' \<Rightarrow> stored E m w' (snd e) | Inl _ \<Rightarrow> False) flds)"
| "stored E m w (VSet ty (Fresh members)) =
     (sn_set (pw_node w) \<noteq> None \<and> m (generate_key w) = Some [] \<and>
      (\<forall>k. m (generate_key w @ 1 # k) \<noteq> None \<longleftrightarrow> k \<in> fst ` set members) \<and>
      list_all (\<lambda>e. case enter_set_raw w (fst e) of Inr w' \<Rightarrow> stored E m w' (snd e) | Inl _ \<Rightarrow> False) members)"
| "stored E m w _ = False"

fun value_wf :: "vm_value \<Rightarrow> bool" where
  "value_wf (VTable ty (Fresh flds)) = (distinct (map fst flds) \<and> list_all (\<lambda>e. value_wf (snd e)) flds)"
| "value_wf (VSet ty (Fresh members)) =
     (distinct (map fst members) \<and> list_all (\<lambda>e. value_wf (snd e)) members \<and>
      (\<forall>p \<in> fst ` set members. \<forall>q \<in> fst ` set members. p \<noteq> q \<longrightarrow> \<not> prefix (p @ [0]) (q @ [0])))"
| "value_wf _ = True"

lemma stored_cong:
  assumes "plan_layout plan" "distinct (plan_keys plan)"
  shows "entered plan w n \<Longrightarrow> (\<And>k. k \<in> foot w n \<Longrightarrow> m k = m' k) \<Longrightarrow> stored E m w v \<Longrightarrow> stored E m' w v"
proof (induction E m w v arbitrary: n rule: stored.induct)
  case (3 E m w ty flds)
  have "case enter_field w (fst e) of Inr w' \<Rightarrow> stored E m' w' (snd e) | Inl _ \<Rightarrow> False" if e: "e \<in> set flds" for e
  proof -
    obtain w' where w': "enter_field w (fst e) = Inr w'" "stored E m w' (snd e)"
      using "3.prems"(3) e by (cases "enter_field w (fst e)") (auto simp: list_all_iff)
    obtain c where c: "entered plan w' c" "foot w' c \<subseteq> foot w n"
      by (rule entered_field [OF assms(1) "3.prems"(1) w'(1) assms(2)])
    have "stored E m' w' (snd e)" by (rule "3.IH" [OF e w'(1) c(1) _ w'(2)]) (use "3.prems"(2) c(2) in blast)
    then show ?thesis using w'(1) by simp
  qed
  moreover have "m' (generate_key w) = Some []"
    using "3.prems"(2) [OF own_key_in_foot [OF "3.prems"(1)]] "3.prems"(3) by simp
  ultimately show ?case by (simp add: list_all_iff)
next
  case (4 E m w ty members)
  have "case enter_set_raw w (fst e) of Inr w' \<Rightarrow> stored E m' w' (snd e) | Inl _ \<Rightarrow> False" if e: "e \<in> set members" for e
  proof -
    obtain w' where w': "enter_set_raw w (fst e) = Inr w'" "stored E m w' (snd e)"
      using "4.prems"(3) e by (cases "enter_set_raw w (fst e)") (auto simp: list_all_iff)
    obtain c where c: "entered plan w' c" "foot w' c \<subseteq> foot w n"
      by (rule entered_member [OF assms(1) "4.prems"(1) w'(1)])
    have "stored E m' w' (snd e)" by (rule "4.IH" [OF e w'(1) c(1) _ w'(2)]) (use "4.prems"(2) c(2) in blast)
    then show ?thesis using w'(1) by simp
  qed
  moreover have "m' (generate_key w) = Some []"
    using "4.prems"(2) [OF own_key_in_foot [OF "4.prems"(1)]] "4.prems"(3) by simp
  moreover have "\<forall>k. m' (generate_key w @ 1 # k) \<noteq> None \<longleftrightarrow> k \<in> fst ` set members"
    using "4.prems"(2) [OF foot_below [OF "4.prems"(1)]] "4.prems"(3) by simp
  moreover have "sn_set (pw_node w) \<noteq> None" using "4.prems"(3) by simp
  ultimately show ?case by (simp add: list_all_iff)
qed (auto dest: own_key_in_foot)


section \<open>Storing a value\<close>

lemma delete_set_writes_eq:
  "delete_set_writes w = (Inr ws :: ('e, _) outcome) \<Longrightarrow> sn_set (pw_node w) \<noteq> None \<and>
    ws = [WDeleteRange (generate_key w @ [1]) (generate_key w @ [2]), WDeleteRange (generate_key w @ [0]) (generate_key w @ [1])]"
  by (cases "sn_set (pw_node w)") (auto simp: delete_set_writes_def set_fast_scan_prefix_def set_data_prefix_def)

lemma prefix_range: "p @ [0] \<le> k \<and> k < p @ [1] \<longleftrightarrow> prefix (p @ [0]) (k :: bytes)"
  "p @ [1] \<le> k \<and> k < p @ [2] \<longleftrightarrow> prefix (p @ [1]) (k :: bytes)"
  using range_eq_prefix [of 0 p k] range_eq_prefix [of 1 p k] by simp_all

text \<open>The writes of one field and of one member.\<close>

lemma table_writes:
  assumes "insert_writes E w (VTable ty (Fresh flds)) = (Inr ws :: ('e exec_error, _) outcome)"
  obtains wss where "ws = WPut (generate_key w) [] # concat wss"
    "list_all2 (\<lambda>e vs. \<exists>w'. enter_field w (fst e) = Inr w' \<and> insert_writes E w' (snd e) = (Inr vs :: ('e exec_error, _) outcome)) flds wss"
proof -
  from assms obtain wss where wss: "ws = WPut (generate_key w) [] # concat wss"
    "mapR (\<lambda>e. bindR (unwrap_path unwrap_err (enter_field w (fst e))) (\<lambda>w'. insert_writes E w' (snd e))) flds
      = (Inr wss :: ('e exec_error, _) outcome)"
    by auto
  have "unwrap_path unwrap_err r = (Inr x :: ('e exec_error, _) outcome) \<longleftrightarrow> r = Inr x" for r :: "(path_walker_error, path_walker) outcome" and x
    by (cases r rule: lift_kv.cases) auto
  then show thesis using that [OF wss(1)] wss(2) by (simp add: mapR_Inr_iff bindR_Inr_iff)
qed

lemma set_writes:
  assumes "insert_writes E w (VSet ty (Fresh members)) = (Inr ws :: ('e exec_error, _) outcome)"
  obtains wss where "sn_set (pw_node w) \<noteq> None"
    "ws = [WPut (generate_key w) [], WDeleteRange (generate_key w @ [1]) (generate_key w @ [2]),
       WDeleteRange (generate_key w @ [0]) (generate_key w @ [1])] @ concat wss"
    "list_all2 (\<lambda>e vs. \<exists>w' us. enter_set_raw w (fst e) = Inr w' \<and> vs = WPut (generate_key w @ 1 # fst e) [] # us \<and>
       insert_writes E w' (snd e) = (Inr us :: ('e exec_error, _) outcome)) members wss"
proof -
  from assms obtain wss ds where wss: "ws = WPut (generate_key w) [] # ds @ concat wss"
    "delete_set_writes w = (Inr ds :: ('e exec_error, _) outcome)"
    "mapR (\<lambda>e. bindR (unwrap_path unwrap_err (set_fast_scan_prefix w)) (\<lambda>p. bindR (unwrap_path unwrap_err (enter_set_raw w (fst e)))
          (\<lambda>w'. bindR (insert_writes E w' (snd e)) (\<lambda>ws'. Inr (WPut (p @ fst e) [] # ws'))))) members
      = (Inr wss :: ('e exec_error, _) outcome)"
    by auto
  have u: "unwrap_path unwrap_err r = (Inr x :: ('e exec_error, 'z) outcome) \<longleftrightarrow> r = Inr x" for r :: "(path_walker_error, 'z) outcome" and x
    by (cases r rule: lift_kv.cases) auto
  note ds = delete_set_writes_eq [OF wss(2)]
  then have p: "set_fast_scan_prefix w = Inr x \<longleftrightarrow> x = generate_key w @ [1]" for x
    by (auto simp: set_fast_scan_prefix_def)
  have "list_all2 (\<lambda>e vs. \<exists>w' us. enter_set_raw w (fst e) = Inr w' \<and> vs = WPut (generate_key w @ 1 # fst e) [] # us \<and>
       insert_writes E w' (snd e) = (Inr us :: ('e exec_error, _) outcome)) members wss"
    using wss(3) unfolding mapR_Inr_iff by (rule list_all2_mono) (auto simp: u p)
  then show thesis using that [of wss] wss(1) ds by simp
qed

lemma insert_within_foot:
  assumes "plan_layout plan" "distinct (plan_keys plan)"
  shows "entered plan w n \<Longrightarrow> insert_writes E w v = (Inr ws :: ('e exec_error, _) outcome) \<Longrightarrow> x \<in> set ws \<Longrightarrow>
    write_touches x k \<Longrightarrow> k \<in> foot w n"
proof (induction v arbitrary: w n ws x k)
  case (VTable ty kind)
  obtain flds where kind: "kind = Fresh flds" using VTable.prems(2) by (cases kind) auto
  from VTable.prems(2) [unfolded kind] obtain wss where wss: "ws = WPut (generate_key w) [] # concat wss"
    "list_all2 (\<lambda>e vs. \<exists>w'. enter_field w (fst e) = Inr w' \<and> insert_writes E w' (snd e) = (Inr vs :: ('e exec_error, _) outcome)) flds wss"
    by (rule table_writes)
  show ?case
  proof (cases "x = WPut (generate_key w) []")
    case True
    then show ?thesis using own_key_in_foot [OF VTable.prems(1)] VTable.prems(4) by simp
  next
    case False
    then obtain vs where vs: "vs \<in> set wss" "x \<in> set vs" using VTable.prems(3) wss(1) by auto
    obtain e w' where e: "e \<in> set flds" "enter_field w (fst e) = Inr w'" "insert_writes E w' (snd e) = (Inr vs :: ('e exec_error, _) outcome)"
      using list_all2_in2 [OF wss(2) vs(1)] by blast
    obtain c where c: "entered plan w' c" "foot w' c \<subseteq> foot w n"
      by (rule entered_field [OF assms(1) VTable.prems(1) e(2) assms(2)])
    have "snd e \<in> Basic_BNFs.snds e" by (cases e) (simp add: snds.simps)
    then have "k \<in> foot w' c" using VTable.IH [OF _ e(1) _ c(1) e(3) vs(2) VTable.prems(4)] kind by simp
    then show ?thesis using c(2) by blast
  qed
next
  case (VSet ty kind)
  obtain members where kind: "kind = Fresh members" using VSet.prems(2) by (cases kind) auto
  from VSet.prems(2) [unfolded kind] obtain wss where wss: "sn_set (pw_node w) \<noteq> None"
    "ws = [WPut (generate_key w) [], WDeleteRange (generate_key w @ [1]) (generate_key w @ [2]),
       WDeleteRange (generate_key w @ [0]) (generate_key w @ [1])] @ concat wss"
    "list_all2 (\<lambda>e vs. \<exists>w' us. enter_set_raw w (fst e) = Inr w' \<and> vs = WPut (generate_key w @ 1 # fst e) [] # us \<and>
       insert_writes E w' (snd e) = (Inr us :: ('e exec_error, _) outcome)) members wss"
    by (rule set_writes)
  note below = foot_below [OF VSet.prems(1)] own_key_in_foot [OF VSet.prems(1)]
  show ?case
  proof (cases "x \<in> set (concat wss)")
    case False
    then have "k = generate_key w \<or> prefix (generate_key w) k"
      using VSet.prems(3,4) wss(2) prefix_range [of "generate_key w" k] by (auto simp: prefix_def)
    then show ?thesis using below by (auto simp: prefix_def)
  next
    case True
    then obtain vs where vs: "vs \<in> set wss" "x \<in> set vs" by auto
    obtain e w' us where e: "e \<in> set members" "enter_set_raw w (fst e) = Inr w'" "vs = WPut (generate_key w @ 1 # fst e) [] # us"
      "insert_writes E w' (snd e) = (Inr us :: ('e exec_error, _) outcome)"
      using list_all2_in2 [OF wss(3) vs(1)] by blast
    obtain c where c: "entered plan w' c" "foot w' c \<subseteq> foot w n" by (rule entered_member [OF assms(1) VSet.prems(1) e(2)])
    have "snd e \<in> Basic_BNFs.snds e" by (cases e) (simp add: snds.simps)
    then have "k \<in> foot w' c" if "x \<in> set us" using VSet.IH [OF _ e(1) _ c(1) e(4) that VSet.prems(4)] kind by simp
    then show ?thesis using c(2) vs(2) e(3) VSet.prems(4) below by auto
  qed
qed (auto dest: own_key_in_foot)

definition field_foot :: "path_walker \<Rightarrow> string \<Rightarrow> bytes set" where
  "field_foot w f = {k. \<exists>w' c. enter_field w f = Inr w' \<and> bt_get (sn_children (pw_node w)) f = Some c \<and> k \<in> foot w' c}"

definition member_foot :: "path_walker \<Rightarrow> bytes \<Rightarrow> bytes set" where
  "member_foot w pk = insert (generate_key w @ 1 # pk) {k. prefix (generate_key w @ 0 # pk @ [0]) k}"

lemma field_footE:
  assumes "plan_layout plan" "distinct (plan_keys plan)" "entered plan w n" "enter_field w f = Inr w'"
  obtains c where "entered plan w' c" "field_foot w f = foot w' c" "generate_key w \<notin> field_foot w f"
    "bt_get (sn_children (pw_node w)) f = Some c" "up_key (pw_link w') = base_key w"
proof -
  obtain c where c: "bt_get (sn_children (pw_node w)) f = Some c" "entered plan w' c" "up_key (pw_link w') = base_key w"
    "generate_key w \<notin> foot w' c"
    using entered_field [OF assms(1,3,4,2)] by metis
  then have "field_foot w f = foot w' c" using assms(4) by (auto simp: field_foot_def)
  then show thesis using that c by metis
qed

lemma field_foot_disjoint:
  assumes "plan_layout plan" "distinct (plan_keys plan)" "entered plan w n" "enter_field w f = Inr a" "enter_field w g = Inr b" "f \<noteq> g"
  shows "field_foot w f \<inter> field_foot w g = {}"
proof -
  obtain c where c: "field_foot w f = foot a c" "bt_get (sn_children (pw_node w)) f = Some c" "up_key (pw_link a) = base_key w"
    by (rule field_footE [OF assms(1-4)])
  obtain d where d: "field_foot w g = foot b d" "bt_get (sn_children (pw_node w)) g = Some d" "up_key (pw_link b) = base_key w"
    by (rule field_footE [OF assms(1-3,5)])
  show ?thesis using foot_sibling [OF assms c(2) d(2) c(3) d(3)] c(1) d(1) by simp
qed

lemma insert_stores_table:
  assumes plan: "plan_layout plan" "distinct (plan_keys plan)" and w: "entered plan w n"
    and ws: "insert_writes E w (VTable ty (Fresh flds)) = (Inr ws :: ('e exec_error, _) outcome)" and d: "distinct (map fst flds)"
    and IH: "\<And>e w' n' vs m. e \<in> set flds \<Longrightarrow> entered plan w' n' \<Longrightarrow>
      insert_writes E w' (snd e) = (Inr vs :: ('e exec_error, _) outcome) \<Longrightarrow> stored E (fold apply_write vs m) w' (snd e)"
  shows "stored E (fold apply_write ws m) w (VTable ty (Fresh flds))"
proof -
  let ?P = "\<lambda>e m. case enter_field w (fst e) of Inr w' \<Rightarrow> stored E m w' (snd e) | Inl _ \<Rightarrow> False"
  from ws obtain wss where wss: "ws = WPut (generate_key w) [] # concat wss"
    "list_all2 (\<lambda>e vs. \<exists>w'. enter_field w (fst e) = Inr w' \<and> insert_writes E w' (snd e) = (Inr vs :: ('e exec_error, _) outcome)) flds wss"
    by (rule table_writes)
  have in1: "\<exists>w'. enter_field w (fst e) = Inr w'" if "e \<in> set flds" for e
    using list_all2_in1 [OF wss(2) that] by blast
  have each: "list_all2 (\<lambda>e vs. (\<forall>x \<in> set vs. \<forall>k. write_touches x k \<longrightarrow> k \<in> field_foot w (fst e)) \<and>
      (\<forall>m. ?P e (fold apply_write vs m))) flds wss"
    using wss(2)
  proof (rule list.rel_mono_strong)
    fix e vs assume e: "e \<in> set flds" and "\<exists>w'. enter_field w (fst e) = Inr w' \<and> insert_writes E w' (snd e) = (Inr vs :: ('e exec_error, _) outcome)"
    then obtain w' where w': "enter_field w (fst e) = Inr w'" "insert_writes E w' (snd e) = (Inr vs :: ('e exec_error, _) outcome)" by blast
    obtain c where c: "entered plan w' c" "field_foot w (fst e) = foot w' c" by (rule field_footE [OF plan w w'(1)])
    then show "(\<forall>x \<in> set vs. \<forall>k. write_touches x k \<longrightarrow> k \<in> field_foot w (fst e)) \<and> (\<forall>m. ?P e (fold apply_write vs m))"
      using insert_within_foot [OF plan c(1) w'(2)] IH [OF e c(1) w'(2)] w'(1) by auto
  qed
  have "?P e (fold apply_write (concat wss) m)" if e: "e \<in> set flds" for e m
  proof (rule fold_disjoint [where F = "\<lambda>e. field_foot w (fst e)" and P = ?P, OF each _ _ _ e])
    fix x m m' assume x: "x \<in> set flds" "\<And>k. k \<in> field_foot w (fst x) \<Longrightarrow> m k = m' k" "?P x m"
    obtain w' where w': "enter_field w (fst x) = Inr w'" using in1 x(1) by blast
    obtain c where c: "entered plan w' c" "field_foot w (fst x) = foot w' c" by (rule field_footE [OF plan w w'])
    show "?P x m'" using stored_cong [OF plan c(1), of m m'] x(2,3) w' c(2) by simp
  next
    show "distinct flds" using d by (simp add: distinct_map)
    fix x y assume xy: "x \<in> set flds" "y \<in> set flds" "x \<noteq> y"
    then have "fst x \<noteq> fst y" using d by (auto simp: distinct_map dest: inj_onD)
    then show "field_foot w (fst x) \<inter> field_foot w (fst y) = {}" using field_foot_disjoint [OF plan w] in1 xy(1,2) by metis
  qed
  moreover have "fold apply_write (concat wss) m' (generate_key w) = m' (generate_key w)" for m'
  proof (rule fold_untouched)
    fix x assume "x \<in> set (concat wss)"
    then obtain vs where "vs \<in> set wss" "x \<in> set vs" by auto
    then obtain e where e: "e \<in> set flds" "\<forall>k. write_touches x k \<longrightarrow> k \<in> field_foot w (fst e)" using list_all2_in2 [OF each] by blast
    then show "\<not> write_touches x (generate_key w)" using in1 field_footE [OF plan w] by metis
  qed
  ultimately show ?thesis using wss(1) by (simp add: list_all_iff)
qed

lemma member_foot_disjoint:
  assumes "\<not> prefix (p @ [0]) (q @ [0])" "\<not> prefix (q @ [0]) (p @ [0])"
  shows "member_foot w p \<inter> member_foot w q = {}"
proof (rule equals0I)
  fix k assume "k \<in> member_foot w p \<inter> member_foot w q"
  then have "p = q \<or> (\<exists>l. prefix (p @ [0]) l \<and> prefix (q @ [0]) l)"
    by (auto simp: member_foot_def prefix_def)
  then show False using assms prefix_same_cases by blast
qed

lemma member_foot_of:
  assumes "plan_layout plan" "entered plan w n" "enter_set_raw w pk = Inr w'"
  obtains c where "entered plan w' c" "foot w' c \<subseteq> member_foot w pk" "generate_key w @ 1 # pk \<notin> foot w' c"
proof -
  obtain c where c: "entered plan w' c" "up_key (pw_link w') = generate_key w @ 0 # pk @ [0]"
    by (rule entered_member [OF assms])
  have "prefix (generate_key w @ 0 # pk @ [0]) k" if "k \<in> foot w' c" for k
    using footE [OF that] c(2) by (metis prefixI append_assoc)
  then show thesis using that [OF c(1)] by (auto simp: member_foot_def prefix_def)
qed

lemma member_writes:
  assumes "plan_layout plan" "entered plan w n"
    and "\<exists>w' us. enter_set_raw w (fst e) = Inr w' \<and> vs = WPut (generate_key w @ 1 # fst e) [] # us \<and>
       insert_writes E w' (snd e) = (Inr us :: ('e exec_error, _) outcome)"
    and IH: "\<And>w' n' vs m. entered plan w' n' \<Longrightarrow> insert_writes E w' (snd e) = (Inr vs :: ('e exec_error, _) outcome) \<Longrightarrow>
      stored E (fold apply_write vs m) w' (snd e)"
    and within: "\<And>w' n' vs x k. entered plan w' n' \<Longrightarrow> insert_writes E w' (snd e) = (Inr vs :: ('e exec_error, _) outcome) \<Longrightarrow>
      x \<in> set vs \<Longrightarrow> write_touches x k \<Longrightarrow> k \<in> foot w' n'"
  shows "(\<forall>x \<in> set vs. \<forall>k. write_touches x k \<longrightarrow> k \<in> member_foot w (fst e)) \<and>
    (\<forall>m. fold apply_write vs m (generate_key w @ 1 # fst e) = Some [] \<and>
      (case enter_set_raw w (fst e) of Inr w' \<Rightarrow> stored E (fold apply_write vs m) w' (snd e) | Inl _ \<Rightarrow> False))"
proof -
  obtain w' us where w': "enter_set_raw w (fst e) = Inr w'" "vs = WPut (generate_key w @ 1 # fst e) [] # us"
    "insert_writes E w' (snd e) = (Inr us :: ('e exec_error, _) outcome)"
    using assms(3) by blast
  obtain c where c: "entered plan w' c" "foot w' c \<subseteq> member_foot w (fst e)" "generate_key w @ 1 # fst e \<notin> foot w' c"
    by (rule member_foot_of [OF assms(1,2) w'(1)])
  have "fold apply_write us m (generate_key w @ 1 # fst e) = m (generate_key w @ 1 # fst e)" for m
    using within [OF c(1) w'(3)] c(3) by (intro fold_untouched) blast
  moreover have "k \<in> member_foot w (fst e)" if "x \<in> set vs" "write_touches x k" for x k
    using within [OF c(1) w'(3), of x k] c(2) that w'(2) by (auto simp: member_foot_def)
  ultimately show ?thesis using IH [OF c(1) w'(3)] w'(1,2) by simp
qed

lemma member_stored_cong:
  assumes "plan_layout plan" "distinct (plan_keys plan)" "entered plan w n"
    and "\<And>k. k \<in> member_foot w pk \<Longrightarrow> m k = m' k"
    and "case enter_set_raw w pk of Inr w' \<Rightarrow> stored E m w' v | Inl _ \<Rightarrow> False"
  shows "case enter_set_raw w pk of Inr w' \<Rightarrow> stored E m' w' v | Inl _ \<Rightarrow> False"
proof (cases "enter_set_raw w pk")
  case (Inr w')
  obtain c where c: "entered plan w' c" "foot w' c \<subseteq> member_foot w pk" by (rule member_foot_of [OF assms(1,3) Inr])
  have "stored E m w' v" using assms(5) Inr by simp
  then have "stored E m' w' v" by (rule stored_cong [OF assms(1,2) c(1), rotated]) (use assms(4) c(2) in blast)
  then show ?thesis using Inr by simp
qed (use assms(5) in simp)

lemma insert_stores_set:
  assumes plan: "plan_layout plan" "distinct (plan_keys plan)" and w: "entered plan w n"
    and ws: "insert_writes E w (VSet ty (Fresh members)) = (Inr ws :: ('e exec_error, _) outcome)"
    and wf: "value_wf (VSet ty (Fresh members))"
    and IH: "\<And>e w' n' vs m. e \<in> set members \<Longrightarrow> entered plan w' n' \<Longrightarrow>
      insert_writes E w' (snd e) = (Inr vs :: ('e exec_error, _) outcome) \<Longrightarrow> stored E (fold apply_write vs m) w' (snd e)"
  shows "stored E (fold apply_write ws m) w (VSet ty (Fresh members))"
proof -
  let ?g = "generate_key w"
  let ?Q = "\<lambda>e m. case enter_set_raw w (fst e) of Inr w' \<Rightarrow> stored E m w' (snd e) | Inl _ \<Rightarrow> False"
  let ?P = "\<lambda>e m. m (?g @ 1 # fst e) = Some [] \<and> ?Q e m"
  from ws obtain wss where wss: "sn_set (pw_node w) \<noteq> None"
    "ws = [WPut ?g [], WDeleteRange (?g @ [1]) (?g @ [2]), WDeleteRange (?g @ [0]) (?g @ [1])] @ concat wss"
    "list_all2 (\<lambda>e vs. \<exists>w' us. enter_set_raw w (fst e) = Inr w' \<and> vs = WPut (?g @ 1 # fst e) [] # us \<and>
       insert_writes E w' (snd e) = (Inr us :: ('e exec_error, _) outcome)) members wss"
    by (rule set_writes)
  have each: "list_all2 (\<lambda>e vs. (\<forall>x \<in> set vs. \<forall>k. write_touches x k \<longrightarrow> k \<in> member_foot w (fst e)) \<and>
      (\<forall>m. ?P e (fold apply_write vs m))) members wss"
    using wss(3) by (rule list.rel_mono_strong, intro member_writes [OF plan(1) w])
      (assumption, erule (2) IH, rule insert_within_foot [OF plan])
  have P: "?P e (fold apply_write (concat wss) m)" if e: "e \<in> set members" for e m
  proof (rule fold_disjoint [where F = "\<lambda>e. member_foot w (fst e)" and P = ?P, OF each _ _ _ e])
    fix x m m' assume x: "x \<in> set members" "\<And>k. k \<in> member_foot w (fst x) \<Longrightarrow> m k = m' k" "?P x m"
    then show "?P x m'" using member_stored_cong [OF plan w, of "fst x" m m' E "snd x"] by (simp add: member_foot_def)
  next
    show "distinct members" using wf by (simp add: distinct_map)
    fix x y assume xy: "x \<in> set members" "y \<in> set members" "x \<noteq> y"
    then have "fst x \<noteq> fst y" using wf by (auto simp: distinct_map dest: inj_onD)
    then show "member_foot w (fst x) \<inter> member_foot w (fst y) = {}"
      using member_foot_disjoint wf xy(1,2) by (simp add: image_iff)
  qed
  have out: "fold apply_write (concat wss) m' k = m' k" if k: "\<forall>e \<in> set members. k \<notin> member_foot w (fst e)" for m' k
  proof (rule fold_untouched)
    fix x assume "x \<in> set (concat wss)"
    then show "\<not> write_touches x k" using list_all2_in2 [OF each] k by (metis UN_iff set_concat)
  qed
  have "fold apply_write ws m ?g = Some []"
    using out [of ?g] wss(2) prefix_range [of ?g ?g] by (auto simp: member_foot_def prefix_def)
  moreover have "fold apply_write ws m (?g @ 1 # k) \<noteq> None \<longleftrightarrow> k \<in> fst ` set members" for k
  proof (cases "k \<in> fst ` set members")
    case True
    then obtain e where e: "e \<in> set members" "k = fst e" by auto
    then show ?thesis using P [OF e(1)] wss(2) True by simp
  next
    case False
    then have "fold apply_write (concat wss) m' (?g @ 1 # k) = m' (?g @ 1 # k)" for m'
      by (intro out) (auto simp: member_foot_def prefix_def)
    then show ?thesis using False wss(2) prefix_range(2) [of ?g "?g @ 1 # k"] by simp
  qed
  ultimately show ?thesis using P wss(1,2) by (simp add: list_all_iff)
qed


lemma insert_stores:
  assumes "plan_layout plan" "distinct (plan_keys plan)"
  shows "entered plan w n \<Longrightarrow> value_wf v \<Longrightarrow> insert_writes E w v = (Inr ws :: ('e exec_error, _) outcome) \<Longrightarrow>
    stored E (fold apply_write ws m) w v"
proof (induction v arbitrary: w n ws m)
  case (VTable ty kind)
  obtain flds where kind: "kind = Fresh flds" using VTable.prems(3) by (cases kind) auto
  have IH: "stored E (fold apply_write vs m) w' (snd e)" if "e \<in> set flds" "entered plan w' n'"
    "insert_writes E w' (snd e) = (Inr vs :: ('e exec_error, _) outcome)" for e w' n' vs m
    using VTable.IH [of flds e "snd e"] that VTable.prems(2) kind by (cases e) (auto simp: list_all_iff)
  have "distinct (map fst flds)" using VTable.prems(2) kind by simp
  then show ?case unfolding kind
    by (rule insert_stores_table [OF assms VTable.prems(1) VTable.prems(3) [unfolded kind]]) (rule IH)
next
  case (VSet ty kind)
  obtain members where kind: "kind = Fresh members" using VSet.prems(3) by (cases kind) auto
  have IH: "stored E (fold apply_write vs m) w' (snd e)" if "e \<in> set members" "entered plan w' n'"
    "insert_writes E w' (snd e) = (Inr vs :: ('e exec_error, _) outcome)" for e w' n' vs m
    using VSet.IH [of members e "snd e"] that VSet.prems(2) kind by (cases e) (auto simp: list_all_iff)
  show ?case unfolding kind
    by (rule insert_stores_set [OF assms VSet.prems(1) VSet.prems(3) [unfolded kind] VSet.prems(2) [unfolded kind]]) (rule IH)
qed auto

section \<open>Reading back\<close>

text \<open>The walkers that paths lead to.\<close>

lemma walk_entered:
  assumes "plan_layout plan" "distinct (plan_keys plan)" "walk_path plan e steps = Inr w"
  obtains n where "entered plan w n"
proof -
  obtain w0 where w0: "from_export plan e = Inr w0" "foldR step_walker w0 steps = Inr w"
    using assms(3) by (auto simp: walk_path_def)
  obtain n0 where n0: "bt_get plan e = Some n0" "w0 = PathWalker n0 (sn_key n0) None 1 (sn_flattened n0) False (Some e)"
    using w0(1) by (auto simp: from_export_def)
  have "n0 \<in> set (plan_nodes plan)" using n0(1) by (force simp: plan_nodes_def dest: map_of_SomeD)
  then have "entered plan w0 n0" using n0(2) assms(1) by (auto simp: entered_def walker_ok_def plan_layout_def)
  then have start: "\<exists>n. entered plan w0 n" by blast
  have "\<exists>n. entered plan w n"
  proof (rule foldR_invariant [where P = "\<lambda>v. \<exists>n. entered plan v n", OF w0(2) start])
    fix v s v' assume v: "\<exists>n. entered plan v n" "step_walker v s = Inr v'"
    then show "\<exists>n. entered plan v' n"
      using entered_field [OF assms(1) _ _ assms(2)] entered_member [OF assms(1)] by (cases s) (simp_all, metis+)
  qed
  then show thesis using that by blast
qed

definition rmp_roundtrip :: "externs \<Rightarrow> bool" where
  "rmp_roundtrip E \<longleftrightarrow> (\<forall>p. rmp_from_slice E (rmp_to_vec E p) = Some p)"

text \<open>What reading a field gives for the value that was stored there.\<close>

fun reads_as :: "externs \<Rightarrow> kv_view \<Rightarrow> field_type \<Rightarrow> vm_value \<Rightarrow> ('e exec_error, vm_value) outcome \<Rightarrow> bool" where
  "reads_as E m (FPrimitive t) (VPrimitive p) r = (r = Inr (VPrimitive p))"
| "reads_as E m (FPrimitive t) (VNull ty) r = (r = Inr (VNull (TPrimitive t)))"
| "reads_as E m (FTable t) v r = (\<exists>w. r = Inr (VTable t (Resident w)) \<and> stored E m w v)"
| "reads_as E m (FSet x) v r = (\<exists>w. r = Inr (VSet (vm_type_of_field x) (Resident w)) \<and> stored E m w v)"
| "reads_as E m _ _ r = True"

context kv_provider
begin

lemma read_back:
  assumes "rmp_roundtrip E" "ok t" "stored E (snap t) w (VTable ty (Fresh flds))" "(f, v) \<in> set flds"
    and "bt_get (cs_types sch) ty = Some st" "bt_get (st_fields st) f = Some (ft, ann)"
  shows "reads_as E (snap t) ft v (read_table_element E sch kv t (ty, Resident w) f)"
proof -
  obtain w' where w': "enter_field w f = Inr w'" "stored E (snap t) w' v"
    using assms(3,4) by (cases "enter_field w f") (auto simp: list_all_iff)
  then show ?thesis
    using assms(1,2,5,6) by (cases ft; cases v) (auto simp: read_table_element_def get_law rmp_roundtrip_def)
qed

lemma scan_members:
  assumes "ok t" "stored E (seen t) w (VSet ty (Fresh members))" "bt_ok members"
  shows "kv_scan_keys kv t (generate_key w @ [1]) (generate_key w @ [2]) = Inr (map (\<lambda>e. generate_key w @ 1 # fst e) members)"
proof -
  obtain ks where ks: "kv_scan_keys kv t (generate_key w @ [1]) (generate_key w @ [2]) = Inr ks" "sorted_wrt (<) ks"
    "set ks = {k. generate_key w @ [1] \<le> k \<and> k < generate_key w @ [2] \<and> seen t k \<noteq> None}"
    using scan_law [OF assms(1)] by blast
  have "sorted_wrt (<) (map (\<lambda>e. generate_key w @ 1 # fst e) members)"
    using assms(3) by (simp add: bt_ok_def sorted_wrt_map)
  moreover have "set ks = set (map (\<lambda>e. generate_key w @ 1 # fst e) members)"
  proof (rule set_eqI)
    fix k
    have mem: "seen t (generate_key w @ 1 # r) \<noteq> None \<longleftrightarrow> r \<in> fst ` set members" for r using assms(2) by simp
    have "k \<in> set ks \<longleftrightarrow> prefix (generate_key w @ [1]) k \<and> seen t k \<noteq> None"
      unfolding ks(3) mem_Collect_eq prefix_range(2) [symmetric] by blast
    also have "\<dots> \<longleftrightarrow> (\<exists>r. k = generate_key w @ 1 # r \<and> r \<in> fst ` set members)"
      unfolding prefix_def using mem by (metis append.assoc append_Cons append_Nil)
    finally show "k \<in> set ks \<longleftrightarrow> k \<in> set (map (\<lambda>e. generate_key w @ 1 # fst e) members)" by auto
  qed
  ultimately show ?thesis using ks(1,2) by (metis strict_sorted_equal)
qed

end

section \<open>Sets\<close>

lemma delete_entry_keys:
  "delete_entry_from_set E kv t w p = (if sn_set (pw_node w) = None then Inl (Panic unwrap_err) else
     lift_kv (run_writes kv t [WDelete (generate_key w @ 1 # serialize_for_key_component E p),
       WDeleteRange ((generate_key w @ 0 # serialize_for_key_component E p) @ [0])
         ((generate_key w @ 0 # serialize_for_key_component E p) @ [1])]))"
  by (cases "sn_set (pw_node w)")
    (simp_all add: delete_entry_from_set_def set_fast_scan_prefix_def set_data_prefix_def Let_def lift_kv_bindR butlast_append)

lemma delete_member_view:
  "fold apply_write [WDelete (generate_key w @ 1 # pk), WDeleteRange ((generate_key w @ 0 # pk) @ [0]) ((generate_key w @ 0 # pk) @ [1])] m =
    (\<lambda>k. if k \<in> member_foot w pk then None else m k)"
  using prefix_range(1) [of "generate_key w @ 0 # pk"] by (auto simp: fun_eq_iff member_foot_def)

lemma stored_without:
  assumes "plan_layout plan" "distinct (plan_keys plan)" "entered plan w n" "stored E m w (VSet ty (Fresh members))" "bt_ok members"
    and sep: "\<And>q. q \<in> fst ` set members \<Longrightarrow> q \<noteq> pk \<Longrightarrow> \<not> prefix (pk @ [0]) (q @ [0]) \<and> \<not> prefix (q @ [0]) (pk @ [0])"
  shows "stored E (\<lambda>k. if k \<in> member_foot w pk then None else m k) w (VSet ty (Fresh (bt_remove pk members)))"
    (is "stored E ?m w _")
proof -
  have "case enter_set_raw w (fst e) of Inr w' \<Rightarrow> stored E ?m w' (snd e) | Inl _ \<Rightarrow> False"
    if e: "e \<in> set members" "fst e \<noteq> pk" for e
  proof (rule member_stored_cong [OF assms(1-3)])
    fix k assume "k \<in> member_foot w (fst e)"
    moreover have "member_foot w pk \<inter> member_foot w (fst e) = {}" using sep e by (intro member_foot_disjoint) auto
    ultimately show "m k = ?m k" by auto
  qed (use assms(4) e in \<open>simp add: list_all_iff\<close>)
  moreover have "generate_key w \<notin> member_foot w pk" by (auto simp: member_foot_def prefix_def)
  moreover have "generate_key w @ 1 # k \<in> member_foot w pk \<longleftrightarrow> k = pk" for k by (auto simp: member_foot_def prefix_def)
  ultimately show ?thesis using assms(4,5) by (auto simp: list_all_iff set_bt_remove)
qed

text \<open>
  Values that a field type can hold below a walker at depth \<open>d\<close>: the shape of the type, distinct
  fields, member keys none of which extends another, and no path beyond the depth limit.
\<close>

fun storable :: "compiled_schema \<Rightarrow> nat \<Rightarrow> vm_value \<Rightarrow> field_type \<Rightarrow> bool" where
  "storable sch d (VNull ty) ft = True"
| "storable sch d (VPrimitive p) ft = (ft = FPrimitive (get_type p))"
| "storable sch d (VTable ty (Fresh flds)) ft =
     (ft = FTable ty \<and> distinct (map fst flds) \<and>
      list_all (\<lambda>e. d < MAX_DEPTH \<and>
        (case field_of sch ft (fst e) of Some g \<Rightarrow> storable sch (d + 1) (snd e) (fst g) | None \<Rightarrow> False)) flds)"
| "storable sch d (VSet ty (Fresh members)) ft =
     (case ft of
        FSet x \<Rightarrow> distinct (map fst members) \<and>
          (\<forall>p \<in> fst ` set members. \<forall>q \<in> fst ` set members. p \<noteq> q \<longrightarrow> \<not> prefix (p @ [0]) (q @ [0])) \<and>
          list_all (\<lambda>e. d + 1 < MAX_DEPTH \<and> storable sch (d + 2) (snd e) x) members
      | _ \<Rightarrow> False)"
| "storable sch d _ ft = False"

lemma storable_wf: "storable sch d v ft \<Longrightarrow> value_wf v"
proof (induction sch d v ft rule: storable.induct)
  case (3 sch d ty flds ft)
  then show ?case by (fastforce simp: list_all_iff split: option.splits)
next
  case (4 sch d ty members ft)
  then show ?case by (cases ft) (auto simp: list_all_iff)
qed auto

lemma insert_writes_total:
  assumes plan: "plan_conf sch rt sm plan" "schema_ok sch" "distinct (plan_keys plan)" "no_reference_members plan"
  shows "walker_at sch rt plan w ft \<Longrightarrow> storable sch (pw_depth w) v ft \<Longrightarrow>
    \<exists>ws. insert_writes E w v = (Inr ws :: ('e exec_error, _) outcome)"
proof (induction v arbitrary: w ft)
  case (VTable ty kind)
  obtain flds where kind: "kind = Fresh flds" using VTable.prems(2) by (cases kind) auto
  have ft: "ft = FTable ty" using VTable.prems(2) kind by simp
  have "\<exists>ws. bindR (unwrap_path unwrap_err (enter_field w (fst e))) (\<lambda>w'. insert_writes E w' (snd e)) = (Inr ws :: ('e exec_error, _) outcome)"
    if e: "e \<in> set flds" for e
  proof -
    obtain g where g: "field_of sch (FTable ty) (fst e) = Some g" "storable sch (pw_depth w + 1) (snd e) (fst g)" "pw_depth w < MAX_DEPTH"
      using VTable.prems(2) kind e ft by (cases "field_of sch (FTable ty) (fst e)") (auto simp: list_all_iff)
    obtain w' where w': "enter_field w (fst e) = Inr w'" "walker_at sch rt plan w' (fst g)" "pw_depth w' = pw_depth w + 1"
      using enter_field_at [OF plan(1-3) VTable.prems(1) [unfolded ft] g(1,3)] by blast
    have "\<exists>ws. insert_writes E w' (snd e) = (Inr ws :: ('e exec_error, _) outcome)"
      using VTable.IH [of flds e "snd e" w' "fst g"] w' g(2) e kind by (cases e) auto
    then show ?thesis using w'(1) by simp
  qed
  then have "\<exists>wss. mapR (\<lambda>e. bindR (unwrap_path unwrap_err (enter_field w (fst e))) (\<lambda>w'. insert_writes E w' (snd e))) flds
      = (Inr wss :: ('e exec_error, _) outcome)"
    by (rule mapR_total)
  then show ?case using kind by auto
next
  case (VSet ty kind)
  obtain members where kind: "kind = Fresh members" using VSet.prems(2) by (cases kind) auto
  obtain x where ft: "ft = FSet x" using VSet.prems(2) kind by (cases ft) auto
  have set: "sn_set (pw_node w) \<noteq> None"
    using VSet.prems(1) conf_set located_conf [OF _ plan(1,2)] unfolding ft walker_at_def by blast
  have "\<exists>ws. bindR (unwrap_path unwrap_err (set_fast_scan_prefix w)) (\<lambda>p. bindR (unwrap_path unwrap_err (enter_set_raw w (fst e)))
      (\<lambda>w'. bindR (insert_writes E w' (snd e)) (\<lambda>ws'. Inr (WPut (p @ fst e) [] # ws')))) = (Inr ws :: ('e exec_error, _) outcome)"
    if e: "e \<in> set members" for e
  proof -
    have s: "storable sch (pw_depth w + 2) (snd e) x" "pw_depth w + 1 < MAX_DEPTH"
      using VSet.prems(2) kind e ft by (auto simp: list_all_iff)
    obtain w' where w': "enter_set_raw w (fst e) = Inr w'" "walker_at sch rt plan w' x" "pw_depth w' = pw_depth w + 2"
      using enter_set_at [OF plan(1,2,4) VSet.prems(1) [unfolded ft] s(2)] by blast
    have "\<exists>ws. insert_writes E w' (snd e) = (Inr ws :: ('e exec_error, _) outcome)"
      using VSet.IH [of members e "snd e" w' x] w' s(1) e kind by (cases e) auto
    then show ?thesis using w'(1) set by (auto simp: set_fast_scan_prefix_def)
  qed
  then have "\<exists>wss. mapR (\<lambda>e. bindR (unwrap_path unwrap_err (set_fast_scan_prefix w)) (\<lambda>p. bindR (unwrap_path unwrap_err (enter_set_raw w (fst e)))
      (\<lambda>w'. bindR (insert_writes E w' (snd e)) (\<lambda>ws'. Inr (WPut (p @ fst e) [] # ws'))))) members = (Inr wss :: ('e exec_error, _) outcome)"
    by (rule mapR_total)
  moreover obtain ds where "delete_set_writes w = (Inr ds :: ('e exec_error, _) outcome)"
    using set by (auto simp: delete_set_writes_def set_fast_scan_prefix_def set_data_prefix_def)
  ultimately show ?case using kind by auto
qed (auto simp: storable.simps)



lemma be_bytes_decode: "foldl (\<lambda>a x. 256 * a + unat x) 0 (be_bytes n x) = x mod 256 ^ n"
proof (induction n arbitrary: x)
  case (Suc n)
  have "x mod 256 ^ Suc n = 256 * (x div 256 mod 256 ^ n) + x mod 256"
    by (metis add.commute mod_mult2_eq mult.commute power_Suc)
  then show ?case using Suc by (simp add: unat_of_nat)
qed simp

lemma sample_rmp_roundtrip: "rmp_roundtrip sample_externs"
proof -
  have "map (\<lambda>x. char_of (unat x)) (as_bytes s) = s" for s
  proof -
    show ?thesis by (simp add: as_bytes_def comp_def unat_of_char)
  qed
  moreover have "word_of_nat (foldl (\<lambda>a x. 256 * a + unat x) 0 (be_bytes 8 (unat x))) = x" for x :: "64 word"
    unfolding be_bytes_decode using unsigned_less [of x, where ?'a = nat] by simp
  ultimately show ?thesis by (auto simp: rmp_roundtrip_def sample_externs_def split: primitive_value.split)
qed


lemma stored_with:
  assumes "plan_layout plan" "distinct (plan_keys plan)" "entered plan w n" "stored E m w (VSet ty (Fresh members))" "bt_ok members"
    and sep: "\<And>q. q \<in> fst ` set members \<Longrightarrow> q \<noteq> pk \<Longrightarrow> \<not> prefix (pk @ [0]) (q @ [0]) \<and> \<not> prefix (q @ [0]) (pk @ [0])"
    and w': "enter_set_raw w pk = Inr w'" "insert_writes E w' v = (Inr us :: ('e exec_error, _) outcome)" "value_wf v"
  shows "stored E (fold apply_write (WPut (generate_key w @ 1 # pk) [] # us) m) w (VSet ty (Fresh (bt_insert pk v members)))"
    (is "stored E ?m w _")
proof -
  have new: "(\<forall>x \<in> set (WPut (generate_key w @ 1 # pk) [] # us). \<forall>k. write_touches x k \<longrightarrow> k \<in> member_foot w pk) \<and>
      (\<forall>m. fold apply_write (WPut (generate_key w @ 1 # pk) [] # us) m (generate_key w @ 1 # pk) = Some [] \<and>
        (case enter_set_raw w pk of Inr w' \<Rightarrow> stored E (fold apply_write (WPut (generate_key w @ 1 # pk) [] # us) m) w' v | Inl _ \<Rightarrow> False))"
    by (rule member_writes [where e = "(pk, v)", unfolded fst_conv snd_conv, OF assms(1,3) _ insert_stores [OF assms(1,2) _ w'(3)]
          insert_within_foot [OF assms(1,2)]])
      (use w'(1,2) in simp)
  then have same: "?m k = m k" if "k \<notin> member_foot w pk" for k
    using that by (intro fold_untouched) blast
  have old: "case enter_set_raw w (fst e) of Inr w' \<Rightarrow> stored E ?m w' (snd e) | Inl _ \<Rightarrow> False"
    if e: "e \<in> set members" "fst e \<noteq> pk" for e
  proof (rule member_stored_cong [OF assms(1-3)])
    fix k assume k: "k \<in> member_foot w (fst e)"
    have "member_foot w pk \<inter> member_foot w (fst e) = {}" using sep e by (intro member_foot_disjoint) auto
    then have "k \<notin> member_foot w pk" using k by blast
    then show "m k = ?m k" using same by metis
  qed (use assms(4) e in \<open>simp add: list_all_iff\<close>)
  have mem: "e = (pk, v) \<or> e \<in> set members \<and> fst e \<noteq> pk" if "e \<in> set (bt_insert pk v members)" for e
    using that by (simp add: set_bt_insert [OF assms(5)])
  have "list_all (\<lambda>e. case enter_set_raw w (fst e) of Inr w' \<Rightarrow> stored E ?m w' (snd e) | Inl _ \<Rightarrow> False) (bt_insert pk v members)"
    unfolding list_all_iff using mem old new by (metis fst_conv snd_conv)
  moreover have "?m (generate_key w) = Some []"
    using same [of "generate_key w"] assms(4) by (auto simp: member_foot_def prefix_def)
  moreover have "?m (generate_key w @ 1 # k) \<noteq> None \<longleftrightarrow> k \<in> fst ` set (bt_insert pk v members)" for k
  proof (cases "k = pk")
    case False
    then have "generate_key w @ 1 # k \<notin> member_foot w pk" by (auto simp: member_foot_def prefix_def)
    from same [OF this] False show ?thesis using assms(4) by (simp add: keys_bt_insert)
  qed (use new in \<open>simp add: keys_bt_insert\<close>)
  moreover have "sn_set (pw_node w) \<noteq> None" using assms(4) by simp
  ultimately show ?thesis unfolding stored.simps by blast
qed

definition encoded_keys :: "externs \<Rightarrow> (bytes \<times> vm_value) list \<Rightarrow> bool" where
  "encoded_keys E members \<longleftrightarrow> (\<forall>e \<in> set members. \<exists>p. nul_free p \<and> fst e = serialize_for_key_component E p)"

lemma encoded_sep:
  assumes "big_endian_u64 E" "encoded_keys E members" "nul_free p" "q \<in> fst ` set members" "q \<noteq> serialize_for_key_component E p"
  shows "\<not> prefix (serialize_for_key_component E p @ [0]) (q @ [0]) \<and> \<not> prefix (q @ [0]) (serialize_for_key_component E p @ [0])"
proof -
  obtain p' where p': "nul_free p'" "q = serialize_for_key_component E p'"
    using assms(2,4) by (auto simp: encoded_keys_def)
  have "p \<noteq> p'" using assms(5) p'(2) by auto
  then show ?thesis
    using encoding_prefix_free [OF assms(1,3) p'(1), of "[]"] encoding_prefix_free [OF assms(1) p'(1) assms(3), of "[]"] p'(2) by auto
qed


text \<open>
  C20. Scanning the index of a stored set yields exactly its members, in the order of their keys: the
  keys that \<open>Reduce\<close> iterates over.
\<close>

theorem set_scan_members:
  assumes "mem_txn_ok t" "stored E (mem_view (mt_buffer t)) w (VSet ty (Fresh members))" "bt_ok members"
  shows "\<exists>p q. set_fast_scan_prefix w = Inr p \<and> increment_last p = (Inr q :: (unit, _) outcome) \<and>
    kv_scan_keys (mem_kv :: (unit, mem_transaction) kv_transaction) t p q = Inr (map (\<lambda>e. p @ fst e) members)"
  using mem.scan_members [OF assms] assms(2) by (auto simp: set_fast_scan_prefix_def)


text \<open>A set of two members, stored in a transaction of an empty store.\<close>

definition two_members :: "(bytes \<times> vm_value) list" where
  "two_members = [(serialize_for_key_component sample_externs (PString ''a''), VTable ''Node<int64>'' (Fresh [])),
     (serialize_for_key_component sample_externs (PString ''b''), VTable ''Node<int64>'' (Fresh []))]"

lemma two_members_ok: "bt_ok two_members" "encoded_keys sample_externs two_members" "value_wf (VSet ty (Fresh two_members))"
proof -
  have nul: "nul_free (PString ''a'')" "nul_free (PString ''b'')" by (simp_all add: as_bytes_def)
  show "bt_ok two_members" by (simp add: two_members_def bt_ok_def as_bytes_def)
  show "encoded_keys sample_externs two_members" using nul unfolding encoded_keys_def two_members_def
    by (auto simp del: serialize_for_key_component.simps nul_free.simps)
  show "value_wf (VSet ty (Fresh two_members))" by (simp add: two_members_def as_bytes_def)
qed

lemma nodes_walker: "\<exists>w. walk_path tree_plan ''nodes'' [] = Inr w"
  by (simp add: walk_path_def from_export_def tree_plan_def)

lemma two_members_stored:
  assumes "walk_path tree_plan ''nodes'' [] = Inr w"
  shows "\<exists>t. mem_txn_ok t \<and> stored sample_externs (mem_view (mt_buffer t)) w (VSet ty (Fresh two_members))"
proof -
  have layout: "plan_layout tree_plan" by (rule plan_conf_layout [OF tree_plan_conf sample_schemas_ok(4) tree_plan_shape(1)])
  obtain n where n: "entered tree_plan w n" by (rule walk_entered [OF layout tree_plan_shape(2) assms])
  have "\<exists>ws. insert_writes sample_externs w (VSet ty (Fresh two_members)) = (Inr ws :: (unit exec_error, _) outcome)"
    using assms by (auto simp: walk_path_def from_export_def tree_plan_def two_members_def delete_set_writes_def
        set_fast_scan_prefix_def set_data_prefix_def enter_set_raw_def check_and_add_depth_def MAX_DEPTH_def Let_def)
  then obtain ws where ws: "insert_writes sample_externs w (VSet ty (Fresh two_members)) = (Inr ws :: (unit exec_error, _) outcome)" by blast
  have ok: "mem_txn_ok (fst (begin_transaction mem_new))" by (rule mem_begin_ok) (simp add: mem_new_def)
  obtain t where "mem_txn_ok t" "mem_view (mt_buffer t) = fold apply_write ws (mem_view (mt_buffer (fst (begin_transaction mem_new))))"
    using mem.writes_law [OF ok, where 'e = unit] by blast
  then show ?thesis using insert_stores [OF layout tree_plan_shape(2) n two_members_ok(3) ws] by metis
qed


theorem set_scan_members_witness:
  "\<exists>w t p q. set_fast_scan_prefix w = Inr p \<and> increment_last p = (Inr q :: (unit, _) outcome) \<and>
    kv_scan_keys (mem_kv :: (unit, mem_transaction) kv_transaction) t p q = Inr (map (\<lambda>e. p @ fst e) two_members)"
proof -
  obtain w where w: "walk_path tree_plan ''nodes'' [] = Inr w" using nodes_walker by blast
  obtain t where t: "mem_txn_ok t" "stored sample_externs (mem_view (mt_buffer t)) w (VSet (TTable ''Node<int64>'') (Fresh two_members))"
    using two_members_stored [OF w] by blast
  from set_scan_members [OF t two_members_ok(1)] show ?thesis by blast
qed

end
