(* ===== verification/Exec_Runs.thy ===== *)
theory Exec_Runs
  imports Exec_Graph Storage_Roundtrip "HOL-Library.Multiset"
begin

text \<open>
  Facts about runs of graphs: the fire rules of a graph, and that every node and every graph
  comes back with a value, an error or a panic.
\<close>

section \<open>Fire rules\<close>

text \<open>The rules of one source: its uses by each node, the parameters in order and then the precondition.\<close>

definition uses_of :: "nat \<Rightarrow> nat \<times> tw_graph_node \<times> nat list \<times> nat option \<Rightarrow> fire_rule_item list" where
  "uses_of source n =
     (case n of (target, _, in_edges, pre) \<Rightarrow>
      map (\<lambda>(pos, _). \<lparr>fr_target = target, fr_kind = ParamDep pos\<rparr>) (List.filter (\<lambda>(_, j). j = source) (enumerate 0 in_edges)) @
      (if pre = Some source then [\<lparr>fr_target = target, fr_kind = Precondition\<rparr>] else []))"

definition sources :: "tw_graph_node \<times> nat list \<times> nat option \<Rightarrow> nat list" where
  "sources n = (case n of (_, in_edges, pre) \<Rightarrow> in_edges @ (case pre of Some j \<Rightarrow> [j] | None \<Rightarrow> []))"

lemma push_rules:
  "foldR (\<lambda>m (pos, source). push_rule m source (f pos)) m es = (Inr m' :: ('e, fire_rule_table) outcome) \<Longrightarrow>
    length m' = length m \<and> (\<forall>(p, j) \<in> set es. j < length m) \<and>
    (\<forall>i < length m. m' ! i = m ! i @ map (\<lambda>(pos, _). f pos) (List.filter (\<lambda>(_, j). j = i) es))"
proof (induction es arbitrary: m)
  case (Cons e es)
  obtain p j where e: "e = (p, j)" by (cases e)
  from Cons.prems have j: "j < length m" and r: "foldR (\<lambda>m (pos, source). push_rule m source (f pos)) (m[j := m ! j @ [f p]]) es = (Inr m' :: ('e, fire_rule_table) outcome)"
    by (auto simp: e push_rule_def split: if_splits)
  show ?case using Cons.IH [OF r] j by (auto simp: e nth_list_update)
qed simp

lemma node_rules_Inr:
  assumes "node_rules m n = (Inr m' :: ('e, fire_rule_table) outcome)"
  shows "length m' = length m" "\<forall>j \<in> set (sources (snd n)). j < length m" "i < length m \<Longrightarrow> m' ! i = m ! i @ uses_of i n"
proof -
  obtain target node ins pre where n: "n = (target, node, ins, pre)" by (cases n) auto
  let ?f = "\<lambda>pos. \<lparr>fr_target = target, fr_kind = ParamDep pos\<rparr>"
  from assms obtain m1 where m1: "foldR (\<lambda>m (pos, source). push_rule m source (?f pos)) m (enumerate 0 ins) = (Inr m1 :: ('e, _) outcome)"
    and m': "(case pre of Some source \<Rightarrow> push_rule m1 source \<lparr>fr_target = target, fr_kind = Precondition\<rparr> | None \<Rightarrow> Inr m1) = (Inr m' :: ('e, fire_rule_table) outcome)"
    by (auto simp: node_rules_def n)
  note P = push_rules [OF m1]
  have ins: "j < length m" if j: "j \<in> set ins" for j
  proof -
    from j obtain p where "p < length ins" "ins ! p = j" by (auto simp: in_set_conv_nth)
    then have "(p, j) \<in> set (enumerate 0 ins)" by (simp add: in_set_enumerate_eq)
    then show ?thesis using P by blast
  qed
  show "length m' = length m" using P m' by (auto simp: push_rule_def split: option.splits if_splits)
  have pre: "j < length m" if "pre = Some j" for j using P m' that by (simp add: push_rule_def split: if_splits)
  show "\<forall>j \<in> set (sources (snd n)). j < length m" using ins pre by (auto simp: n sources_def split: option.splits)
  show "m' ! i = m ! i @ uses_of i n" if i: "i < length m"
    using P m' i by (cases pre) (auto simp: n uses_of_def push_rule_def nth_list_update split: if_splits)
qed

lemma fold_node_rules:
  "foldR node_rules m ns = (Inr m' :: ('e, fire_rule_table) outcome) \<Longrightarrow>
    length m' = length m \<and> (\<forall>n \<in> set ns. \<forall>j \<in> set (sources (snd n)). j < length m) \<and>
    (\<forall>i < length m. m' ! i = m ! i @ concat (map (uses_of i) ns))"
proof (induction ns arbitrary: m)
  case (Cons n ns)
  from Cons.prems obtain m1 where m1: "node_rules m n = (Inr m1 :: ('e, fire_rule_table) outcome)" "foldR node_rules m1 ns = (Inr m' :: ('e, fire_rule_table) outcome)" by auto
  show ?case using Cons.IH [OF m1(2)] node_rules_Inr [OF m1(1)] by auto
qed simp

lemma fire_rules:
  assumes "generate_fire_rules g = Inr rules"
  shows "length rules = length (g_nodes g)" 
    "i < length (g_nodes g) \<Longrightarrow> rules ! i = concat (map (uses_of i) (enumerate 0 (g_nodes g)))"
  using fold_node_rules [OF assms [unfolded generate_fire_rules_def]] by auto

text \<open>Graphs whose edges go forward, as the type checker demands.\<close>

definition forward_graph :: "tw_graph \<Rightarrow> bool" where
  "forward_graph g \<longleftrightarrow> (\<forall>i < length (g_nodes g). \<forall>j \<in> set (sources (g_nodes g ! i)). j < i)"

lemma node_rules_total:
  assumes "\<forall>j \<in> set (sources (snd n)). j < length m"
  shows "\<exists>m'. node_rules m n = (Inr m' :: ('e, fire_rule_table) outcome) \<and> length m' = length m"
proof -
  obtain target node ins pre where n: "n = (target, node, ins, pre)" by (cases n) auto
  have tot: "\<exists>m'. foldR (\<lambda>m (pos, source). push_rule m source (f pos)) m es = (Inr m' :: ('e, fire_rule_table) outcome) \<and> length m' = length m"
    if "\<forall>e \<in> set es. snd e < length m" for f :: "nat \<Rightarrow> fire_rule_item" and es m
    using that
  proof (induction es arbitrary: m)
    case (Cons e es)
    then show ?case using Cons.IH [of "m[snd e := m ! snd e @ [f (fst e)]]"] by (cases e) (simp add: push_rule_def)
  qed simp
  have "\<forall>e \<in> set (enumerate 0 ins). snd e < length m"
    using assms by (auto simp: n sources_def in_set_enumerate_eq)
  from tot [OF this, where f = "\<lambda>pos. \<lparr>fr_target = target, fr_kind = ParamDep pos\<rparr>"] obtain m1 where "foldR (\<lambda>m (pos, source). push_rule m source \<lparr>fr_target = target, fr_kind = ParamDep pos\<rparr>) m (enumerate 0 ins) =
      (Inr m1 :: ('e, fire_rule_table) outcome)" "length m1 = length m" by blast
  then show ?thesis using assms by (auto simp: n node_rules_def sources_def push_rule_def split: option.split)
qed

lemma generate_fire_rules_total:
  assumes "forward_graph g"
  shows "\<exists>rules. generate_fire_rules g = (Inr rules :: ('e, _) outcome)"
proof -
  have "\<exists>m'. foldR node_rules m ns = (Inr m' :: ('e, _) outcome)"
    if "\<forall>n \<in> set ns. \<forall>j \<in> set (sources (snd n)). j < length m" for ns m
    using that
  proof (induction ns arbitrary: m)
    case (Cons n ns)
    obtain m1 where "node_rules m n = (Inr m1 :: ('e, _) outcome)" "length m1 = length m"
      using node_rules_total [of n m] Cons.prems by auto
    then show ?case using Cons.IH [of m1] Cons.prems by auto
  qed simp
  moreover have "\<forall>n \<in> set (enumerate 0 (g_nodes g)). \<forall>j \<in> set (sources (snd n)). j < length (g_nodes g)"
    using assms by (auto simp: forward_graph_def in_set_enumerate_eq) (metis order.strict_trans)
  ultimately show ?thesis by (simp add: generate_fire_rules_def)
qed

lemma in_uses_of:
  "item \<in> set (uses_of i (j, n, ins, pre)) \<longleftrightarrow> fr_target item = j \<and>
    ((\<exists>pos < length ins. ins ! pos = i \<and> fr_kind item = ParamDep pos) \<or> pre = Some i \<and> fr_kind item = Precondition)"
  by (cases item) (auto simp: uses_of_def in_set_enumerate_eq image_iff)

lemma in_fire_rules:
  assumes "generate_fire_rules g = Inr rules" "i < length (g_nodes g)"
  shows "item \<in> set (rules ! i) \<longleftrightarrow> fr_target item < length (g_nodes g) \<and>
    (case g_nodes g ! fr_target item of (n, ins, pre) \<Rightarrow>
      (\<exists>pos < length ins. ins ! pos = i \<and> fr_kind item = ParamDep pos) \<or> pre = Some i \<and> fr_kind item = Precondition)"
proof -
  have "item \<in> set (rules ! i) \<longleftrightarrow> (\<exists>j < length (g_nodes g). item \<in> set (uses_of i (j, g_nodes g ! j)))"
    unfolding fire_rules(2) [OF assms] by (auto simp: in_set_enumerate_eq)
  also have "\<dots> \<longleftrightarrow> fr_target item < length (g_nodes g) \<and> item \<in> set (uses_of i (fr_target item, g_nodes g ! fr_target item))"
    by (metis in_uses_of prod_cases3)
  finally show ?thesis by (cases "g_nodes g ! fr_target item") (simp add: in_uses_of)
qed

lemma fire_rule_forward:
  assumes "generate_fire_rules g = Inr rules" "forward_graph g" "i < length rules" "item \<in> set (rules ! i)"
  shows "i < fr_target item" "fr_target item < length rules" "i \<in> set (sources (g_nodes g ! fr_target item))"
proof -
  have i: "i < length (g_nodes g)" using assms(3) fire_rules(1) [OF assms(1)] by simp
  have t: "fr_target item < length (g_nodes g)" and
    k: "case g_nodes g ! fr_target item of (n, ins, pre) \<Rightarrow>
      (\<exists>pos < length ins. ins ! pos = i \<and> fr_kind item = ParamDep pos) \<or> pre = Some i \<and> fr_kind item = Precondition"
    using assms(4) unfolding in_fire_rules [OF assms(1) i] by auto
  from k show s: "i \<in> set (sources (g_nodes g ! fr_target item))" by (auto simp: sources_def split: prod.splits)
  show "fr_target item < length rules" using t fire_rules(1) [OF assms(1)] by simp
  show "i < fr_target item" using assms(2) t s by (simp add: forward_graph_def)
qed

section \<open>Every step comes back\<close>

abbreviation returns :: "('e, 'a) outcome \<Rightarrow> bool" where
  "returns \<equiv> fails_only (\<lambda>f. f \<noteq> OutOfFuel)"

named_theorems returns_intros "which operations of the executor come back"

lemmas returns_bindR = fails_only_bindR [where Q = "\<lambda>f. f \<noteq> OutOfFuel"]

declare returns_bindR [returns_intros]

lemma returns_basic [returns_intros]:
  "returns (ok_or e x)" "returns (unwrap m y)" "returns (index_or_panic xs i)" "returns (increment_last k)"
  by (simp_all add: index_or_panic_def unwrap_def ok_or_def increment_last_def split: option.split)

lemma returns_values [returns_intros]:
  "returns (as_list v)" "returns (as_map v)" "returns (as_primitive v)" "returns (as_set v)"
  "returns (unwrap_table v)" "returns (unwrap_set v)" "returns (unwrap_primitive v)" "returns (unwrap_bool v)"
  by (cases v; simp)+

lemma returns_parts [returns_intros]:
  "returns (as_table_name ty)" "returns (unwrap_string p)" "returns (resident k)"
proof -
  show "returns (as_table_name ty)" by (cases ty) simp_all
  show "returns (unwrap_string p)" by (cases p) simp_all
  show "returns (resident k)" by (cases k) simp_all
qed

lemma returns_if [returns_intros]: "(b \<Longrightarrow> returns r) \<Longrightarrow> (\<not> b \<Longrightarrow> returns r') \<Longrightarrow> returns (if b then r else r')"
  by simp

lemma returns_Inr [returns_intros]: "returns (Inr x)"
  by simp

lemma returns_Err [returns_intros]: "returns (Inl (Err e))"
  by simp

lemma returns_Panic [returns_intros]: "returns (Inl (Panic m))"
  by simp

lemma returns_foldR [returns_intros]: "(\<And>s x. returns (f s x)) \<Longrightarrow> returns (foldR f s xs)"
  by (rule fails_only_foldR [where P = "\<lambda>_. True"]) simp_all

lemma returns_option_mapR [returns_intros]: "(\<And>x. returns (f x)) \<Longrightarrow> returns (option_mapR f y)"
  by (cases y) (auto intro: returns_bindR)

lemma returns_unwrap_path: "returns r \<Longrightarrow> returns (unwrap_path m r)"
  by (cases r; cases "projl r") auto

lemma returns_walker [returns_intros]:
  "returns (unwrap_path m (enter_field w f))" "returns (unwrap_path m (enter_set_raw w k))" "returns (unwrap_path m (enter_set E w p))"
  "returns (unwrap_path m (set_fast_scan_prefix w))" "returns (unwrap_path m (set_data_prefix w))"
  by (rule returns_unwrap_path; auto simp: enter_field_def enter_set_def enter_set_raw_def check_and_add_depth_def Let_def
      set_fast_scan_prefix_def set_data_prefix_def split: option.split intro!: returns_intros)+

lemma returns_fresh_primary_key [returns_intros]: "returns (fresh_primary_key E k kind)"
  by (cases kind) (auto simp: fresh_primary_key_def intro!: returns_intros)

lemma returns_build [returns_intros]: "returns (build_set E vm v)" "returns (build_table vm i v)"
  by (auto simp: build_set_def build_table_def split: residence.split intro!: returns_intros)

lemma returns_node_parts [returns_intros]:
  "returns (ident_at vm i)" "returns (get_set_element E k s)" "returns (add_values E x y)" "returns (sub_values E x y)"
  "returns (reduce_range E b ps p)" "returns (set_member ty w p q)"
  by (auto simp: ident_at_def get_set_element_def add_values_def sub_values_def reduce_range_def set_member_def
      split: vm_value.split primitive_value.split intro!: returns_intros)

lemma returns_insert_writes [returns_intros]:
  "returns (delete_set_writes w)" "returns (insert_writes E w v)"
proof -
  show "returns (delete_set_writes w)" for w
    by (auto simp: delete_set_writes_def intro!: returns_intros)
  show "returns (insert_writes E w v)"
  proof (induction v arbitrary: w)
    case (VSet ty kind)
    then show ?case
      by (cases kind) (auto simp: delete_set_writes_def intro!: returns_intros fails_only_mapR)
  next
    case (VTable ty kind)
    then show ?case
      by (cases kind) (auto intro!: returns_intros fails_only_mapR)
  qed auto
qed

definition ends :: "('a \<Rightarrow> bool) \<Rightarrow> ('e, 'a) outcome \<Rightarrow> bool" where
  "ends Q r \<longleftrightarrow> returns r \<and> (\<forall>x. r = Inr x \<longrightarrow> Q x)"

lemma ends_simps [simp]:
  "ends Q (Inr x) \<longleftrightarrow> Q x" "ends Q (Inl f) \<longleftrightarrow> f \<noteq> OutOfFuel"
  by (simp_all add: ends_def)

lemma ends_bindR: "ends P r \<Longrightarrow> (\<And>x. P x \<Longrightarrow> ends Q (k x)) \<Longrightarrow> ends Q (bindR r k)"
  by (cases r) (auto simp: ends_def)

lemma ends_pure: "returns r \<Longrightarrow> (\<And>x. r = Inr x \<Longrightarrow> ends Q (k x)) \<Longrightarrow> ends Q (bindR r k)"
  by (cases r) (auto simp: ends_def)

lemma ends_prod: "(\<And>a b. x = (a, b) \<Longrightarrow> ends Q (f a b)) \<Longrightarrow> ends Q (case x of (a, b) \<Rightarrow> f a b)"
  by (cases x) simp

context kv_provider
begin

abbreviation value_ends :: "('e exec_error, 'v \<times> 't) outcome \<Rightarrow> bool" where
  "value_ends \<equiv> ends (\<lambda>(v, t). ok t)"

lemma lift_kv_get: "ok t \<Longrightarrow> lift_kv (kv_get kv t k) = Inr (snap t k)"
  by (simp add: get_law)

lemma returns_read: "ok t \<Longrightarrow> returns (read_table_element E sch kv t table key)"
  by (auto simp: read_table_element_def lift_kv_get split: residence.split field_type.split intro!: returns_intros)

lemma returns_present: "ok t \<Longrightarrow> returns (is_present kv t v)"
  by (simp add: is_present_def lift_kv_get Let_def split: vm_value.split residence.split)

lemma put_ends: "ok t \<Longrightarrow> ends ok (lift_kv (kv_put kv t k v))"
  using put_law [of t k v] by auto

lemma walk_and_insert_ends:
  assumes "ok t"
  shows "ends ok (walk_and_insert E kv t w v)"
proof -
  have "ends ok (lift_kv (run_writes kv t ws))" for ws using writes_law [OF assms, of ws] by auto
  then show ?thesis unfolding walk_and_insert_runs [OF assms] by (intro ends_pure returns_intros)
qed

lemma delete_entry_ends:
  assumes "ok t"
  shows "ends ok (delete_entry_from_set E kv t w p)"
proof -
  have d: "ends ok (lift_kv (kv_delete_range kv t a b))" if "ok t" for t a b using delete_range_law [OF that, of a b] by auto
  have "ends ok (lift_kv (kv_delete kv t k))" for k using delete_law [OF assms, of k] by auto
  then show ?thesis unfolding delete_entry_from_set_def Let_def
    by (intro ends_pure returns_intros ends_bindR [where P = ok] d)
qed

lemma insert_into_set_ends: "ok t \<Longrightarrow> ends ok (insert_into_set E vm kv t v s)"
  unfolding insert_into_set_def Let_def
  by (intro ends_pure ends_prod returns_intros returns_read ends_bindR [OF put_ends] walk_and_insert_ends)

lemma insert_into_table_ends: "ok t \<Longrightarrow> ends ok (insert_into_table E kv t k v s)"
  unfolding insert_into_table_def by (intro ends_pure returns_intros walk_and_insert_ends)

lemma delete_from_set_ends: "ok t \<Longrightarrow> ends ok (delete_from_set E kv t k s)"
  unfolding delete_from_set_def by (intro ends_pure ends_prod returns_intros delete_entry_ends)

lemma reduce_loop_ends:
  assumes "\<And>ps t. ok t \<Longrightarrow> value_ends (call ps t)" "\<And>k. returns (elem k)"
  shows "ok t \<Longrightarrow> value_ends (reduce_loop call elem param acc ks t)"
proof (induction ks arbitrary: acc t)
  case (Cons k ks)
  show ?case unfolding reduce_loop.simps
  proof (rule ends_pure [OF assms(2)], rule ends_bindR [OF assms(1) [OF Cons.prems]])
    fix x :: "vm_value option \<times> 't" assume "case x of (v, t) \<Rightarrow> ok t"
    then show "value_ends (case x of (output, t') \<Rightarrow>
        bindR (unwrap ''inconsistency: ReduceList did not get an output from subgraph'' output) (\<lambda>v.
        if is_null v then Inr (acc, t') else reduce_loop call elem param v ks t'))"
      using Cons.IH by (auto intro!: ends_pure returns_intros)
  qed
qed simp

lemma run_reduce_ends:
  assumes call: "\<And>ps t. ok t \<Longrightarrow> value_ends (call ps t)" and t: "ok t"
  shows "value_ends (run_reduce E vm kv call b ps t ty)"
proof -
  note loop = reduce_loop_ends [where call = call, OF call _ t]
  have scan: "returns (lift_kv (kv_scan_keys kv t a b))" for a b
    using scan_law [OF t, of a b] by auto
  have fin: "value_ends r \<Longrightarrow> value_ends (bindR r (\<lambda>(v, t'). Inr (Some v, t')))" for r :: "('e exec_error, vm_value \<times> 't) outcome"
    by (erule ends_bindR) auto
  show ?thesis unfolding run_reduce_def
    by (intro ends_pure returns_intros; auto simp: t split: vm_value.split
      intro!: fin loop ends_prod returns_intros ends_pure [OF returns_parts(3)] ends_pure [OF returns_parts(1)]
        ends_pure [OF returns_basic(2)] ends_pure [OF returns_walker(4)] ends_pure [OF returns_node_parts(5)] ends_pure [OF scan])
qed

lemma run_node_ends:
  assumes call: "\<And>i ps t. ok t \<Longrightarrow> value_ends (call i ps t)" and t: "ok t"
  shows "value_ends (run_node E vm kv call n ps t gps ty)"
proof (cases "is_optional_chained n \<and> (\<exists>x \<in> set ps. is_null x)")
  case True
  then show ?thesis using t by (simp add: run_node_def)
next
  case False
  have eff: "ends ok r \<Longrightarrow> value_ends (bindR r (\<lambda>t'. Inr (None, t')))" for r
    by (erule ends_bindR) simp
  show ?thesis
  proof (cases n)
    case (GetField i)
    with False show ?thesis
      by (auto simp: run_node_def Let_def t split: vm_value.split intro!: ends_pure returns_intros returns_read)
  next
    case (Reduce i b)
    with False show ?thesis by (simp add: run_node_def run_reduce_ends call t)
  next
    case (Call i)
    with False show ?thesis by (simp add: run_node_def call t)
  qed (insert False, auto simp: run_node_def Let_def t simp del: as_list.simps split: if_split
      intro!: ends_pure ends_prod returns_intros returns_present eff insert_into_set_ends insert_into_table_ends delete_from_set_ends)
qed

end

section \<open>The scheduler loop ends\<close>

lemma mset_swap_remove:
  assumes "k < length xs"
  shows "mset xs = add_mset (xs ! k) (mset (swap_remove xs k))"
proof -
  obtain ys z where xs: "xs = ys @ [z]" using assms by (cases xs rule: rev_cases) auto
  show ?thesis
  proof (cases "k = length ys")
    case False
    then have k: "k < length ys" using assms xs by simp
    have "mset (ys[k := z]) = add_mset z (mset ys - {#ys ! k#})" by (rule mset_update [OF k])
    then show ?thesis using k by (simp add: xs swap_remove_def nth_append list_update_append butlast_append)
  qed (simp add: xs swap_remove_def)
qed

lemma length_weights [simp]: "length (weights_from i rules) = length rules"
  by (induction rules arbitrary: i) (simp_all add: Let_def)

lemma weights_nth:
  assumes "k < length rules" "\<And>item. item \<in> set (rules ! k) \<Longrightarrow> i + k < fr_target item \<and> fr_target item < i + length rules"
  shows "weights_from i rules ! k = Suc (sum_list (map (\<lambda>item. weights_from i rules ! (fr_target item - i)) (rules ! k)))"
  using assms
proof (induction rules arbitrary: i k)
  case (Cons items rest)
  have step: "weights_from i (items # rest) ! (fr_target item - i) = weights_from (Suc i) rest ! (fr_target item - Suc i)"
    if "i < fr_target item" for item
    using that by (simp add: Let_def nth_Cons')
  show ?case
  proof (cases k)
    case 0
    have "(if i < fr_target item \<and> fr_target item - Suc i < length rest then weights_from (Suc i) rest ! (fr_target item - Suc i) else 0) =
        weights_from i (items # rest) ! (fr_target item - i)" if "item \<in> set items" for item
      using Cons.prems(2) [of item] that 0 step [of item] by auto
    then have eq: "map (\<lambda>item. if i < fr_target item \<and> fr_target item - Suc i < length rest then weights_from (Suc i) rest ! (fr_target item - Suc i) else 0) items =
        map (\<lambda>item. weights_from i (items # rest) ! (fr_target item - i)) items" by (intro map_cong refl)
    have "weights_from i (items # rest) ! 0 = Suc (sum_list (map (\<lambda>item. if i < fr_target item \<and>
        fr_target item - Suc i < length rest then weights_from (Suc i) rest ! (fr_target item - Suc i) else 0) items))"
      by (simp add: Let_def)
    then show ?thesis unfolding 0 nth_Cons_0 eq .
  next
    case (Suc j)
    have IH: "weights_from (Suc i) rest ! j = Suc (sum_list (map (\<lambda>item. weights_from (Suc i) rest ! (fr_target item - Suc i)) (rest ! j)))"
      by (rule Cons.IH) (use Cons.prems Suc in auto)
    have eq: "map (\<lambda>item. weights_from (Suc i) rest ! (fr_target item - Suc i)) (rest ! j) =
        map (\<lambda>item. weights_from i (items # rest) ! (fr_target item - i)) (rest ! j)"
      by (intro map_cong refl step [symmetric]) (use Cons.prems(2) Suc in fastforce)
    have "weights_from i (items # rest) ! Suc j = weights_from (Suc i) rest ! j" by (simp add: Let_def)
    then show ?thesis unfolding Suc nth_Cons_Suc IH eq .
  qed
qed simp

definition weight :: "fire_rule_table \<Rightarrow> nat \<Rightarrow> nat" where
  "weight rules i = (if i < length rules then weights_from 0 rules ! i else 1)"

definition potential :: "fire_rule_table \<Rightarrow> future list \<Rightarrow> nat" where
  "potential rules fs = sum_list (map (\<lambda>f. weight rules (future_node f)) fs)"

lemma weight_pos: "0 < weight rules i"
proof -
  have "i < length rules \<Longrightarrow> 0 < weights_from k rules ! i" for k
    by (induction rules arbitrary: i k) (auto simp: Let_def nth_Cons split: nat.split)
  then show ?thesis by (simp add: weight_def)
qed

lemma potential_mset: "mset fs = mset gs \<Longrightarrow> potential rules fs = potential rules gs"
  unfolding potential_def by (metis mset_map sum_mset_sum_list)

lemma fire_potential:
  assumes "foldR (fire g pre) st items = (Inr st' :: ('e exec_error, _) outcome)"
  shows "potential rules (snd st') \<le> potential rules (snd st) + sum_list (map (\<lambda>item. weight rules (fr_target item)) items)"
  using assms
proof (induction items arbitrary: st)
  case (Cons item items)
  from Cons.prems obtain st1 where st1: "fire g pre st item = (Inr st1 :: ('e exec_error, _) outcome)"
    "foldR (fire g pre) st1 items = (Inr st' :: ('e exec_error, _) outcome)" by auto
  from st1(1) have "potential rules (snd st1) \<le> potential rules (snd st) + weight rules (fr_target item)"
    by (auto simp: fire_def Let_def potential_def index_or_panic_def split: prod.splits if_splits option.splits)
  then show ?case using Cons.IH [OF st1(2)] by simp
qed simp

lemma round_decreases:
  assumes "run_round run g info rules k s = (Inr s' :: ('e exec_error, _) outcome)" "k < length (rs_futures s)"
    and "\<And>i item. i < length rules \<Longrightarrow> item \<in> set (rules ! i) \<Longrightarrow> i < fr_target item \<and> fr_target item < length rules"
  shows "potential rules (rs_futures s') < potential rules (rs_futures s)"
proof -
  let ?f = "rs_futures s ! k"
  let ?i = "future_node ?f"
  have "potential rules (rs_futures s) = potential rules (?f # swap_remove (rs_futures s) k)"
    by (rule potential_mset) (simp add: mset_swap_remove [OF assms(2)])
  then have "potential rules (rs_futures s) = weight rules ?i + potential rules (swap_remove (rs_futures s) k)"
    by (simp add: potential_def)
  moreover from assms(1,2) obtain pre st where i: "?i < length rules" and
      st: "foldR (fire g pre) (st, swap_remove (rs_futures s) k) (rules ! ?i) = (Inr (rs_deps s', rs_futures s') :: ('e exec_error, _) outcome)"
    by (auto simp: run_round_def complete_node_def index_or_panic_def)
  have m: "map (\<lambda>item. weights_from 0 rules ! (fr_target item - 0)) (rules ! ?i) = map (\<lambda>item. weight rules (fr_target item)) (rules ! ?i)"
    using assms(3) [OF i] by (intro map_cong) (auto simp: weight_def)
  have "weights_from 0 rules ! ?i = Suc (sum_list (map (\<lambda>item. weights_from 0 rules ! (fr_target item - 0)) (rules ! ?i)))"
    by (rule weights_nth [OF i]) (simp add: assms(3) [OF i])
  then have "weight rules ?i = Suc (sum_list (map (\<lambda>item. weight rules (fr_target item)) (rules ! ?i)))"
    unfolding m using i by (simp add: weight_def)
  ultimately show ?thesis using fire_potential [OF st, of rules] by simp
qed

lemma returns_scheduler [returns_intros]:
  "returns (record_result r st item)" "returns (fire g pre st' item)" "returns (complete_node g rules i r s)"
proof -
  have "returns (precondition_value r)" by (cases r rule: precondition_value.cases) auto
  then show r: "returns (record_result r st item)" for item st
    by (auto simp: record_result_def split: prod.split fire_rule_kind.split intro!: returns_intros)
  show f: "returns (fire g pre st' item)" for pre st' item
    by (auto simp: fire_def Let_def split: prod.split option.split intro!: returns_intros)
  show "returns (complete_node g rules i r s)"
    by (auto simp: complete_node_def split: prod.split intro!: returns_intros r f)
qed

lemma complete_node_txn: "complete_node g rules i r s = Inr s' \<Longrightarrow> rs_txn s' = rs_txn s"
  by (auto simp: complete_node_def)

lemma initial_potential:
  assumes "length rules = length (g_nodes g)"
  shows "potential rules (initial_futures g) \<le> loop_fuel rules"
proof -
  let ?es = "enumerate 0 (g_nodes g)"
  have "potential rules (initial_futures g) =
      sum_list (map (\<lambda>e. weight rules (fst e)) (List.filter (\<lambda>(_, _, in_edges, pre). in_edges = [] \<and> pre = None) ?es))"
    by (simp add: potential_def initial_futures_def comp_def case_prod_beta)
  also have "\<dots> \<le> sum_list (map (\<lambda>e. weight rules (fst e)) ?es)" by (rule sum_list_filter_le_nat)
  also have "map (\<lambda>e. weight rules (fst e)) ?es = weights_from 0 rules"
    using assms by (auto simp: list_eq_iff_nth_eq nth_enumerate_eq weight_def)
  finally show ?thesis by (simp add: loop_fuel_def)
qed

lemma run_loop_simps:
  "rs_futures s = [] \<Longrightarrow> run_loop fuel pick run g info rules s = Inr (rs_ret s, rs_txn s)"
  "rs_futures s \<noteq> [] \<Longrightarrow> run_loop 0 pick run g info rules s = Inl OutOfFuel"
  "rs_futures s \<noteq> [] \<Longrightarrow> run_loop (Suc n) pick run g info rules s =
     bindR (run_round run g info rules (pick s mod length (rs_futures s)) s) (\<lambda>s'. run_loop n pick run g info rules s')"
  by (subst run_loop.simps; simp)+

declare run_loop.simps [simp del]

text \<open>The tables of an executor match the graphs of its script.\<close>

definition executor_ready :: "('e, 't) executor \<Rightarrow> bool" where
  "executor_ready ex \<longleftrightarrow>
     length (ex_fire_rules ex) = length (s_graphs (vm_script (ex_vm ex))) \<and>
     (\<forall>i < length (ex_fire_rules ex). forward_graph (s_graphs (vm_script (ex_vm ex)) ! i) \<and>
        generate_fire_rules (s_graphs (vm_script (ex_vm ex)) ! i) = (Inr (ex_fire_rules ex ! i) :: (unit, _) outcome))"

context kv_provider
begin

lemma run_round_ends:
  assumes "\<And>n ps t ty. ok t \<Longrightarrow> value_ends (run n ps t ty)" "ok (rs_txn s)"
  shows "ends (\<lambda>s'. ok (rs_txn s')) (run_round run g info rules k s)"
proof -
  have "value_ends (run_future run g info f (rs_txn s))" for f
    using assms by (auto simp: run_future_def split: future.split intro!: ends_pure ends_prod returns_intros)
  moreover have "ends (\<lambda>s'. ok (rs_txn s')) (complete_node g rules i r (s\<lparr>rs_futures := fs, rs_txn := t\<rparr>))"
    if "ok t" for i r fs t
    using that by (auto simp: ends_def dest!: complete_node_txn intro: returns_intros)
  ultimately show ?thesis unfolding run_round_def
    by (intro ends_pure returns_intros ends_bindR [where P = "\<lambda>(v, t). ok t"] ends_prod) auto
qed

lemma run_loop_ends:
  assumes run: "\<And>n ps t ty. ok t \<Longrightarrow> value_ends (run n ps t ty)"
    and rules: "\<And>i item. i < length rules \<Longrightarrow> item \<in> set (rules ! i) \<Longrightarrow> i < fr_target item \<and> fr_target item < length rules"
  shows "ok (rs_txn s) \<Longrightarrow> potential rules (rs_futures s) \<le> fuel \<Longrightarrow> value_ends (run_loop fuel pick run g info rules s)"
proof (induction fuel arbitrary: s)
  case 0
  have "rs_futures s = []"
    using 0 weight_pos [of rules "future_node (hd (rs_futures s))"] by (cases "rs_futures s") (auto simp: potential_def)
  then show ?case using 0 by (simp add: run_loop_simps)
next
  case (Suc n)
  show ?case
  proof (cases "rs_futures s = []")
    case False
    let ?k = "pick s mod length (rs_futures s)"
    have k: "?k < length (rs_futures s)" using False by simp
    have "ends (\<lambda>s'. ok (rs_txn s') \<and> potential rules (rs_futures s') \<le> n) (run_round run g info rules ?k s)"
      using run_round_ends [where run = run, OF run Suc.prems(1), of g info rules ?k] round_decreases [OF _ k rules, where run = run and g = g and info = info] Suc.prems(2)
      unfolding ends_def by fastforce
    then show ?thesis unfolding run_loop_simps(3) [OF False] by (rule ends_bindR) (use Suc.IH in auto)
  qed (use Suc in \<open>simp add: run_loop_simps\<close>)
qed

end

context kv_provider
begin

lemma run_body_ends:
  assumes "executor_ready ex" "ex_kv ex = kv" "\<And>i ps t. ok t \<Longrightarrow> value_ends (call i ps t)" "ok t"
  shows "value_ends (run_body E ex pick call gi gps t)"
proof -
  have "value_ends (run_loop (loop_fuel (ex_fire_rules ex ! gi)) pick (\<lambda>n ps t ty. run_node E (ex_vm ex) (ex_kv ex) call n ps t gps ty)
      (s_graphs (vm_script (ex_vm ex)) ! gi) info (ex_fire_rules ex ! gi) (initial_state (s_graphs (vm_script (ex_vm ex)) ! gi) t))"
    if gi: "gi < length (ex_fire_rules ex)" for info
  proof (rule run_loop_ends)
    let ?g = "s_graphs (vm_script (ex_vm ex)) ! gi"
    have g: "generate_fire_rules ?g = (Inr (ex_fire_rules ex ! gi) :: (unit, _) outcome)" "forward_graph ?g"
      using assms(1) gi by (auto simp: executor_ready_def)
    show "value_ends (run_node E (ex_vm ex) (ex_kv ex) call n ps t gps ty)" if "ok t" for n ps t ty
      unfolding assms(2) by (rule run_node_ends [OF assms(3) that])
    show "i < fr_target item \<and> fr_target item < length (ex_fire_rules ex ! gi)"
      if "i < length (ex_fire_rules ex ! gi)" "item \<in> set (ex_fire_rules ex ! gi ! i)" for i item
      using fire_rule_forward [OF g that] by blast
    show "ok (rs_txn (initial_state ?g t))" by (simp add: initial_state_def assms(4))
    show "potential (ex_fire_rules ex ! gi) (rs_futures (initial_state ?g t)) \<le> loop_fuel (ex_fire_rules ex ! gi)"
      using initial_potential [of "ex_fire_rules ex ! gi" ?g] fire_rules(1) [OF g(1)] by (simp add: initial_state_def)
  qed
  then show ?thesis unfolding run_body_def
    by (auto simp: index_or_panic_def intro!: ends_pure returns_intros)
qed

lemma run_graph_ends:
  assumes "executor_ready ex" "ex_kv ex = kv"
  shows "ok t \<Longrightarrow> value_ends (recursively_run_graph E ex pick left gi gps t)"
proof (induction left arbitrary: gi gps t)
  case (Suc n)
  show ?case unfolding recursively_run_graph.simps by (rule run_body_ends [OF assms Suc.IH Suc.prems])
qed simp

end

section \<open>Checked scripts\<close>

lemma typeck_step_Inr:
  assumes "typeck_step vm params (types, sink) n = Inr (types', sink')"
  shows "\<exists>ty. types' = types @ [ty]" "\<forall>j \<in> set (sources n). j < length types"
proof -
  obtain node ins pre where n: "n = (node, ins, pre)" by (cases n)
  from assms have "\<forall>j \<in> set ins. j < length types" "check_precondition (length types) types pre = Inr ()" "\<exists>ty. types' = types @ [ty]"
    by (auto simp: typeck_step_def n not_le split: if_splits prod.splits)
  then show "\<exists>ty. types' = types @ [ty]" "\<forall>j \<in> set (sources n). j < length types"
    by (auto simp: n sources_def check_precondition_def split: option.splits if_splits)
qed

lemma typeck_nodes:
  "foldR (typeck_step vm params) (types, sink) ns = Inr (types', sink') \<Longrightarrow>
    length types' = length types + length ns \<and> (\<forall>i < length ns. \<forall>j \<in> set (sources (ns ! i)). j < length types + i)"
proof (induction ns arbitrary: types sink)
  case (Cons n ns)
  from Cons.prems obtain types1 sink1 where s: "typeck_step vm params (types, sink) n = Inr (types1, sink1)"
    "foldR (typeck_step vm params) (types1, sink1) ns = Inr (types', sink')" by auto
  then obtain ty where "types1 = types @ [ty]" using typeck_step_Inr by blast
  then show ?case using Cons.IH [OF s(2)] typeck_step_Inr(2) [OF s(1)] by (auto simp: nth_Cons split: nat.split)
qed simp

lemma typeck_graph_Inr:
  assumes "typeck_graph vm expected i sink = Inr (info, sink')"
  shows "i < length (s_graphs (vm_script vm))" "forward_graph (s_graphs (vm_script vm) ! i)"
    "length (gti_nodes info) = length (g_nodes (s_graphs (vm_script vm) ! i))"
  using assms typeck_nodes by (fastforce simp: typeck_graph_def index_or_panic_def forward_graph_def split: if_splits prod.splits)+

text \<open>
  What the type checker relies on in \<^verbatim>\<open>petgraph\<close>: every graph is in one of the components.
\<close>

definition covers_nodes :: "(nat \<Rightarrow> (nat \<times> nat) list \<Rightarrow> nat list list) \<Rightarrow> bool" where
  "covers_nodes kosaraju \<longleftrightarrow> (\<forall>n es. set (concat (kosaraju n es)) = {..<n})"

definition checked :: "(nat \<Rightarrow> (nat \<times> nat) list \<Rightarrow> nat list list) \<Rightarrow> tw_vm \<Rightarrow> global_type_info \<Rightarrow> bool" where
  "checked kosaraju vm info \<longleftrightarrow> bindR (tyck_new kosaraju vm) typeck = Inr info"

lemma typeck_scc_each:
  assumes "typeck_scc vm (info, expected) scc = Inr st" "i \<in> set scc"
  shows "\<exists>expected sink r. typeck_graph vm expected i sink = Inr r"
  using assms by (auto simp: typeck_scc_def dest!: foldR_each split: prod.splits)

lemma checked_graph:
  assumes "covers_nodes kosaraju" "checked kosaraju vm info" "i < length (s_graphs (vm_script vm))"
  shows "\<exists>expected sink r. typeck_graph vm expected i sink = Inr r"
proof -
  obtain ctx where ctx: "tyck_new kosaraju vm = Inr ctx" "typeck ctx = Inr info"
    using assms(2) by (auto simp: checked_def)
  then obtain es where sccs: "tc_scc_post_order ctx = kosaraju (length (s_graphs (vm_script vm))) es" "tc_vm ctx = vm"
    by (auto simp: tyck_new_def)
  have "i \<in> set (concat (tc_scc_post_order ctx))" unfolding sccs using assms(1,3) by (simp only: covers_nodes_def) simp
  then obtain scc where scc: "scc \<in> set (rev (tc_scc_post_order ctx))" "i \<in> set scc" by auto
  from ctx(2) obtain st0 st where "foldR (typeck_scc vm) st0 (rev (tc_scc_post_order ctx)) = Inr st"
    unfolding typeck_def sccs(2) by auto
  from foldR_each [OF this scc(1)] scc(2) show ?thesis using typeck_scc_each by (metis prod.exhaust)
qed

lemma checked_forward:
  assumes "covers_nodes kosaraju" "checked kosaraju vm info" "i < length (s_graphs (vm_script vm))"
  shows "forward_graph (s_graphs (vm_script vm) ! i)"
  using checked_graph [OF assms] typeck_graph_Inr(2) by (metis prod.exhaust)

lemma fire_rules_any:
  assumes "forward_graph g" "generate_fire_rules g = (Inr rules :: ('e, _) outcome)"
  shows "generate_fire_rules g = (Inr rules :: ('f, _) outcome)"
proof -
  obtain rules' where r: "generate_fire_rules g = (Inr rules' :: ('f, _) outcome)"
    using generate_fire_rules_total [OF assms(1)] by blast
  have "rules' = rules"
    using fire_rules [OF r] fire_rules [OF assms(2)] by (simp add: list_eq_iff_nth_eq)
  then show ?thesis using r by simp
qed

lemma executor_new_ready:
  assumes "\<And>i. i < length (s_graphs (vm_script vm)) \<Longrightarrow> forward_graph (s_graphs (vm_script vm) ! i)"
  shows "\<exists>ex. executor_new vm kv info = Inr ex \<and> executor_ready ex \<and> ex_kv ex = kv \<and> ex_vm ex = vm \<and> ex_type_info ex = info"
proof -
  have "\<exists>rules. generate_fire_rules g = (Inr rules :: ('a exec_error, _) outcome)" if "g \<in> set (s_graphs (vm_script vm))" for g
    using that assms by (metis generate_fire_rules_total in_set_conv_nth)
  then obtain tables where tables: "mapR generate_fire_rules (s_graphs (vm_script vm)) = (Inr tables :: ('a exec_error, _) outcome)"
    using mapR_total [of "s_graphs (vm_script vm)" generate_fire_rules] by blast
  then have each: "list_all2 (\<lambda>g rules. generate_fire_rules g = (Inr rules :: ('a exec_error, _) outcome)) (s_graphs (vm_script vm)) tables"
    by (simp add: mapR_Inr_iff)
  have "generate_fire_rules (s_graphs (vm_script vm) ! i) = (Inr (tables ! i) :: (unit, _) outcome)" if i: "i < length tables" for i
  proof -
    have gi: "i < length (s_graphs (vm_script vm))" using i list_all2_lengthD [OF each] by simp
    show ?thesis by (rule fire_rules_any [OF assms [OF gi] list_all2_nthD [OF each gi]])
  qed
  then show ?thesis using tables each assms
    by (simp add: executor_new_def executor_ready_def list_all2_lengthD [OF each])
qed


section \<open>A script\<close>

text \<open>
  The first graph stores the constant 7 in the field \<open>v\<close> of the export \<open>l\<close> and returns what the second
  graph makes of it, the sum of its argument and 7.
\<close>

definition sample_script :: tw_script where
  "sample_script = \<lparr>
     s_graphs = [
       \<lparr>g_name = ''main'', g_exported = True,
        g_nodes = [(LoadParam 0, [], None), (GetField 0, [0], None), (LoadConst 0, [], None),
          (InsertIntoTable 1, [2, 1], None), (Call 1, [2], Some 3)],
        g_output = Some 4, g_param_types = [0], g_output_type = Some 1\<rparr>,
       \<lparr>g_name = ''plus'', g_exported = False,
        g_nodes = [(LoadParam 0, [], None), (LoadConst 0, [], None), (Add, [0, 1], None)],
        g_output = Some 2, g_param_types = [1], g_output_type = Some 1\<rparr>],
     s_entry = 0, s_consts = [CPrimitive (PInt64 7)], s_idents = [''l'', ''v''],
     s_types = [TSchema, TPrimitive Int64T]\<rparr>"

definition sample_vm :: tw_vm where
  "sample_vm = \<lparr>vm_schema = list_compiled, vm_storage_plan = list_plan, vm_script = sample_script,
     vm_consts = [VPrimitive (PInt64 7)], vm_types = [TSchema, TPrimitive Int64T], vm_exported = [(''main'', 0)]\<rparr>"

definition sample_info :: global_type_info where
  "sample_info = [
     \<lparr>gti_params = [TMap [(''l'', TTable ''L<>'')]],
      gti_nodes = [Some (TMap [(''l'', TTable ''L<>'')]), Some (TTable ''L<>''), Some (TPrimitive Int64T), None, Some (TPrimitive Int64T)]\<rparr>,
     \<lparr>gti_params = [TPrimitive Int64T],
      gti_nodes = [Some (TPrimitive Int64T), Some (TPrimitive Int64T), Some (TPrimitive Int64T)]\<rparr>]"

definition single_components :: "nat \<Rightarrow> (nat \<times> nat) list \<Rightarrow> nat list list" where
  "single_components n es = map (\<lambda>i. [i]) (rev [0..<n])"

lemma sample_vm_new: "tw_vm_new sample_externs list_compiled list_plan sample_script = Inr sample_vm"
  by (simp add: tw_vm_new_def sample_script_def sample_vm_def exported_graph_name_index_def)

lemma single_components_cover: "covers_nodes single_components"
  by (auto simp: covers_nodes_def single_components_def)

lemma sample_checked: "checked single_components sample_vm sample_info"
  by code_simp


end
