(* ===== verification/Exec_Schedule.thy ===== *)
theory Exec_Schedule
  imports Exec_Runs
begin

text \<open>
  The data-flow scheduler against a reference evaluator: whatever order the waiting nodes of a
  graph complete in, the graph returns what evaluating its nodes one after the other
  returns, and collects the same writes.
\<close>

section \<open>The log store\<close>

record log_store =
  ls_data :: "(bytes, bytes) btree"
  ls_log :: "kv_write list"

abbreviation at_log :: "(bytes, bytes) btree \<Rightarrow> kv_write list \<Rightarrow> log_store" where
  "at_log S l \<equiv> \<lparr>ls_data = S, ls_log = l\<rparr>"

definition log_kv :: "bool \<Rightarrow> ('e, log_store) kv_transaction" where
  "log_kv scans =
     \<lparr>kv_get = (\<lambda>t k. Inr (bt_get (ls_data t) k)),
      kv_put = (\<lambda>t k v. Inr (t\<lparr>ls_log := ls_log t @ [WPut k v]\<rparr>)),
      kv_delete = (\<lambda>t k. Inr (t\<lparr>ls_log := ls_log t @ [WDelete k]\<rparr>)),
      kv_delete_range = (\<lambda>t s e. Inr (t\<lparr>ls_log := ls_log t @ [WDeleteRange s e]\<rparr>)),
      kv_scan_keys = (\<lambda>t s e. if scans then Inr (map fst (bt_range s e (ls_data t)))
        else Inl (Panic ''scan of a store without snapshot scans''))\<rparr>"

interpretation log: kv_core "log_kv scans :: ('e, log_store) kv_transaction"
  "\<lambda>t. bt_get (ls_data t)" "\<lambda>t. fold apply_write (ls_log t) (bt_get (ls_data t))" "\<lambda>_. True" for scans
  by unfold_locales (auto simp: log_kv_def fun_eq_iff)

lemma log_writes: "run_writes (log_kv scans :: ('e, log_store) kv_transaction) (at_log S l) ws = Inr (at_log S (l @ ws))"
proof (induction ws arbitrary: l)
  case (Cons w ws)
  have "run_write (log_kv scans :: ('e, log_store) kv_transaction) (at_log S l) w = Inr (at_log S (l @ [w]))" by (cases w) (simp_all add: log_kv_def)
  then show ?case using Cons by simp
qed simp

lemma bt_range_keys:
  "bt_ok m \<Longrightarrow> sorted_wrt (<) (map fst (bt_range a b m))"
  "set (map fst (bt_range a b m)) = {k. a \<le> k \<and> k < b \<and> bt_get m k \<noteq> None}"
proof -
  show "bt_ok m \<Longrightarrow> sorted_wrt (<) (map fst (bt_range a b m))"
    by (simp add: bt_range_def bt_ok_def sorted_wrt_map sorted_wrt_filter)
  have "set (map fst (bt_range a b m)) = {k \<in> fst ` set m. a \<le> k \<and> k < b}" by (auto simp: bt_range_def)
  then show "set (map fst (bt_range a b m)) = {k. a \<le> k \<and> k < b \<and> bt_get m k \<noteq> None}"
    by (auto simp: map_of_eq_None_iff)
qed

text \<open>Stores whose scans see the snapshot, if they are used at all.\<close>

locale kv_snapshot = kv_provider kv snap pending seen ok
  for kv :: "('e, 't) kv_transaction" and snap pending seen :: "'t \<Rightarrow> kv_view" and ok :: "'t \<Rightarrow> bool" +
  fixes scans :: bool
  assumes scans_law: "scans \<Longrightarrow> ok t \<Longrightarrow> seen t = snap t"

context kv_snapshot
begin

text \<open>
  An outcome of the store follows an outcome of the log store: whenever the latter has a result, the former has
  the same, its snapshot is the same and its pending view comes from the logged writes
  in some order.
\<close>

definition follows :: "(bytes, bytes) btree \<Rightarrow> 't \<Rightarrow> kv_write list \<Rightarrow> ('e exec_error, 'a \<times> 't) outcome \<Rightarrow>
    ('e exec_error, 'a \<times> log_store) outcome \<Rightarrow> bool" where
  "follows S t l r r' \<longleftrightarrow> (\<forall>v st. r' = Inr (v, st) \<longrightarrow> (\<exists>t' ws ws'. st = at_log S (l @ ws) \<and> r = Inr (v, t') \<and>
     ok t' \<and> snap t' = bt_get S \<and> mset ws' = mset ws \<and> pending t' = fold apply_write ws' (pending t)))"

lemma follows_fail [simp]: "follows S t l r (Inl e)"
  by (simp add: follows_def)

lemma follows_return: "ok t \<Longrightarrow> snap t = bt_get S \<Longrightarrow> follows S t l (Inr (v, t)) (Inr (v, at_log S l))"
  unfolding follows_def by (auto intro!: exI [of _ "[]"])

lemma follows_pure: "(\<And>x. c = Inr x \<Longrightarrow> follows S t l (k x) (k' x)) \<Longrightarrow> follows S t l (bindR c k) (bindR c k')"
  by (cases c) simp_all

lemma follows_bind:
  assumes "follows S t l r r'"
    and "\<And>v t' l'. ok t' \<Longrightarrow> snap t' = bt_get S \<Longrightarrow> follows S t' l' (k (v, t')) (k' (v, at_log S l'))"
  shows "follows S t l (bindR r k) (bindR r' k')"
  unfolding follows_def
proof (intro allI impI)
  fix v st assume "bindR r' k' = Inr (v, st)"
  then obtain u st1 where 1: "r' = Inr (u, st1)" "k' (u, st1) = Inr (v, st)" by auto
  then obtain t1 ws ws' where 2: "st1 = at_log S (l @ ws)" "r = Inr (u, t1)" "ok t1" "snap t1 = bt_get S" "mset ws' = mset ws"
    "pending t1 = fold apply_write ws' (pending t)" using assms(1) unfolding follows_def by blast
  from assms(2) [OF 2(3,4), of "l @ ws" u] 1(2) 2(1) obtain t2 vs vs' where 3: "st = at_log S ((l @ ws) @ vs)" "k (u, t1) = Inr (v, t2)"
    "ok t2" "snap t2 = bt_get S" "mset vs' = mset vs" "pending t2 = fold apply_write vs' (pending t1)"
    unfolding follows_def by blast
  show "\<exists>t' ws ws'. st = at_log S (l @ ws) \<and> bindR r k = Inr (v, t') \<and> ok t' \<and> snap t' = bt_get S \<and> mset ws' = mset ws \<and>
      pending t' = fold apply_write ws' (pending t)"
    using 2 3 by (intro exI [of _ t2] exI [of _ "ws @ vs"] exI [of _ "ws' @ vs'"]) simp
qed

lemma follows_writes:
  assumes "ok t" "snap t = bt_get S"
  shows "follows S t l (bindR (bindR c (\<lambda>ws. lift_kv (run_writes kv t ws))) (\<lambda>t'. Inr (v, t')))
    (bindR (bindR c (\<lambda>ws. lift_kv (run_writes (log_kv scans) (at_log S l) ws))) (\<lambda>t'. Inr (v, t')))"
  unfolding bindR_assoc
proof (rule follows_pure)
  fix ws assume "c = Inr ws"
  obtain t' where "run_writes kv t ws = Inr t'" "ok t'" "snap t' = snap t" "pending t' = fold apply_write ws (pending t)"
    by (rule writesE [OF assms(1)])
  then show "follows S t l (bindR (lift_kv (run_writes kv t ws)) (\<lambda>t'. Inr (v, t')))
      (bindR (lift_kv (run_writes (log_kv scans) (at_log S l) ws)) (\<lambda>t'. Inr (v, t')))"
    using assms by (auto simp: follows_def log_writes)
qed

lemma read_follows:
  assumes "ok t" "snap t = bt_get S"
  shows "read_table_element E sch kv t table key = read_table_element E sch (log_kv scans) (at_log S l) table key"
proof -
  have g: "lift_kv (kv_get kv t k) = lift_kv (kv_get (log_kv scans) (at_log S l) k)" for k
    using assms by (simp add: get_law log_kv_def)
  show ?thesis unfolding read_table_element_def g ..
qed

lemma present_follows:
  assumes "ok t" "snap t = bt_get S"
  shows "is_present kv t v = is_present (log_kv scans) (at_log S l) v"
proof -
  have g: "lift_kv (kv_get kv t k) = lift_kv (kv_get (log_kv scans) (at_log S l) k)" for k
    using assms by (simp add: get_law log_kv_def)
  show ?thesis unfolding is_present_def g ..
qed

lemma scan_follows:
  assumes "ok t" "snap t = bt_get S" "bt_ok S"
  shows "lift_kv (kv_scan_keys (log_kv scans) (at_log S l) a b) = Inr ks \<Longrightarrow> lift_kv (kv_scan_keys kv t a b) = Inr ks"
proof -
  assume ks: "lift_kv (kv_scan_keys (log_kv scans) (at_log S l) a b) = Inr ks"
  then have s: scans and ks': "ks = map fst (bt_range a b S)" by (auto simp: log_kv_def split: if_splits)
  obtain ks'' where "kv_scan_keys kv t a b = Inr ks''" "sorted_wrt (<) ks''" "set ks'' = {k. a \<le> k \<and> k < b \<and> bt_get S k \<noteq> None}"
    using scan_law [OF assms(1), of a b] scans_law [OF s assms(1)] assms(2) by auto
  moreover have "sorted_wrt (<) ks" "set ks = {k. a \<le> k \<and> k < b \<and> bt_get S k \<noteq> None}"
    unfolding ks' by (rule bt_range_keys(1) [OF assms(3)]) (rule bt_range_keys(2))
  ultimately have "ks'' = ks" by (intro strict_sorted_equal) simp_all
  then show ?thesis using \<open>kv_scan_keys kv t a b = Inr ks''\<close> by simp
qed

lemma insert_follows:
  assumes "ok t" "snap t = bt_get S"
  shows "follows S t l (bindR (walk_and_insert E kv t w x) (\<lambda>t'. Inr (v, t')))
    (bindR (walk_and_insert E (log_kv scans) (at_log S l) w x) (\<lambda>t'. Inr (v, t')))"
  unfolding walk_and_insert_runs [OF assms(1)] log.walk_and_insert_runs [OF TrueI] by (rule follows_writes [OF assms])

lemma insert_set_follows:
  assumes "ok t" "snap t = bt_get S"
  shows "follows S t l (bindR (insert_into_set E vm kv t x s) (\<lambda>t'. Inr (v, t')))
    (bindR (insert_into_set E vm (log_kv scans) (at_log S l) x s) (\<lambda>t'. Inr (v, t')))"
proof -
  have put: "follows S t l (bindR (lift_kv (kv_put kv t k y)) (\<lambda>t'. Inr ((), t'))) (bindR (lift_kv (kv_put (log_kv scans) (at_log S l) k y)) (\<lambda>t'. Inr ((), t')))" for k y
    using follows_writes [OF assms, of l "Inr [WPut k y]"] by (simp add: lift_kv_bindR bindR_assoc)
  have step: "follows S t l (bindR (lift_kv (kv_put kv t k y)) f) (bindR (lift_kv (kv_put (log_kv scans) (at_log S l) k y)) f')"
    if "\<And>t l. ok t \<Longrightarrow> snap t = bt_get S \<Longrightarrow> follows S t l (f t) (f' (at_log S l))" for k y and f :: "'t \<Rightarrow> ('e exec_error, 'a \<times> 't) outcome" and f'
    using follows_bind [OF put, where k = "\<lambda>(_, t). f t" and k' = "\<lambda>(_, t). f' t"] that by (simp add: bindR_assoc)
  show ?thesis
    unfolding insert_into_set_def Let_def read_follows [OF assms, of E "vm_schema vm" _ _ l] bindR_assoc case_prod_beta
    by (intro follows_pure step insert_follows)
qed

lemma insert_table_follows:
  assumes "ok t" "snap t = bt_get S"
  shows "follows S t l (bindR (insert_into_table E kv t k x s) (\<lambda>t'. Inr (v, t')))
    (bindR (insert_into_table E (log_kv scans) (at_log S l) k x s) (\<lambda>t'. Inr (v, t')))"
  unfolding insert_into_table_def bindR_assoc by (intro follows_pure insert_follows assms)

lemma delete_follows:
  assumes "ok t" "snap t = bt_get S"
  shows "follows S t l (bindR (delete_from_set E kv t k s) (\<lambda>t'. Inr (v, t')))
    (bindR (delete_from_set E (log_kv scans) (at_log S l) k s) (\<lambda>t'. Inr (v, t')))"
proof -
  have "follows S t l (bindR (bindR (lift_kv (kv_delete kv t a)) (\<lambda>t1. lift_kv (kv_delete_range kv t1 b c))) (\<lambda>t'. Inr (v, t')))
     (bindR (bindR (lift_kv (kv_delete (log_kv scans) (at_log S l) a)) (\<lambda>t1. lift_kv (kv_delete_range (log_kv scans) t1 b c))) (\<lambda>t'. Inr (v, t')))" for a b c
    using follows_writes [OF assms, of l "Inr [WDelete a, WDeleteRange b c]" v] by (simp add: lift_kv_bindR)
  then show ?thesis
    unfolding delete_from_set_def delete_entry_from_set_def Let_def bindR_assoc case_prod_beta by (intro follows_pure) simp
qed

lemma reduce_follows:
  assumes "\<And>ps t l. ok t \<Longrightarrow> snap t = bt_get S \<Longrightarrow> follows S t l (call ps t) (call' ps (at_log S l))"
  shows "ok t \<Longrightarrow> snap t = bt_get S \<Longrightarrow>
    follows S t l (reduce_loop call elem p a ks t) (reduce_loop call' elem p a ks (at_log S l))"
proof (induction ks arbitrary: a t l)
  case (Cons k ks)
  show ?case unfolding reduce_loop.simps
  proof (rule follows_pure, rule follows_bind [OF assms [OF Cons.prems]])
    fix v t' l' assume "ok t'" "snap t' = bt_get S"
    then show "follows S t' l' (case (v, t') of (output, t') \<Rightarrow> bindR (unwrap ''inconsistency: ReduceList did not get an output from subgraph'' output)
          (\<lambda>v. if is_null v then Inr (a, t') else reduce_loop call elem p v ks t'))
        (case (v, at_log S l') of (output, t') \<Rightarrow> bindR (unwrap ''inconsistency: ReduceList did not get an output from subgraph'' output)
          (\<lambda>v. if is_null v then Inr (a, t') else reduce_loop call' elem p v ks t'))"
      using Cons.IH by (auto intro!: follows_pure follows_return)
  qed
qed (simp add: follows_return)

end

context kv_snapshot
begin

lemma follows_scan:
  assumes "ok t" "snap t = bt_get S" "bt_ok S" "\<And>ks. follows S t l (k ks) (k' ks)"
  shows "follows S t l (bindR (lift_kv (kv_scan_keys kv t a b)) k) (bindR (lift_kv (kv_scan_keys (log_kv scans) (at_log S l) a b)) k')"
proof (cases "lift_kv (kv_scan_keys (log_kv scans) (at_log S l) a b) :: ('e exec_error, _) outcome")
  case (Inr ks)
  then show ?thesis using scan_follows [OF assms(1-3) Inr] assms(4) by simp
qed simp

lemma run_reduce_follows:
  assumes call: "\<And>ps t l. ok t \<Longrightarrow> snap t = bt_get S \<Longrightarrow> follows S t l (call ps t) (call' ps (at_log S l))"
    and t: "ok t" "snap t = bt_get S" and S: "bt_ok S"
  shows "follows S t l (run_reduce E vm kv call b ps t ty) (run_reduce E vm (log_kv scans) call' b ps (at_log S l) ty)"
proof -
  have fin: "follows S t l r r' \<Longrightarrow> follows S t l (bindR r (\<lambda>(v, t'). Inr (Some v, t'))) (bindR r' (\<lambda>(v, t'). Inr (Some v, t')))"
    for r :: "('e exec_error, vm_value \<times> 't) outcome" and r'
    by (erule follows_bind) (simp add: follows_return)
  note loop = reduce_follows [where call = call and call' = call', OF call t]
  show ?thesis unfolding run_reduce_def
    by (intro follows_pure) (auto simp: follows_return t case_prod_beta split: vm_value.split
      intro!: fin loop follows_scan [OF t S] follows_pure)
qed

lemma run_node_follows:
  assumes call: "\<And>i ps t l. ok t \<Longrightarrow> snap t = bt_get S \<Longrightarrow> follows S t l (call i ps t) (call' i ps (at_log S l))"
    and t: "ok t" "snap t = bt_get S" and S: "bt_ok S"
  shows "follows S t l (run_node E vm kv call n ps t gps ty) (run_node E vm (log_kv scans) call' n ps (at_log S l) gps ty)"
proof (cases "is_optional_chained n \<and> (\<exists>x \<in> set ps. is_null x)")
  case True
  then show ?thesis using t by (simp add: run_node_def follows_return)
next
  case False
  show ?thesis
  proof (cases n)
    case (GetField i)
    with False show ?thesis
      by (auto simp: run_node_def Let_def read_follows [OF t, of E "vm_schema vm" _ _ l] split: vm_value.split intro!: follows_pure follows_return t)
  next
    case (Reduce i b)
    with False show ?thesis by (simp add: run_node_def run_reduce_follows call t S)
  next
    case (Call i)
    with False show ?thesis by (simp add: run_node_def call t)
  qed (insert False, auto simp: run_node_def Let_def case_prod_beta present_follows [OF t, of _ l]
      intro!: follows_pure follows_return insert_set_follows insert_table_follows delete_follows t)
qed

end

section \<open>The reference evaluator\<close>

text \<open>
  A graph evaluated without a scheduler: its nodes one after the other in the order of the script. The value of a node is
  \<open>None\<close> if it is skipped, \<open>Some None\<close> if it ran for its effect, and \<open>Some (Some v)\<close> if it has a value.
\<close>

type_synonym node_values = "vm_value option option list"

definition value_at :: "node_values \<Rightarrow> nat \<Rightarrow> vm_value option option" where
  "value_at vals j = (if j < length vals then vals ! j else None)"

definition eval_ready :: "node_values \<Rightarrow> nat option \<Rightarrow> ('e, bool) outcome" where
  "eval_ready vals pre =
     (case pre of
        None \<Rightarrow> Inr True
      | Some j \<Rightarrow> (case value_at vals j of None \<Rightarrow> Inr False | Some r \<Rightarrow> precondition_value r))"

definition candidates :: "node_values \<Rightarrow> nat list \<Rightarrow> vm_value list" where
  "candidates vals ins = List.map_filter (\<lambda>j. Option.bind (value_at vals j) id) ins"

definition arguments :: "node_values \<Rightarrow> nat list \<Rightarrow> vm_value list" where
  "arguments vals ins = map (\<lambda>j. the (the (value_at vals j))) ins"

definition eval_node ::
  "(tw_graph_node \<Rightarrow> vm_value list \<Rightarrow> 't \<Rightarrow> vm_type option \<Rightarrow> ('e exec_error, vm_value option \<times> 't) outcome) \<Rightarrow>
   vm_type option list \<Rightarrow> node_values \<times> 't \<Rightarrow> tw_graph_node \<times> nat list \<times> nat option \<Rightarrow>
   ('e exec_error, node_values \<times> 't) outcome" where
  "eval_node run types st node =
     (case (st, node) of ((vals, t), (n, ins, pre)) \<Rightarrow>
      if \<exists>j \<in> set ins. value_at vals j = Some None
      then Inl (Panic ''run_graph: node is a parameter dependency but does not produce a value'')
      else bindR (eval_ready vals pre) (\<lambda>ready.
        if \<not> ready then Inr (vals @ [None], t)
        else if is_select n then
          (case candidates vals ins of
             [] \<Rightarrow> Inr (vals @ [None], t)
           | [x] \<Rightarrow> Inr (vals @ [Some (Some x)], t)
           | _ \<Rightarrow> Inl (Err BothSelectCandidatesFired))
        else if \<exists>j \<in> set ins. value_at vals j = None then Inr (vals @ [None], t)
        else bindR (index_or_panic types (length vals)) (\<lambda>ty.
             bindR (run n (arguments vals ins) t ty) (\<lambda>(r, t'). Inr (vals @ [Some r], t')))))"

definition output_of :: "tw_graph \<Rightarrow> node_values \<Rightarrow> vm_value option" where
  "output_of g vals = Option.bind (g_output g) (\<lambda>i. Option.bind (value_at vals i) id)"

definition eval_body ::
  "externs \<Rightarrow> ('e, 't) executor \<Rightarrow> (nat \<Rightarrow> vm_value list \<Rightarrow> 't \<Rightarrow> ('e exec_error, vm_value option \<times> 't) outcome) \<Rightarrow>
   nat \<Rightarrow> vm_value list \<Rightarrow> 't \<Rightarrow> ('e exec_error, vm_value option \<times> 't) outcome" where
  "eval_body E ex call graph_index graph_params t =
     bindR (index_or_panic (s_graphs (vm_script (ex_vm ex))) graph_index) (\<lambda>g.
     bindR (index_or_panic (ex_type_info ex) graph_index) (\<lambda>info.
     bindR (foldR (eval_node (\<lambda>n params t ty. run_node E (ex_vm ex) (ex_kv ex) call n params t graph_params ty) (gti_nodes info))
       ([], t) (g_nodes g)) (\<lambda>(vals, t').
     Inr (output_of g vals, t'))))"

primrec eval_graph ::
  "externs \<Rightarrow> ('e, 't) executor \<Rightarrow> nat \<Rightarrow> nat \<Rightarrow> vm_value list \<Rightarrow> 't \<Rightarrow> ('e exec_error, vm_value option \<times> 't) outcome" where
  "eval_graph E ex 0 = (\<lambda>graph_index graph_params t. Inl (Err (MaxRecursionDepthExceeded MAX_RECURSION_DEPTH)))"
| "eval_graph E ex (Suc left) = (\<lambda>graph_index graph_params t.
     eval_body E ex (eval_graph E ex left) graph_index graph_params t)"

text \<open>Graphs in which no node uses the same source twice, and every \<open>Select\<close> has candidates.\<close>

definition single_uses :: "tw_graph \<Rightarrow> bool" where
  "single_uses g \<longleftrightarrow> (\<forall>n \<in> set (g_nodes g). distinct (sources n) \<and> (is_select (fst n) \<longrightarrow> fst (snd n) \<noteq> []))"

section \<open>What the reference computes\<close>

text \<open>The values \<open>V\<close> and the writes \<open>W\<close> of a node agree with its sources.\<close>

inductive evaluates ::
  "(tw_graph_node \<Rightarrow> vm_value list \<Rightarrow> log_store \<Rightarrow> vm_type option \<Rightarrow> ('e exec_error, vm_value option \<times> log_store) outcome) \<Rightarrow>
   vm_type option list \<Rightarrow> (bytes, bytes) btree \<Rightarrow> node_values \<Rightarrow> nat \<Rightarrow> kv_write list \<Rightarrow> tw_graph_node \<times> nat list \<times> nat option \<Rightarrow> bool"
  for run types S V i where
  not_ready: "\<forall>j \<in> set ins. value_at V j \<noteq> Some None \<Longrightarrow> eval_ready V pre = (Inr False :: (unit, _) outcome) \<Longrightarrow>
    value_at V i = None \<Longrightarrow> evaluates run types S V i [] (n, ins, pre)"
| no_candidate: "\<forall>j \<in> set ins. value_at V j \<noteq> Some None \<Longrightarrow> eval_ready V pre = (Inr True :: (unit, _) outcome) \<Longrightarrow> is_select n \<Longrightarrow>
    candidates V ins = [] \<Longrightarrow> value_at V i = None \<Longrightarrow> evaluates run types S V i [] (n, ins, pre)"
| candidate: "\<forall>j \<in> set ins. value_at V j \<noteq> Some None \<Longrightarrow> eval_ready V pre = (Inr True :: (unit, _) outcome) \<Longrightarrow> is_select n \<Longrightarrow>
    candidates V ins = [x] \<Longrightarrow> value_at V i = Some (Some x) \<Longrightarrow> evaluates run types S V i [] (n, ins, pre)"
| no_argument: "\<forall>j \<in> set ins. value_at V j \<noteq> Some None \<Longrightarrow> eval_ready V pre = (Inr True :: (unit, _) outcome) \<Longrightarrow> \<not> is_select n \<Longrightarrow>
    j \<in> set ins \<Longrightarrow> value_at V j = None \<Longrightarrow> value_at V i = None \<Longrightarrow> evaluates run types S V i [] (n, ins, pre)"
| ran: "\<forall>j \<in> set ins. value_at V j \<noteq> Some None \<Longrightarrow> eval_ready V pre = (Inr True :: (unit, _) outcome) \<Longrightarrow> \<not> is_select n \<Longrightarrow>
    \<forall>j \<in> set ins. value_at V j \<noteq> None \<Longrightarrow> i < length types \<Longrightarrow>
    run n (arguments V ins) (at_log S l) (types ! i) = Inr (r, at_log S (l @ ws)) \<Longrightarrow> value_at V i = Some r \<Longrightarrow>
    evaluates run types S V i ws (n, ins, pre)"

lemma value_at_append: "j < length V \<Longrightarrow> value_at (V @ V') j = value_at V j"
  by (simp add: value_at_def nth_append)

lemma evaluates_cong:
  assumes "evaluates run types S V i ws node" "value_at V' i = value_at V i" "\<And>j. j \<in> set (sources node) \<Longrightarrow> value_at V' j = value_at V j"
  shows "evaluates run types S V' i ws node"
proof -
  obtain n ins pre where n: "node = (n, ins, pre)" by (cases node)
  have v: "value_at V' j = value_at V j" if "j \<in> set ins" for j
    using that assms(3) by (simp add: n sources_def)
  have c: "candidates V' ins = candidates V ins" "arguments V' ins = arguments V ins"
    using v by (auto simp: candidates_def arguments_def List.map_filter_def cong: filter_cong)
  have r: "eval_ready V' pre = (eval_ready V pre :: (unit, bool) outcome)"
    using assms(3) by (auto simp: eval_ready_def n sources_def split: option.split)
  from assms(1) show ?thesis
  proof cases
    case (no_argument ins' pre' n' j)
    then show ?thesis using v assms(2) r n by (auto intro: evaluates.no_argument [where j = j])
  qed (use v c r assms(2) n in \<open>auto intro: evaluates.intros\<close>)
qed

lemma precondition_value_any: "precondition_value r = (Inr b :: ('e, _) outcome) \<Longrightarrow> precondition_value r = (Inr b :: ('f, _) outcome)"
  by (cases r rule: precondition_value.cases) auto

lemma eval_ready_any: "eval_ready V pre = (Inr b :: ('e, _) outcome) \<Longrightarrow> eval_ready V pre = (Inr b :: ('f, _) outcome)"
  by (auto simp: eval_ready_def split: option.splits intro: precondition_value_any)

definition appends ::
  "(tw_graph_node \<Rightarrow> vm_value list \<Rightarrow> log_store \<Rightarrow> vm_type option \<Rightarrow> ('e exec_error, vm_value option \<times> log_store) outcome) \<Rightarrow>
   (bytes, bytes) btree \<Rightarrow> bool" where
  "appends run S \<longleftrightarrow> (\<forall>n ps l ty r st. run n ps (at_log S l) ty = Inr (r, st) \<longrightarrow> (\<exists>ws. st = at_log S (l @ ws)))"

lemma eval_node_Inr:
  assumes "eval_node run types (vals, at_log S l) node = (Inr (vals', st) :: ('e exec_error, _) outcome)"
    and app: "appends run S"
    and src: "\<forall>j \<in> set (sources node). j < length vals"
  shows "\<exists>v ws. vals' = vals @ [v] \<and> st = at_log S (l @ ws) \<and> evaluates run types S vals' (length vals) ws node"
proof -
  obtain n ins pre where n: "node = (n, ins, pre)" by (cases node)
  have app1: "evaluates run types S (vals @ [v]) (length vals) ws node"
    if "evaluates run types S (vals @ [v]) (length vals) ws (n, ins, pre)" for v ws using that n by simp
  have same: "value_at (vals @ [v]) j = value_at vals j" if "j \<in> set ins" for j v
    using src that by (intro value_at_append) (simp add: n sources_def)
  have here: "value_at (vals @ [v]) (length vals) = v" for v by (simp add: value_at_def)
  have c: "candidates (vals @ [v]) ins = candidates vals ins" "arguments (vals @ [v]) ins = arguments vals ins" for v
    using same by (auto simp: candidates_def arguments_def List.map_filter_def cong: filter_cong)
  have r: "eval_ready (vals @ [v]) pre = (eval_ready vals pre :: (unit, bool) outcome)" for v
    using src by (auto simp: eval_ready_def n sources_def value_at_append split: option.split)
  let ?F = "\<lambda>b. if \<not> b then Inr (vals @ [None], at_log S l) else if is_select n then
          (case candidates vals ins of [] \<Rightarrow> Inr (vals @ [None], at_log S l) | [x] \<Rightarrow> Inr (vals @ [Some (Some x)], at_log S l)
           | _ \<Rightarrow> Inl (Err BothSelectCandidatesFired))
        else if \<exists>j \<in> set ins. value_at vals j = None then Inr (vals @ [None], at_log S l)
        else bindR (index_or_panic types (length vals)) (\<lambda>ty.
             bindR (run n (arguments vals ins) (at_log S l) ty) (\<lambda>(r, t'). Inr (vals @ [Some r], t')))"
  have args: "\<forall>j \<in> set ins. value_at vals j \<noteq> Some None"
    using assms(1) by (auto simp: eval_node_def n simp del: bindR_simps split: if_splits)
  then have "bindR (eval_ready vals pre) ?F = Inr (vals', st)" using assms(1) by (simp add: eval_node_def n)
  then obtain b where b: "eval_ready vals pre = (Inr b :: ('e exec_error, _) outcome)" and rest: "?F b = Inr (vals', st)"
    by (rule bindR_InrE)
  have b': "eval_ready (vals @ [v]) pre = (Inr b :: (unit, _) outcome)" for v unfolding r by (rule eval_ready_any [OF b])
  have args': "\<forall>j \<in> set ins. value_at (vals @ [v]) j \<noteq> Some None" for v using args same by simp
  consider "\<not> b" | "b" "is_select n" | j where "b" "\<not> is_select n" "j \<in> set ins" "value_at vals j = None"
    | "b" "\<not> is_select n" "\<forall>j \<in> set ins. value_at vals j \<noteq> None" by blast
  then show ?thesis
  proof cases
    case 1
    then have "evaluates run types S (vals @ [None]) (length vals) [] node" unfolding n
      by (intro evaluates.not_ready args') (use b' here in auto)
    then show ?thesis using rest 1 by auto
  next
    case 2
    then show ?thesis using rest b' args' here c unfolding n
      by (fastforce split: list.splits intro: evaluates.no_candidate evaluates.candidate)
  next
    case 3
    then have "evaluates run types S (vals @ [None]) (length vals) [] node" unfolding n
      by (intro evaluates.no_argument [where j = j] args') (use b' here same in auto)
    moreover have "vals' = vals @ [None]" "st = at_log S l" using rest 3 by (auto split: if_splits)
    ultimately show ?thesis by (intro exI [of _ None] exI [of _ "[]"]) simp
  next
    case 4
    then obtain r where r: "run n (arguments vals ins) (at_log S l) (types ! length vals) = Inr (r, st)"
      "length vals < length types" "vals' = vals @ [Some r]"
      using rest by (auto simp: index_or_panic_def split: if_splits)
    from app r(1) obtain ws where ws: "st = at_log S (l @ ws)" unfolding appends_def by blast
    have "evaluates run types S (vals @ [Some r]) (length vals) ws node" unfolding n
      by (rule evaluates.ran [where l = l and r = r, OF args']) (use b' here same r(1,2) c(2) ws 4 in auto)
    then show ?thesis using r(3) ws by blast
  qed
qed

lemma eval_nodes:
  assumes "foldR (eval_node run types) ([], at_log S l) ns = (Inr (V, st) :: ('e exec_error, _) outcome)"
    and app: "appends run S"
    and src: "\<forall>i < length ns. \<forall>j \<in> set (sources (ns ! i)). j < i"
  shows "\<exists>W. length V = length ns \<and> st = at_log S (l @ concat (map W [0..<length ns])) \<and>
    (\<forall>i < length ns. evaluates run types S V i (W i) (ns ! i))"
  using assms(1,3)
proof (induction ns arbitrary: V st rule: rev_induct)
  case (snoc n ns)
  from snoc.prems(1) obtain V0 st0 where 0: "foldR (eval_node run types) ([], at_log S l) ns = (Inr (V0, st0) :: ('e exec_error, _) outcome)"
    and last: "eval_node run types (V0, st0) n = (Inr (V, st) :: ('e exec_error, _) outcome)"
    by (auto simp: foldR_append)
  have src0: "\<forall>i < length ns. \<forall>j \<in> set (sources (ns ! i)). j < i"
  proof (intro allI impI)
    fix i assume "i < length ns"
    then show "\<forall>j \<in> set (sources (ns ! i)). j < i" using snoc.prems(2) [rule_format, of i] by (simp add: nth_append)
  qed
  obtain W where W: "length V0 = length ns" "st0 = at_log S (l @ concat (map W [0..<length ns]))"
    "\<forall>i < length ns. evaluates run types S V0 i (W i) (ns ! i)" using snoc.IH [OF 0 src0] by blast
  have "\<forall>j \<in> set (sources n). j < length V0" using snoc.prems(2) [rule_format, of "length ns"] W(1) by simp
  from eval_node_Inr [OF last [unfolded W(2)] app this] obtain v ws where
    n: "V = V0 @ [v]" "st = at_log S ((l @ concat (map W [0..<length ns])) @ ws)" "evaluates run types S V (length V0) ws n" by blast
  have old: "evaluates run types S V i (W i) (ns ! i)" if i: "i < length ns" for i
  proof (rule evaluates_cong [OF W(3) [rule_format, OF i]])
    show "value_at V i = value_at V0 i" using i W(1) n(1) by (simp add: value_at_append)
    fix j assume "j \<in> set (sources (ns ! i))"
    then have "j < i" using src0 i by blast
    then show "value_at V j = value_at V0 j" using i W(1) n(1) by (simp add: value_at_append)
  qed
  have "map (W(length ns := ws)) [0..<length ns] = map W [0..<length ns]" by simp
  then show ?case using n old W(1)
    by (intro exI [of _ "W(length ns := ws)"]) (auto simp: nth_append less_Suc_eq simp del: fun_upd_apply, auto)
qed simp

section \<open>The state of a run\<close>

text \<open>
  The state of the scheduler is a function of the set \<open>C\<close> of completed nodes and the reference values \<open>V\<close>: which nodes
  are ready or have been fired, and which dependencies they have collected.
\<close>

abbreviation kind_of :: "tw_graph \<Rightarrow> nat \<Rightarrow> tw_graph_node" where
  "kind_of g j \<equiv> fst (g_nodes g ! j)"

abbreviation ins_of :: "tw_graph \<Rightarrow> nat \<Rightarrow> nat list" where
  "ins_of g j \<equiv> fst (snd (g_nodes g ! j))"

abbreviation pre_of :: "tw_graph \<Rightarrow> nat \<Rightarrow> nat option" where
  "pre_of g j \<equiv> snd (snd (g_nodes g ! j))"

definition ready_at :: "tw_graph \<Rightarrow> node_values \<Rightarrow> nat set \<Rightarrow> nat \<Rightarrow> bool" where
  "ready_at g V C j \<longleftrightarrow>
     (case pre_of g j of None \<Rightarrow> True | Some p \<Rightarrow> p \<in> C \<and> eval_ready V (Some p) = (Inr True :: (unit, _) outcome))"

definition enabled :: "tw_graph \<Rightarrow> node_values \<Rightarrow> nat set \<Rightarrow> nat \<Rightarrow> bool" where
  "enabled g V C j \<longleftrightarrow> ready_at g V C j \<and>
     (if is_select (kind_of g j) then \<exists>i \<in> set (ins_of g j). i \<in> C else \<forall>i \<in> set (ins_of g j). i \<in> C)"

definition fired :: "tw_graph \<Rightarrow> node_values \<Rightarrow> nat set \<Rightarrow> nat set" where
  "fired g V C = {j. j < length (g_nodes g) \<and> enabled g V C j}"

definition dep_of :: "node_values \<Rightarrow> nat set \<Rightarrow> nat \<Rightarrow> vm_value option" where
  "dep_of V C i = (if i \<in> C then the (value_at V i) else None)"

definition deps_at :: "tw_graph \<Rightarrow> node_values \<Rightarrow> nat set \<Rightarrow> nat set \<Rightarrow> nat \<Rightarrow> vm_value option list" where
  "deps_at g V C D j = (if j \<in> D then [] else map (dep_of V C) (ins_of g j))"

definition future_at :: "tw_graph \<Rightarrow> node_values \<Rightarrow> nat \<Rightarrow> future" where
  "future_at g V j =
     (if is_select (kind_of g j) then SelectRun j (the (the (value_at V j))) else NodeRun j (arguments V (ins_of g j)))"

definition ran_set :: "node_values \<Rightarrow> nat set" where
  "ran_set V = {i. value_at V i \<noteq> None}"

definition agrees ::
  "(tw_graph_node \<Rightarrow> vm_value list \<Rightarrow> log_store \<Rightarrow> vm_type option \<Rightarrow> ('e exec_error, vm_value option \<times> log_store) outcome) \<Rightarrow>
   vm_type option list \<Rightarrow> (bytes, bytes) btree \<Rightarrow> tw_graph \<Rightarrow> node_values \<Rightarrow> (nat \<Rightarrow> kv_write list) \<Rightarrow> bool" where
  "agrees run types S g V W \<longleftrightarrow> forward_graph g \<and> single_uses g \<and> length V = length (g_nodes g) \<and>
     (\<forall>i < length (g_nodes g). evaluates run types S V i (W i) (g_nodes g ! i))"

lemma in_sources: "i \<in> set (sources (g_nodes g ! j)) \<longleftrightarrow> i \<in> set (ins_of g j) \<or> pre_of g j = Some i"
  by (cases "g_nodes g ! j") (auto simp: sources_def split: option.splits)

lemma agrees_evaluates:
  "agrees run types S g V W \<Longrightarrow> i < length (g_nodes g) \<Longrightarrow>
    evaluates run types S V i (W i) (kind_of g i, ins_of g i, pre_of g i)"
  by (simp add: agrees_def)

lemma agrees_uses:
  assumes "agrees run types S g V W" "i < length (g_nodes g)"
  shows "distinct (ins_of g i)" "pre_of g i = Some p \<Longrightarrow> p \<notin> set (ins_of g i)" "is_select (kind_of g i) \<Longrightarrow> ins_of g i \<noteq> []"
    "j \<in> set (ins_of g i) \<Longrightarrow> j < i" "pre_of g i = Some p \<Longrightarrow> p < i"
proof -
  have "distinct (sources (g_nodes g ! i))" "is_select (kind_of g i) \<longrightarrow> ins_of g i \<noteq> []" "\<forall>j \<in> set (sources (g_nodes g ! i)). j < i"
    using assms by (auto simp: agrees_def single_uses_def forward_graph_def)
  then show "distinct (ins_of g i)" "pre_of g i = Some p \<Longrightarrow> p \<notin> set (ins_of g i)" "is_select (kind_of g i) \<Longrightarrow> ins_of g i \<noteq> []"
    "j \<in> set (ins_of g i) \<Longrightarrow> j < i" "pre_of g i = Some p \<Longrightarrow> p < i"
    by (auto simp: sources_def split: prod.splits option.splits)
qed

lemma agrees_arg:
  assumes "agrees run types S g V W" "j < length (g_nodes g)" "i \<in> set (ins_of g j)" "i \<in> ran_set V"
  shows "\<exists>v. value_at V i = Some (Some v)"
proof -
  have "\<forall>j \<in> set (ins_of g j). value_at V j \<noteq> Some None" using agrees_evaluates [OF assms(1,2)] by cases simp_all
  then have "value_at V i \<noteq> Some None" using assms(3) by blast
  then show ?thesis using assms(4) by (cases "value_at V i"; cases "the (value_at V i)") (auto simp: ran_set_def)
qed

lemma candidates_single:
  assumes "candidates V ins = [x]" "distinct ins" "i \<in> set ins" "value_at V i = Some (Some a)" "j \<in> set ins" "value_at V j = Some (Some b)"
  shows "i = j" "x = a"
proof -
  let ?f = "\<lambda>j. Option.bind (value_at V j) id"
  from assms(1) obtain k where k: "List.filter (\<lambda>j. ?f j \<noteq> None) ins = [k]" "the (?f k) = x"
    by (auto simp: candidates_def List.map_filter_def)
  have "?f i = Some a" "?f j = Some b" using assms(4,6) by simp_all
  then have "i \<in> set (List.filter (\<lambda>j. ?f j \<noteq> None) ins)" "j \<in> set (List.filter (\<lambda>j. ?f j \<noteq> None) ins)"
    using assms(3,5) by simp_all
  then have "i = k" "j = k" unfolding k(1) by simp_all
  then show "i = j" "x = a" using k(2) \<open>?f i = Some a\<close> by simp_all
qed

lemma candidates_member: "i \<in> set ins \<Longrightarrow> value_at V i = Some (Some a) \<Longrightarrow> candidates V ins \<noteq> []"
  by (auto simp: candidates_def List.map_filter_def filter_empty_conv intro!: bexI [of _ i])

lemma ready_value:
  assumes "agrees run types S g V W" "j < length (g_nodes g)" "ready_at g V C j"
  shows "eval_ready V (pre_of g j) = (Inr True :: (unit, _) outcome)"
  using assms(3) by (cases "pre_of g j") (simp_all add: ready_at_def eval_ready_def)

lemma fired_ran:
  assumes A: "agrees run types S g V W" and C: "C \<subseteq> ran_set V" and j: "j \<in> fired g V C"
  shows "j \<in> ran_set V" "is_select (kind_of g j) \<Longrightarrow> \<exists>x. candidates V (ins_of g j) = [x] \<and> value_at V j = Some (Some x)"
    "\<not> is_select (kind_of g j) \<Longrightarrow> \<exists>l r ty. j < length types \<and> types ! j = ty \<and>
      run (kind_of g j) (arguments V (ins_of g j)) (at_log S l) ty = Inr (r, at_log S (l @ W j)) \<and> value_at V j = Some r"
proof -
  have n: "j < length (g_nodes g)" and e: "enabled g V C j" using j by (auto simp: fired_def)
  have r: "eval_ready V (pre_of g j) = (Inr True :: (unit, _) outcome)"
    by (rule ready_value [OF A n, of C]) (use e in \<open>simp add: enabled_def\<close>)
  have cand: "candidates V (ins_of g j) \<noteq> []" if "is_select (kind_of g j)"
    using e that C agrees_arg [OF A n] candidates_member unfolding enabled_def by (metis subsetD)
  have args: "value_at V i \<noteq> None" if "\<not> is_select (kind_of g j)" "i \<in> set (ins_of g j)" for i
    using e that C by (auto simp: enabled_def ran_set_def)
  from agrees_evaluates [OF A n] show "j \<in> ran_set V"
    by cases (use r cand args in \<open>auto simp: ran_set_def\<close>)
  from agrees_evaluates [OF A n] show "\<exists>x. candidates V (ins_of g j) = [x] \<and> value_at V j = Some (Some x)" if "is_select (kind_of g j)"
    by cases (use r cand that in auto)
  from agrees_evaluates [OF A n] show "\<exists>l r ty. j < length types \<and> types ! j = ty \<and>
      run (kind_of g j) (arguments V (ins_of g j)) (at_log S l) ty = Inr (r, at_log S (l @ W j)) \<and> value_at V j = Some r"
    if "\<not> is_select (kind_of g j)"
    by cases (use r args that in auto)
qed

lemma fired_mono:
  assumes "C \<subseteq> C'"
  shows "fired g V C \<subseteq> fired g V C'"
proof
  fix j assume "j \<in> fired g V C"
  then have "j < length (g_nodes g)" "ready_at g V C j" and e: "enabled g V C j" by (auto simp: fired_def enabled_def)
  moreover have "ready_at g V C' j" using \<open>ready_at g V C j\<close> assms by (auto simp: ready_at_def split: option.splits)
  ultimately show "j \<in> fired g V C'" using e assms by (cases "is_select (kind_of g j)") (auto simp: fired_def enabled_def)
qed

lemma target_unfired:
  assumes A: "agrees run types S g V W" and C: "C \<subseteq> ran_set V" and i: "i \<in> ran_set V" "i \<notin> C" and j: "i \<in> set (sources (g_nodes g ! j))"
  shows "j \<notin> fired g V C"
proof
  assume f: "j \<in> fired g V C"
  then have n: "j < length (g_nodes g)" and e: "enabled g V C j" by (auto simp: fired_def)
  from j consider "i \<in> set (ins_of g j)" | "pre_of g j = Some i" by (auto simp: in_sources)
  then show False
  proof cases
    case 1
    with e i(2) have s: "is_select (kind_of g j)" by (auto simp: enabled_def split: if_splits)
    with e obtain k where k: "k \<in> set (ins_of g j)" "k \<in> C" by (auto simp: enabled_def)
    obtain x where x: "candidates V (ins_of g j) = [x]" using fired_ran(2) [OF A C f s] by blast
    obtain a b where "value_at V i = Some (Some a)" "value_at V k = Some (Some b)"
      using agrees_arg [OF A n] 1 k i(1) C by blast
    then have "i = k" using candidates_single(1) [OF x agrees_uses(1) [OF A n]] 1 k(1) by blast
    then show False using k(2) i(2) by simp
  next
    case 2
    then show False using e i(2) by (simp add: enabled_def ready_at_def)
  qed
qed

section \<open>One completed node\<close>

lemma list_update_map_upt:
  "j < n \<Longrightarrow> (map f [0..<n])[j := x] = map (f(j := x)) [0..<n]"
  by (rule nth_equalityI) (auto simp: nth_list_update)

lemma dep_of_arg:
  assumes "agrees run types S g V W" "j < length (g_nodes g)" "i \<in> set (ins_of g j)" "C \<subseteq> ran_set V" "i \<in> C"
  shows "dep_of V C i = Some (the (the (value_at V i)))"
  using agrees_arg [OF assms(1-3) subsetD [OF assms(4,5)]] assms(5) by (auto simp: dep_of_def)

lemma rule_cases:
  assumes "generate_fire_rules g = Inr rules" "i < length (g_nodes g)" "item \<in> set (rules ! i)"
  obtains (param) pos where "fr_target item < length (g_nodes g)" "pos < length (ins_of g (fr_target item))"
      "ins_of g (fr_target item) ! pos = i" "fr_kind item = ParamDep pos" "i \<in> set (ins_of g (fr_target item))"
  | (pre) "fr_target item < length (g_nodes g)" "pre_of g (fr_target item) = Some i" "fr_kind item = Precondition"
proof -
  obtain n ins pre where n: "g_nodes g ! fr_target item = (n, ins, pre)" by (cases "g_nodes g ! fr_target item")
  have t: "fr_target item < length (g_nodes g)" and
    k: "(\<exists>pos < length ins. ins ! pos = i \<and> fr_kind item = ParamDep pos) \<or> pre = Some i \<and> fr_kind item = Precondition"
    using assms(3) unfolding in_fire_rules [OF assms(1,2)] n by simp_all
  from k show thesis
  proof
    assume "\<exists>pos < length ins. ins ! pos = i \<and> fr_kind item = ParamDep pos"
    then show thesis using that(1) t n nth_mem by auto
  next
    assume "pre = Some i \<and> fr_kind item = Precondition"
    then show thesis using that(2) t n by simp
  qed
qed

lemma record_step:
  assumes A: "agrees run types S g V W" and C: "C \<subseteq> ran_set V" and i: "value_at V i = Some r" "i \<notin> C" "i < length (g_nodes g)"
    and rules: "generate_fire_rules g = Inr rules" "item \<in> set (rules ! i)" and T: "fr_target item \<notin> T"
  shows "record_result r (map (\<lambda>j. deps_at g V (if j \<in> T then insert i C else C) (fired g V C) j) [0..<length (g_nodes g)],
      map (\<lambda>j. ready_at g V (if j \<in> T then insert i C else C) j) [0..<length (g_nodes g)]) item =
    (Inr (map (\<lambda>j. deps_at g V (if j \<in> insert (fr_target item) T then insert i C else C) (fired g V C) j) [0..<length (g_nodes g)],
      map (\<lambda>j. ready_at g V (if j \<in> insert (fr_target item) T then insert i C else C) j) [0..<length (g_nodes g)]) :: ('f, _) outcome)"
proof -
  let ?j = "fr_target item" and ?n = "length (g_nodes g)" and ?C = "insert i C" and ?D = "fired g V C"
  have upd: "map (\<lambda>j. f (if j \<in> insert ?j T then ?C else C) j) [0..<?n] = (map (\<lambda>j. f (if j \<in> T then ?C else C) j) [0..<?n])[?j := f ?C ?j]"
    if "?j < ?n" for f :: "nat set \<Rightarrow> nat \<Rightarrow> 'x"
    unfolding list_update_map_upt [OF that] by (rule map_cong) (auto simp: fun_upd_def)
  have keep: "(map (\<lambda>j. f (if j \<in> T then ?C else C) j) [0..<?n])[?j := f C ?j] = map (\<lambda>j. f (if j \<in> T then ?C else C) j) [0..<?n]"
    if "?j < ?n" for f :: "nat set \<Rightarrow> nat \<Rightarrow> 'x"
    unfolding list_update_map_upt [OF that] by (rule map_cong) (use T in \<open>auto simp: fun_upd_def\<close>)
  have ran: "i \<in> ran_set V" using i(1) by (simp add: ran_set_def)
  from rules(1) i(3) rules(2) show ?thesis
  proof (cases rule: rule_cases)
    case (param pos)
    have D: "?j \<notin> ?D" by (rule target_unfired [OF A C ran i(2)]) (use param in \<open>simp add: in_sources\<close>)
    obtain v where v: "r = Some v" using agrees_arg [OF A param(1,5) ran] i(1) by auto
    have d: "(map (dep_of V C) (ins_of g ?j))[pos := Some v] = map (dep_of V ?C) (ins_of g ?j)"
      using agrees_uses(1) [OF A param(1)] param(2,3) i(1) v
      by (auto intro!: nth_equalityI simp: nth_list_update dep_of_def nth_eq_iff_index_eq)
    have "pre_of g ?j \<noteq> Some i" using agrees_uses(2) [OF A param(1)] param(5) by blast
    then have p: "ready_at g V ?C ?j = ready_at g V C ?j" by (auto simp: ready_at_def split: option.splits)
    have dj: "deps_at g V ?C ?D ?j = (deps_at g V C ?D ?j)[pos := Some v]" using D d by (simp add: deps_at_def)
    show ?thesis unfolding upd [OF param(1), of "\<lambda>C. deps_at g V C ?D"] upd [OF param(1), of "ready_at g V"] p keep [OF param(1)] dj
      using param(1,2,4) D T v by (simp add: record_result_def index_or_panic_def nth_opt_def deps_at_def)
  next
    case pre
    have D: "?j \<notin> ?D" by (rule target_unfired [OF A C ran i(2)]) (use pre in \<open>simp add: in_sources\<close>)
    have "i \<notin> set (ins_of g ?j)" using agrees_uses(2) [OF A pre(1)] pre(2) by blast
    then have d: "deps_at g V ?C ?D ?j = deps_at g V C ?D ?j" by (auto simp: deps_at_def dep_of_def)
    obtain b where b: "eval_ready V (Some i) = (Inr b :: (unit, _) outcome)"
      using agrees_evaluates [OF A pre(1)] unfolding pre(2) by cases auto
    then have pv: "precondition_value r = (Inr b :: ('f, _) outcome)" using i(1) precondition_value_any by (fastforce simp: eval_ready_def)
    have p: "ready_at g V ?C ?j = b" using pre(2) b by (simp add: ready_at_def)
    show ?thesis unfolding upd [OF pre(1), of "\<lambda>C. deps_at g V C ?D"] upd [OF pre(1), of "ready_at g V"] d keep [OF pre(1), of "\<lambda>C. deps_at g V C ?D"] p
      using pre(1,3) pv by (simp add: record_result_def)
  qed
qed

lemma record_pass:
  assumes A: "agrees run types S g V W" and C: "C \<subseteq> ran_set V" and i: "value_at V i = Some r" "i \<notin> C" "i < length (g_nodes g)"
    and rules: "generate_fire_rules g = Inr rules"
  shows "set items \<subseteq> set (rules ! i) \<Longrightarrow> distinct (map fr_target items) \<Longrightarrow> T \<inter> fr_target ` set items = {} \<Longrightarrow>
    foldR (record_result r) (map (\<lambda>j. deps_at g V (if j \<in> T then insert i C else C) (fired g V C) j) [0..<length (g_nodes g)],
      map (\<lambda>j. ready_at g V (if j \<in> T then insert i C else C) j) [0..<length (g_nodes g)]) items =
    (Inr (map (\<lambda>j. deps_at g V (if j \<in> T \<union> fr_target ` set items then insert i C else C) (fired g V C) j) [0..<length (g_nodes g)],
      map (\<lambda>j. ready_at g V (if j \<in> T \<union> fr_target ` set items then insert i C else C) j) [0..<length (g_nodes g)]) :: ('f, _) outcome)"
proof (induction items arbitrary: T)
  case (Cons item items)
  have "fr_target item \<notin> T" "item \<in> set (rules ! i)" using Cons.prems by auto
  note step = record_step [OF A C i rules this(2,1)]
  have T: "insert (fr_target item) T \<inter> fr_target ` set items = {}" using Cons.prems by auto
  have "T \<union> fr_target ` set (item # items) = insert (fr_target item) T \<union> fr_target ` set items" by auto
  then show ?case using Cons.IH [OF _ _ T] Cons.prems(1,2) unfolding foldR.simps step by simp
qed simp

lemma find_map_deps:
  assumes A: "agrees run types S g V W" and j: "j < length (g_nodes g)" and C: "C \<subseteq> ran_set V" and x: "candidates V (ins_of g j) = [x]"
    and i: "i \<in> set (ins_of g j)" "i \<in> C"
  shows "find_map id (map (dep_of V C) (ins_of g j)) = Some x"
proof -
  have each: "dep_of V C k = None \<or> dep_of V C k = Some x" if k: "k \<in> set (ins_of g j)" for k
  proof (cases "k \<in> C")
    case True
    then obtain a where a: "value_at V k = Some (Some a)" using agrees_arg [OF A j k] C by blast
    then have "x = a" using candidates_single(2) [OF x agrees_uses(1) [OF A j] k a k a] by simp
    then show ?thesis using a True by (simp add: dep_of_def)
  qed (simp add: dep_of_def)
  have "dep_of V C i \<noteq> None" using dep_of_arg [OF A j i(1) C i(2)] by simp
  then have di: "dep_of V C i = Some x" using each [OF i(1)] by auto
  have "find_map id (map (dep_of V C) ys) = Some x" if "set ys \<subseteq> set (ins_of g j)" "i \<in> set ys" for ys
    using that
  proof (induction ys)
    case (Cons y ys)
    then show ?case using each [of y] di by (cases "y = i") auto
  qed simp
  then show ?thesis using i(1) by blast
qed

lemma fire_step:
  assumes A: "agrees run types S g V W" and C: "C \<subseteq> ran_set V" and j: "fr_target item < length (g_nodes g)" "fr_target item \<notin> D"
  shows "fire g (map (ready_at g V C) [0..<length (g_nodes g)]) (map (deps_at g V C D) [0..<length (g_nodes g)], fs) item =
    (if enabled g V C (fr_target item)
     then Inr (map (deps_at g V C (insert (fr_target item) D)) [0..<length (g_nodes g)], fs @ [future_at g V (fr_target item)])
     else Inr (map (deps_at g V C D) [0..<length (g_nodes g)], fs))"
proof -
  let ?j = "fr_target item" and ?n = "length (g_nodes g)"
  have upd: "(map (deps_at g V C D) [0..<?n])[?j := []] = map (deps_at g V C (insert ?j D)) [0..<?n]"
    unfolding list_update_map_upt [OF j(1)] by (rule map_cong) (auto simp: deps_at_def)
  have d: "deps_at g V C D ?j = map (dep_of V C) (ins_of g ?j)" using j(2) by (simp add: deps_at_def)
  obtain n ins pre where n: "g_nodes g ! ?j = (n, ins, pre)" by (cases "g_nodes g ! ?j")
  have dep: "dep_of V C i = None \<longleftrightarrow> i \<notin> C" if "i \<in> set (ins_of g ?j)" for i
    using dep_of_arg [OF A j(1) that C] by (auto simp: dep_of_def)
  have none: "None \<in> set (map (dep_of V C) (ins_of g ?j)) \<longleftrightarrow> \<not> (\<forall>i \<in> set (ins_of g ?j). i \<in> C)"
    using dep by (metis (no_types, opaque_lifting) image_eqI image_iff list.set_map)
  have sel: "find_map id (map (dep_of V C) (ins_of g ?j)) = None" if "\<not> (\<exists>i \<in> set (ins_of g ?j). i \<in> C)"
  proof -
    have "find_map id (map (dep_of V C) ys) = None" if "set ys \<inter> C = {}" for ys using that by (induction ys) (auto simp: dep_of_def)
    then show ?thesis using that by blast
  qed
  show ?thesis
  proof (cases "ready_at g V C ?j")
    case False
    then show ?thesis using j by (simp add: fire_def Let_def n index_or_panic_def nth_opt_def enabled_def)
  next
    case ready: True
    show ?thesis
    proof (cases "is_select (kind_of g ?j)")
      case True
      have ne: "ins_of g ?j \<noteq> []" using agrees_uses(3) [OF A j(1) True] .
      show ?thesis
      proof (cases "\<exists>i \<in> set (ins_of g ?j). i \<in> C")
        case ex: True
        then have f: "?j \<in> fired g V C" using ready True j(1) by (simp add: fired_def enabled_def)
        obtain x where x: "candidates V (ins_of g ?j) = [x]" "value_at V ?j = Some (Some x)" using fired_ran(2) [OF A C f True] by blast
        have "find_map id (map (dep_of V C) (ins_of g ?j)) = Some x" using ex find_map_deps [OF A j(1) C x(1)] by blast
        then show ?thesis using ready True ne ex j d upd x(2) n
          by (simp add: fire_def Let_def index_or_panic_def nth_opt_def enabled_def future_at_def)
      next
        case False
        then show ?thesis using ready True ne j d sel n
          by (simp add: fire_def Let_def index_or_panic_def nth_opt_def enabled_def)
      qed
    next
      case False
      have args: "map the (map (dep_of V C) (ins_of g ?j)) = arguments V (ins_of g ?j)" if "\<forall>i \<in> set (ins_of g ?j). i \<in> C"
        using that dep_of_arg [OF A j(1) _ C] by (auto simp: arguments_def)
      show ?thesis
      proof (cases "\<forall>i \<in> set (ins_of g ?j). i \<in> C")
        case all: True
        then have "None \<notin> set (map (dep_of V C) (ins_of g ?j))" using none by blast
        then show ?thesis using ready False all j d upd args [OF all] n
          by (simp add: fire_def Let_def index_or_panic_def nth_opt_def enabled_def future_at_def)
      next
        case nall: False
        then have "None \<in> set (map (dep_of V C) (ins_of g ?j))" using none by blast
        then show ?thesis using ready False nall j d n
          by (simp add: fire_def Let_def index_or_panic_def nth_opt_def enabled_def)
      qed
    qed
  qed
qed

lemma fire_pass:
  assumes A: "agrees run types S g V W" and C: "C \<subseteq> ran_set V"
  shows "\<forall>item \<in> set items. fr_target item < length (g_nodes g) \<and> fr_target item \<notin> D \<Longrightarrow> distinct (map fr_target items) \<Longrightarrow>
    foldR (fire g (map (ready_at g V C) [0..<length (g_nodes g)])) (map (deps_at g V C D) [0..<length (g_nodes g)], fs) items =
    (Inr (map (deps_at g V C (D \<union> {j \<in> fr_target ` set items. enabled g V C j})) [0..<length (g_nodes g)],
      fs @ map (future_at g V) (List.filter (enabled g V C) (map fr_target items))) :: ('e exec_error, _) outcome)"
proof (induction items arbitrary: D fs)
  case (Cons item items)
  let ?j = "fr_target item"
  have j: "?j < length (g_nodes g)" "?j \<notin> D" using Cons.prems by auto
  let ?D = "if enabled g V C ?j then insert ?j D else D"
  have D: "\<forall>item \<in> set items. fr_target item < length (g_nodes g) \<and> fr_target item \<notin> ?D" "distinct (map fr_target items)"
    using Cons.prems by (auto simp: image_iff)
  have "?D \<union> {j \<in> fr_target ` set items. enabled g V C j} = D \<union> {j \<in> fr_target ` set (item # items). enabled g V C j}" by auto
  then show ?case using Cons.IH [OF D] unfolding foldR.simps fire_step [OF A C j] by (simp split: if_splits)
qed simp

lemma enumerate_map: "enumerate 0 xs = map (\<lambda>j. (j, xs ! j)) [0..<length xs]"
  by (rule nth_equalityI) (simp_all add: nth_enumerate_eq)

lemma uses_single:
  assumes "distinct (sources node)"
  shows "length (uses_of i (j, node)) \<le> 1"
proof -
  obtain n ins pre where n: "node = (n, ins, pre)" by (cases node)
  have d: "distinct ins" and p: "pre = Some i \<Longrightarrow> i \<notin> set ins" using assms by (auto simp: n sources_def split: option.splits)
  have "length (List.filter (\<lambda>(_, k). k = i) (enumerate m ins)) = count_list ins i" for m
    by (induction ins arbitrary: m) auto
  moreover have "count_list ins i \<le> 1" "i \<notin> set ins \<Longrightarrow> count_list ins i = 0"
    using d by (induction ins) (auto simp: count_list_0_iff)
  ultimately show ?thesis using p by (auto simp: uses_of_def n)
qed

lemma rules_distinct:
  assumes "generate_fire_rules g = Inr rules" "single_uses g" "i < length (g_nodes g)"
  shows "distinct (map fr_target (rules ! i))"
proof -
  have "distinct (map fr_target (concat (map (uses_of i) (enumerate 0 ns)))) \<and>
      (\<forall>item \<in> set (concat (map (uses_of i) (enumerate 0 ns))). fr_target item < length ns)" if "\<forall>n \<in> set ns. distinct (sources n)" for ns
    using that
  proof (induction ns rule: rev_induct)
    case (snoc n ns)
    have t: "fr_target item = length ns" if "item \<in> set (uses_of i (length ns, n))" for item
      using that by (cases n) (simp add: in_uses_of)
    have "distinct (map fr_target (uses_of i (length ns, n)))"
      using uses_single [of n i "length ns"] snoc.prems by (cases "uses_of i (length ns, n)") auto
    moreover obtain L where L: "concat (map (uses_of i) (enumerate 0 ns)) = L" by blast
    moreover have "distinct (map fr_target L)" "\<forall>item \<in> set L. fr_target item < length ns" using snoc L by auto
    moreover have "concat (map (uses_of i) (enumerate 0 (ns @ [n]))) = L @ uses_of i (length ns, n)"
      using L by (simp add: enumerate_append_eq)
    ultimately show ?case using t by (auto dest: bspec)
  qed simp
  from this [of "g_nodes g"] assms(2) show ?thesis
    unfolding fire_rules(2) [OF assms(1,3)] by (simp add: single_uses_def)
qed

definition run_inv :: "tw_graph \<Rightarrow> node_values \<Rightarrow> nat set \<Rightarrow> 't run_state \<Rightarrow> bool" where
  "run_inv g V C s \<longleftrightarrow> C \<subseteq> ran_set V \<and> C \<subseteq> fired g V C \<and>
     set (map future_node (rs_futures s)) = fired g V C - C \<and> distinct (map future_node (rs_futures s)) \<and>
     (\<forall>f \<in> set (rs_futures s). f = future_at g V (future_node f)) \<and>
     rs_deps s = map (deps_at g V C (fired g V C)) [0..<length (g_nodes g)] \<and>
     rs_pre s = map (ready_at g V C) [0..<length (g_nodes g)] \<and>
     rs_ret s = Option.bind (g_output g) (\<lambda>i. if i \<in> C then the (value_at V i) else None)"

lemma future_node_at [simp]: "future_node (future_at g V j) = j"
  by (simp add: future_at_def)

lemma initial_inv:
  assumes "agrees run types S g V W"
  shows "run_inv g V {} (initial_state g t)"
proof -
  have e: "enabled g V {} j \<longleftrightarrow> ins_of g j = [] \<and> pre_of g j = None" if "j < length (g_nodes g)" for j
    using agrees_uses(3) [OF assms that] by (auto simp: enabled_def ready_at_def split: option.splits)
  have ns: "\<not> is_select (kind_of g j)" if "j < length (g_nodes g)" "ins_of g j = []" for j
    using agrees_uses(3) [OF assms that(1)] that(2) by blast
  have f: "initial_futures g = map (\<lambda>j. NodeRun j []) (List.filter (\<lambda>j. ins_of g j = [] \<and> pre_of g j = None) [0..<length (g_nodes g)])"
    by (simp add: initial_futures_def enumerate_map filter_map comp_def case_prod_beta)
  have "deps_at g V {} (fired g V {}) j = replicate (length (ins_of g j)) None" if "j < length (g_nodes g)" for j
  proof -
    have "map (dep_of V {}) xs = replicate (length xs) None" for xs by (induction xs) (simp_all add: dep_of_def)
    then show ?thesis using that e [OF that] by (auto simp: deps_at_def fired_def)
  qed
  then have deps: "map (\<lambda>(_, in_edges, _). replicate (length in_edges) None) (g_nodes g) = map (deps_at g V {} (fired g V {})) [0..<length (g_nodes g)]"
    by (intro nth_equalityI) (simp_all add: case_prod_beta)
  have "ready_at g V {} j \<longleftrightarrow> pre_of g j = None" for j by (simp add: ready_at_def split: option.split)
  then have pre: "map (\<lambda>(_, _, pre). pre = None) (g_nodes g) = map (ready_at g V {}) [0..<length (g_nodes g)]"
    by (intro nth_equalityI) (simp_all add: case_prod_beta)
  have "set (map future_node (initial_futures g)) = fired g V {}" "distinct (map future_node (initial_futures g))"
    by (auto simp: f fired_def e comp_def)
  moreover have "x = future_at g V (future_node x)" if "x \<in> set (initial_futures g)" for x
    using that ns by (auto simp: f future_at_def arguments_def)
  ultimately show ?thesis unfolding run_inv_def initial_state_def using deps pre by (simp split: option.split)
qed

lemma rule_targets:
  assumes "generate_fire_rules g = Inr rules" "i < length (g_nodes g)"
  shows "fr_target ` set (rules ! i) = {j. j < length (g_nodes g) \<and> i \<in> set (sources (g_nodes g ! j))}"
proof (intro set_eqI iffI)
  fix j assume "j \<in> fr_target ` set (rules ! i)"
  then obtain item where item: "item \<in> set (rules ! i)" "j = fr_target item" by auto
  from assms item(1) show "j \<in> {j. j < length (g_nodes g) \<and> i \<in> set (sources (g_nodes g ! j))}"
    by (cases rule: rule_cases) (simp_all add: item(2) in_sources)
next
  fix j assume "j \<in> {j. j < length (g_nodes g) \<and> i \<in> set (sources (g_nodes g ! j))}"
  then have j: "j < length (g_nodes g)" and "i \<in> set (ins_of g j) \<or> pre_of g j = Some i" by (simp_all add: in_sources)
  then consider pos where "pos < length (ins_of g j)" "ins_of g j ! pos = i" | "pre_of g j = Some i"
    by (auto simp: in_set_conv_nth)
  then obtain kind where "\<lparr>fr_target = j, fr_kind = kind\<rparr> \<in> set (rules ! i)"
    by cases (auto simp: in_fire_rules [OF assms] j case_prod_beta)
  then show "j \<in> fr_target ` set (rules ! i)" by (metis fire_rule_item.select_convs(1) imageI)
qed

lemma not_source:
  assumes "i \<notin> set (sources (g_nodes g ! j))"
  shows "deps_at g V (insert i C) D j = deps_at g V C D j" "ready_at g V (insert i C) j = ready_at g V C j"
    "enabled g V (insert i C) j = enabled g V C j"
proof -
  have i: "i \<notin> set (ins_of g j)" "pre_of g j \<noteq> Some i" using assms by (simp_all add: in_sources)
  show "deps_at g V (insert i C) D j = deps_at g V C D j" using i(1) by (auto simp: deps_at_def dep_of_def)
  show r: "ready_at g V (insert i C) j = ready_at g V C j" using i(2) by (auto simp: ready_at_def split: option.split)
  have "(x \<in> insert i C) = (x \<in> C)" if "x \<in> set (ins_of g j)" for x using i(1) that by auto
  then show "enabled g V (insert i C) j = enabled g V C j" unfolding enabled_def r by (auto cong: ball_cong bex_cong)
qed

lemma fired_insert:
  "fired g V (insert i C) = fired g V C \<union> {j. j < length (g_nodes g) \<and> i \<in> set (sources (g_nodes g ! j)) \<and> enabled g V (insert i C) j}"
  using fired_mono [of C "insert i C" g V] not_source(3) [of i g _ V C] by (auto simp: fired_def)

lemma complete_inv:
  assumes A: "agrees run types S g V W" and rules: "generate_fire_rules g = Inr rules"
    and inv: "run_inv g V C s" and k: "k < length (rs_futures s)" and i: "i = future_node (rs_futures s ! k)" and r: "value_at V i = Some r"
  shows "\<exists>s'. complete_node g rules i r (s\<lparr>rs_futures := swap_remove (rs_futures s) k, rs_txn := t\<rparr>) = (Inr s' :: ('e exec_error, _) outcome) \<and>
    run_inv g V (insert i C) s' \<and> rs_txn s' = t"
proof -
  let ?n = "length (g_nodes g)" and ?C = "insert i C" and ?D = "fired g V C" and ?items = "rules ! i" and ?fs = "swap_remove (rs_futures s) k"
  let ?new = "List.filter (enabled g V ?C) (map fr_target ?items)"
  have "i \<in> set (map future_node (rs_futures s))" using i k by simp
  then have iD: "i \<in> ?D" "i \<notin> C" using inv by (auto simp: run_inv_def simp del: set_map)
  then have n: "i < ?n" by (simp add: fired_def)
  have C: "C \<subseteq> ran_set V" "?C \<subseteq> ran_set V" "i \<in> ran_set V" using inv r by (auto simp: run_inv_def ran_set_def)
  have T: "fr_target ` set ?items = {j. j < ?n \<and> i \<in> set (sources (g_nodes g ! j))}" by (rule rule_targets [OF rules n])
  have dist: "distinct (map fr_target ?items)" by (rule rules_distinct [OF rules _ n]) (use A in \<open>simp add: agrees_def\<close>)
  have un: "\<forall>item \<in> set ?items. fr_target item < ?n \<and> fr_target item \<notin> ?D"
    using T target_unfired [OF A C(1,3) iD(2)] by blast
  have rec: "foldR (record_result r) (rs_deps s, rs_pre s) ?items =
      (Inr (map (deps_at g V ?C ?D) [0..<?n], map (ready_at g V ?C) [0..<?n]) :: ('e exec_error, _) outcome)"
  proof -
    have m: "map (\<lambda>j. f (if j \<in> fr_target ` set ?items then ?C else C) j) [0..<?n] = map (f ?C) [0..<?n]"
      if "\<And>j. i \<notin> set (sources (g_nodes g ! j)) \<Longrightarrow> f ?C j = f C j" for f :: "nat set \<Rightarrow> nat \<Rightarrow> 'x"
      using that unfolding T by (intro map_cong) auto
    have st: "rs_deps s = map (deps_at g V C ?D) [0..<?n]" "rs_pre s = map (ready_at g V C) [0..<?n]"
      using inv by (simp_all add: run_inv_def)
    have m1: "map (\<lambda>j. deps_at g V (if j \<in> fr_target ` set ?items then ?C else C) ?D j) [0..<?n] = map (deps_at g V ?C ?D) [0..<?n]"
      by (rule m [of "\<lambda>C. deps_at g V C ?D"]) (rule not_source)
    have m2: "map (\<lambda>j. ready_at g V (if j \<in> fr_target ` set ?items then ?C else C) j) [0..<?n] = map (ready_at g V ?C) [0..<?n]"
      by (rule m [of "ready_at g V"]) (rule not_source)
    show ?thesis
      using record_pass [OF A C(1) r iD(2) n rules subset_refl dist Int_empty_left, where 'f = "'e exec_error"]
      by (simp only: st m1 m2 Un_empty_left empty_iff if_False)
  qed
  note fp = fire_pass [OF A C(2) un dist, of ?fs, where 'e = 'e]
  have F: "?D \<union> {j \<in> fr_target ` set ?items. enabled g V ?C j} = fired g V ?C" unfolding fired_insert T by auto
  let ?s' = "s\<lparr>rs_txn := t, rs_deps := map (deps_at g V ?C (fired g V ?C)) [0..<?n], rs_pre := map (ready_at g V ?C) [0..<?n],
    rs_futures := ?fs @ map (future_at g V) ?new, rs_ret := if Some i = g_output g then r else rs_ret s\<rparr>"
  have "complete_node g rules i r (s\<lparr>rs_futures := ?fs, rs_txn := t\<rparr>) = (Inr ?s' :: ('e exec_error, _) outcome)"
    using n fire_rules(1) [OF rules] rec fp unfolding F by (simp add: complete_node_def index_or_panic_def nth_opt_def)
  moreover have "run_inv g V ?C ?s'"
  proof -
    have ms: "mset (rs_futures s) = add_mset (rs_futures s ! k) (mset ?fs)" by (rule mset_swap_remove [OF k])
    have d: "mset (map future_node (rs_futures s)) = add_mset i (mset (map future_node ?fs))" using ms i by (simp add: image_mset_add_mset)
    then have d2: "mset (map future_node (rs_futures s)) = mset (i # map future_node ?fs)" by simp
    have d'1: "distinct (i # map future_node ?fs)"
      using mset_eq_imp_distinct_iff [OF d2] inv by (simp only: run_inv_def)
    moreover have "insert i (set (map future_node ?fs)) = ?D - C"
      using mset_eq_setD [OF d2] inv by (simp add: run_inv_def)
    ultimately have d': "distinct (i # map future_node ?fs)" "set (map future_node ?fs) = ?D - C - {i}" by auto
    have "set ?new = {j \<in> fr_target ` set ?items. enabled g V ?C j}" by auto
    moreover have "fr_target ` set ?items \<inter> ?D = {}" using un by blast
    ultimately have new: "set ?new = fired g V ?C - ?D" unfolding F [symmetric] by auto
    have new': "distinct ?new" using dist by (rule distinct_filter)
    have sub: "?D \<subseteq> fired g V ?C" by (rule fired_mono) auto
    have nodes: "map future_node (?fs @ map (future_at g V) ?new) = map future_node ?fs @ ?new" by (simp add: comp_def)
    have CD: "C \<subseteq> ?D" using inv by (simp add: run_inv_def)
    have "set (map future_node (?fs @ map (future_at g V) ?new)) = fired g V ?C - ?C"
      unfolding nodes set_append d'(2) new using sub CD iD(1) by blast
    moreover have "distinct (map future_node (?fs @ map (future_at g V) ?new))"
      unfolding nodes distinct_append d'(2) new using d'(1) new' by auto
    moreover have "f = future_at g V (future_node f)" if "f \<in> set (?fs @ map (future_at g V) ?new)" for f
    proof -
      have "set ?fs \<subseteq> set (rs_futures s)" using ms by (metis add_mset_remove_trivial in_diffD set_mset_mset subsetI)
      then show ?thesis using that inv by (auto simp: run_inv_def)
    qed
    moreover have "(if Some i = g_output g then r else rs_ret s) = Option.bind (g_output g) (\<lambda>j. if j \<in> ?C then the (value_at V j) else None)"
      using inv r by (cases "g_output g") (auto simp: run_inv_def)
    ultimately show ?thesis using C sub iD inv unfolding run_inv_def by (simp del: set_map set_filter) blast
  qed
  ultimately show ?thesis by (intro exI [of _ ?s']) simp
qed

section \<open>Whole runs\<close>

lemma select_no_writes: "agrees run types S g V W \<Longrightarrow> j < length (g_nodes g) \<Longrightarrow> is_select (kind_of g j) \<Longrightarrow> W j = []"
  by (drule (1) agrees_evaluates) (erule evaluates.cases; simp)

lemma ran_set_bound: "agrees run types S g V W \<Longrightarrow> j \<in> ran_set V \<Longrightarrow> j < length (g_nodes g)"
  by (auto simp: agrees_def ran_set_def value_at_def split: if_splits)

lemma finite_ran_set: "finite (ran_set V)"
  by (rule finite_subset [of _ "{..<length V}"]) (auto simp: ran_set_def value_at_def split: if_splits)

text \<open>A run that has no more futures has completed every node that the reference ran.\<close>

lemma quiet_run:
  assumes A: "agrees run types S g V W" and C: "fired g V C \<subseteq> C"
  shows "ran_set V \<subseteq> C"
proof
  fix j show "j \<in> ran_set V \<Longrightarrow> j \<in> C"
  proof (induction j rule: less_induct)
    case (less j)
    have n: "j < length (g_nodes g)" by (rule ran_set_bound [OF A less.prems])
    have ready: "ready_at g V C j" if r: "eval_ready V (pre_of g j) = (Inr True :: (unit, _) outcome)"
    proof (cases "pre_of g j")
      case (Some p)
      then have "p \<in> ran_set V" using r by (auto simp: eval_ready_def ran_set_def split: option.splits)
      then have "p \<in> C" using less.IH agrees_uses(5) [OF A n Some] by blast
      then show ?thesis using Some r by (simp add: ready_at_def)
    qed (simp add: ready_at_def)
    have "enabled g V C j" using agrees_evaluates [OF A n]
    proof cases
      case (candidate x)
      from \<open>candidates V (ins_of g j) = [x]\<close> have "x \<in> set (candidates V (ins_of g j))" by simp
      then obtain i where i: "i \<in> set (ins_of g j)" "Option.bind (value_at V i) id = Some x"
        by (auto simp: candidates_def List.map_filter_def)
      then have "i \<in> ran_set V" by (cases "value_at V i") (auto simp: ran_set_def)
      then have "i \<in> C" using less.IH agrees_uses(4) [OF A n i(1)] by blast
      then show ?thesis using candidate ready i(1) by (auto simp: enabled_def)
    next
      case ran
      then have "i \<in> C" if "i \<in> set (ins_of g j)" for i
        using less.IH [of i] agrees_uses(4) [OF A n that] that by (auto simp: ran_set_def)
      then show ?thesis using ran ready by (auto simp: enabled_def)
    qed (use less.prems in \<open>auto simp: ran_set_def\<close>)
    then show ?case using C n by (auto simp: fired_def)
  qed
qed

lemma quiet_output:
  assumes A: "agrees run types S g V W" and inv: "run_inv g V C s" and quiet: "rs_futures s = []"
  shows "rs_ret s = output_of g V" "C = ran_set V"
proof -
  show C: "C = ran_set V" using quiet_run [OF A, of C] inv quiet by (auto simp: run_inv_def)
  show "rs_ret s = output_of g V"
    using inv C by (cases "g_output g"; cases "value_at V (the (g_output g))") (auto simp: run_inv_def output_of_def ran_set_def)
qed

context kv_snapshot
begin

lemma future_follows:
  assumes A: "agrees run' types S g V W" and C: "C \<subseteq> ran_set V" "i \<in> fired g V C"
    and run: "\<And>n ps t l ty. ok t \<Longrightarrow> snap t = bt_get S \<Longrightarrow> follows S t l (run n ps t ty) (run' n ps (at_log S l) ty)"
    and t: "ok t" "snap t = bt_get S" and info: "gti_nodes info = types"
  shows "\<exists>t' ws. run_future run g info (future_at g V i) t = Inr (the (value_at V i), t') \<and> ok t' \<and> snap t' = bt_get S \<and>
    mset ws = mset (W i) \<and> pending t' = fold apply_write ws (pending t)"
proof -
  have n: "i < length (g_nodes g)" using C(2) by (simp add: fired_def)
  show ?thesis
  proof (cases "is_select (kind_of g i)")
    case True
    obtain x where "value_at V i = Some (Some x)" using fired_ran(2) [OF A C True] by blast
    then show ?thesis using True t select_no_writes [OF A n True] by (auto simp: run_future_def future_at_def)
  next
    case False
    obtain l r where r: "i < length types" "run' (kind_of g i) (arguments V (ins_of g i)) (at_log S l) (types ! i) = Inr (r, at_log S (l @ W i))"
      "value_at V i = Some r" using fired_ran(3) [OF A C False] by blast
    from run [OF t, of l "kind_of g i" "arguments V (ins_of g i)" "types ! i"] r(2) obtain t' ws ws' where
      "at_log S (l @ W i) = at_log S (l @ ws)" "run (kind_of g i) (arguments V (ins_of g i)) t (types ! i) = Inr (r, t')"
      "ok t'" "snap t' = bt_get S" "mset ws' = mset ws" "pending t' = fold apply_write ws' (pending t)"
      unfolding follows_def by blast
    then show ?thesis using False n r(1,3) info
      by (auto simp: run_future_def future_at_def index_or_panic_def nth_opt_def case_prod_beta)
  qed
qed

lemma loop_follows:
  assumes A: "agrees run' types S g V W" and rules: "generate_fire_rules g = (Inr rules :: (unit, _) outcome)"
    and run: "\<And>n ps t l ty. ok t \<Longrightarrow> snap t = bt_get S \<Longrightarrow> follows S t l (run n ps t ty) (run' n ps (at_log S l) ty)"
    and info: "gti_nodes info = types"
  shows "run_inv g V C s \<Longrightarrow> ok (rs_txn s) \<Longrightarrow> snap (rs_txn s) = bt_get S \<Longrightarrow> potential rules (rs_futures s) \<le> fuel \<Longrightarrow>
    \<exists>t' ws. run_loop fuel pick run g info rules s = Inr (output_of g V, t') \<and> ok t' \<and> snap t' = bt_get S \<and>
      mset ws = (\<Sum>i \<in> ran_set V - C. mset (W i)) \<and> pending t' = fold apply_write ws (pending (rs_txn s))"
proof (induction fuel arbitrary: C s)
  case (0 C s)
  have "rs_futures s = []"
    using 0 weight_pos [of rules "future_node (hd (rs_futures s))"] by (cases "rs_futures s") (auto simp: potential_def)
  then show ?case using quiet_output [OF A 0(1)] 0(2,3) by (auto simp: run_loop_simps intro!: exI [of _ "[]"])
next
  case (Suc fuel C s)
  show ?case
  proof (cases "rs_futures s = []")
    case True
    then show ?thesis using quiet_output [OF A Suc.prems(1)] Suc.prems(2,3) by (auto simp: run_loop_simps intro!: exI [of _ "[]"])
  next
    case False
    let ?k = "pick s mod length (rs_futures s)"
    let ?i = "future_node (rs_futures s ! ?k)"
    have k: "?k < length (rs_futures s)" using False by simp
    have f: "rs_futures s ! ?k = future_at g V ?i" "?i \<in> fired g V C" "?i \<notin> C" and C: "C \<subseteq> ran_set V"
      using Suc.prems(1) k nth_mem [OF k] unfolding run_inv_def by (auto simp del: nth_mem)
    obtain t' ws where t': "run_future run g info (rs_futures s ! ?k) (rs_txn s) = Inr (the (value_at V ?i), t')" "ok t'" "snap t' = bt_get S"
      "mset ws = mset (W ?i)" "pending t' = fold apply_write ws (pending (rs_txn s))"
      using future_follows [OF A C f(2) run Suc.prems(2,3) info] f(1) by metis
    have i: "?i \<in> ran_set V" by (rule fired_ran(1) [OF A C f(2)])
    then have "value_at V ?i = Some (the (value_at V ?i))" by (auto simp: ran_set_def)
    from complete_inv [OF A rules Suc.prems(1) k refl this] obtain s' where
      s': "complete_node g rules ?i (the (value_at V ?i)) (s\<lparr>rs_futures := swap_remove (rs_futures s) ?k, rs_txn := t'\<rparr>) = (Inr s' :: ('e exec_error, _) outcome)"
        "run_inv g V (insert ?i C) s'" "rs_txn s' = t'" by blast
    have round: "run_round run g info rules ?k s = Inr s'"
      using k t'(1) s'(1) by (simp add: run_round_def index_or_panic_def nth_opt_def)
    have "potential rules (rs_futures s') < potential rules (rs_futures s)"
      by (rule round_decreases [OF round k]) (use fire_rule_forward [OF rules] A in \<open>auto simp: agrees_def\<close>)
    then have "potential rules (rs_futures s') \<le> fuel" using Suc.prems(4) by simp
    from Suc.IH [OF s'(2) _ _ this] t'(2,3) s'(3) obtain t'' vs where
      rest: "run_loop fuel pick run g info rules s' = Inr (output_of g V, t'')" "ok t''" "snap t'' = bt_get S"
        "mset vs = (\<Sum>i \<in> ran_set V - insert ?i C. mset (W i))" "pending t'' = fold apply_write vs (pending t')" by auto
    have "(\<Sum>i \<in> ran_set V - C. mset (W i)) = mset (W ?i) + (\<Sum>i \<in> ran_set V - insert ?i C. mset (W i))"
      using i f(3) finite_ran_set [of V] by (subst sum.remove [of _ ?i]) (auto simp: insert_Diff_if Diff_insert [symmetric])
    then show ?thesis unfolding run_loop_simps(3) [OF False] round using rest t'(4,5)
      by (intro exI [of _ t''] exI [of _ "ws @ vs"]) simp
  qed
qed

end

definition log_executor :: "bool \<Rightarrow> ('e, 't) executor \<Rightarrow> ('e, log_store) executor" where
  "log_executor scans ex = \<lparr>ex_vm = ex_vm ex, ex_kv = log_kv scans, ex_type_info = ex_type_info ex, ex_fire_rules = ex_fire_rules ex\<rparr>"

lemma reference_writes:
  assumes "agrees run types S g V W"
  shows "mset (concat (map W [0..<length (g_nodes g)])) = (\<Sum>i \<in> ran_set V. mset (W i))"
proof -
  have none: "W i = []" if i: "i < length (g_nodes g)" "i \<notin> ran_set V" for i
    using agrees_evaluates [OF assms i(1)] i(2) by cases (auto simp: ran_set_def)
  have "mset (concat (map W [0..<length (g_nodes g)])) = (\<Sum>i \<in> {0..<length (g_nodes g)}. mset (W i))"
    by (simp add: mset_concat comp_def interv_sum_list_conv_sum_set_nat)
  also have "\<dots> = (\<Sum>i \<in> ran_set V. mset (W i))"
    by (rule sum.mono_neutral_right) (use none ran_set_bound [OF assms] in auto)
  finally show ?thesis .
qed

context kv_snapshot
begin

lemma body_follows:
  assumes ready: "executor_ready ex" and ex: "ex_kv ex = kv" and single: "\<forall>g \<in> set (s_graphs (vm_script (ex_vm ex))). single_uses g"
    and call: "\<And>i ps t l. ok t \<Longrightarrow> snap t = bt_get S \<Longrightarrow> follows S t l (call i ps t) (call' i ps (at_log S l))"
    and t: "ok t" "snap t = bt_get S" and S: "bt_ok S"
  shows "follows S t l (run_body E ex pick call gi gps t) (eval_body E (log_executor scans ex) call' gi gps (at_log S l))"
  unfolding follows_def
proof (intro allI impI)
  fix v st
  let ?run = "\<lambda>n ps t ty. run_node E (ex_vm ex) (ex_kv ex) call n ps t gps ty"
  let ?run' = "\<lambda>n ps t ty. run_node E (ex_vm ex) (log_kv scans) call' n ps t gps ty"
  assume "eval_body E (log_executor scans ex) call' gi gps (at_log S l) = Inr (v, st)"
  then obtain g info V where g: "gi < length (s_graphs (vm_script (ex_vm ex)))" "g = s_graphs (vm_script (ex_vm ex)) ! gi"
    and info: "gi < length (ex_type_info ex)" "info = ex_type_info ex ! gi"
    and V: "foldR (eval_node ?run' (gti_nodes info)) ([], at_log S l) (g_nodes g) = (Inr (V, st) :: ('e exec_error, _) outcome)" "v = output_of g V"
    by (auto simp: eval_body_def log_executor_def index_or_panic_def)
  let ?rules = "ex_fire_rules ex ! gi"
  have rules: "generate_fire_rules g = (Inr ?rules :: (unit, _) outcome)" "forward_graph g" "gi < length (ex_fire_rules ex)"
    using ready g by (auto simp: executor_ready_def)
  have run: "follows S t l (?run n ps t ty) (?run' n ps (at_log S l) ty)" if "ok t" "snap t = bt_get S" for n ps t l ty
    unfolding ex by (rule run_node_follows [OF call that S])
  have "appends ?run' S" unfolding appends_def using run [OF t] unfolding follows_def by blast
  from eval_nodes [OF V(1) this] rules(2) obtain W where W: "length V = length (g_nodes g)" "st = at_log S (l @ concat (map W [0..<length (g_nodes g)]))"
    "\<forall>i < length (g_nodes g). evaluates ?run' (gti_nodes info) S V i (W i) (g_nodes g ! i)" unfolding forward_graph_def by blast
  have A: "agrees ?run' (gti_nodes info) S g V W" using W rules(2) single g by (simp add: agrees_def)
  have "potential ?rules (rs_futures (initial_state g t)) \<le> loop_fuel ?rules"
    using initial_potential [of ?rules g] fire_rules(1) [OF rules(1)] by (simp add: initial_state_def)
  have st: "rs_txn (initial_state g t) = t" by (simp add: initial_state_def)
  from loop_follows [where run = ?run, OF A rules(1) run refl initial_inv [OF A, of t] _ _ \<open>_ \<le> loop_fuel ?rules\<close>, of pick, unfolded st Diff_empty] t obtain t' ws where
    "run_loop (loop_fuel ?rules) pick ?run g info ?rules (initial_state g t) = Inr (output_of g V, t')" "ok t'" "snap t' = bt_get S"
    "mset ws = (\<Sum>i \<in> ran_set V. mset (W i))" "pending t' = fold apply_write ws (pending t)" by blast
  then show "\<exists>t' ws ws'. st = at_log S (l @ ws) \<and> run_body E ex pick call gi gps t = Inr (v, t') \<and> ok t' \<and> snap t' = bt_get S \<and>
      mset ws' = mset ws \<and> pending t' = fold apply_write ws' (pending t)"
    using W(2) V(2) g info rules(3) unfolding reference_writes [OF A, symmetric]
    by (intro exI [of _ t'] exI [of _ "concat (map W [0..<length (g_nodes g)])"] exI [of _ ws])
      (simp add: run_body_def index_or_panic_def nth_opt_def)
qed

lemma graph_follows:
  assumes "executor_ready ex" "ex_kv ex = kv" "\<forall>g \<in> set (s_graphs (vm_script (ex_vm ex))). single_uses g" "bt_ok S"
  shows "ok t \<Longrightarrow> snap t = bt_get S \<Longrightarrow>
    follows S t l (recursively_run_graph E ex pick left gi gps t) (eval_graph E (log_executor scans ex) left gi gps (at_log S l))"
proof (induction left arbitrary: gi gps t l)
  case (Suc n)
  show ?case unfolding recursively_run_graph.simps eval_graph.simps
    by (rule body_follows [OF assms(1-3) Suc.IH Suc.prems assms(4)])
qed simp

end

interpretation mem_snapshot: kv_snapshot "mem_kv :: ('e, mem_transaction) kv_transaction"
  "\<lambda>t. mem_view (mt_read_buffer t)" "\<lambda>t. mem_view (mt_buffer t)" "\<lambda>t. mem_view (mt_buffer t)" mem_txn_ok False
  by unfold_locales simp

interpretation sqlite_snapshot: kv_snapshot "sqlite_kv S" "sqlite_snap view" "sqlite_pending view" "sqlite_snap view"
  "sqlite_ok S view I" True for S view I
  by unfold_locales simp

end
