(* ===== verification/Fdb_Kv.thy ===== *)
theory Fdb_Kv
  imports Sqlite_Kv
begin

text \<open>
  The FoundationDB store of \<^verbatim>\<open>rdb-server/src/kv_backend/foundationdb.rs\<close>. The database is a parameter:
  the record \<open>fdb\<close> has one function per call of the client library, on a state \<open>'d\<close> of the open
  transaction, and \<open>fdb_laws\<close> states what the calls are documented to do. A range is read
  in pages whose size the library chooses, so that the law only says that a page is some non-empty initial part
  of what is left. The iterator over the pages is the interesting part of this store.
\<close>

section \<open>Transactions\<close>

datatype key_selector = FirstGreaterOrEqual bytes | FirstGreaterThan bytes

record ('e, 'd) fdb =
  fdb_disable_read_your_writes :: "'d \<Rightarrow> ('e, 'd) outcome"
  fdb_get_value :: "bytes \<Rightarrow> 'd \<Rightarrow> ('e, bytes option) outcome"
  fdb_set :: "bytes \<Rightarrow> bytes \<Rightarrow> 'd \<Rightarrow> 'd"
  fdb_clear :: "bytes \<Rightarrow> 'd \<Rightarrow> 'd"
  fdb_clear_range :: "bytes \<Rightarrow> bytes \<Rightarrow> 'd \<Rightarrow> 'd"
  fdb_get_range :: "key_selector \<Rightarrow> bytes \<Rightarrow> nat \<Rightarrow> 'd \<Rightarrow> ('e, bytes list) outcome"
  fdb_commit_transaction :: "'d \<Rightarrow> ('e, 'd) outcome"
  is_retryable_not_committed :: "'e \<Rightarrow> bool"

record fdb_store =
  fs_prefix :: bytes

record 'd fdb_txn =
  ft_inner :: 'd
  ft_prefix :: bytes

definition fdb_new :: "bytes \<Rightarrow> fdb_store" where
  "fdb_new pre = \<lparr>fs_prefix = pre\<rparr>"

definition fdb_begin :: "('e, 'd) fdb \<Rightarrow> ('e, 'd) outcome \<Rightarrow> fdb_store \<Rightarrow> ('e, 'd fdb_txn) outcome" where
  "fdb_begin F create_trx s =
     bindR create_trx (\<lambda>txn.
     bindR (fdb_disable_read_your_writes F txn) (\<lambda>txn.
     Inr \<lparr>ft_inner = txn, ft_prefix = fs_prefix s\<rparr>))"

definition fdb_get :: "('e, 'd) fdb \<Rightarrow> 'd fdb_txn \<Rightarrow> bytes \<Rightarrow> ('e, bytes option) outcome" where
  "fdb_get F t k = fdb_get_value F (ft_prefix t @ k) (ft_inner t)"

definition fdb_put :: "('e, 'd) fdb \<Rightarrow> 'd fdb_txn \<Rightarrow> bytes \<Rightarrow> bytes \<Rightarrow> 'd fdb_txn" where
  "fdb_put F t k v = t\<lparr>ft_inner := fdb_set F (ft_prefix t @ k) v (ft_inner t)\<rparr>"

definition fdb_delete :: "('e, 'd) fdb \<Rightarrow> 'd fdb_txn \<Rightarrow> bytes \<Rightarrow> 'd fdb_txn" where
  "fdb_delete F t k = t\<lparr>ft_inner := fdb_clear F (ft_prefix t @ k) (ft_inner t)\<rparr>"

definition fdb_delete_range :: "('e, 'd) fdb \<Rightarrow> 'd fdb_txn \<Rightarrow> bytes \<Rightarrow> bytes \<Rightarrow> 'd fdb_txn" where
  "fdb_delete_range F t s e = t\<lparr>ft_inner := fdb_clear_range F (ft_prefix t @ s) (ft_prefix t @ e) (ft_inner t)\<rparr>"

text \<open>\<open>iterators\<close> says whether an iterator still shares the transaction when it is committed.\<close>

definition fdb_commit :: "('e, 'd) fdb \<Rightarrow> bool \<Rightarrow> 'd fdb_txn \<Rightarrow> (kv_error, 'd) outcome" where
  "fdb_commit F iterators t =
     (if iterators then Inl (Err CommitStateUnknown)
      else case fdb_commit_transaction F (ft_inner t) of
        Inr d \<Rightarrow> Inr d
      | Inl (Err e) \<Rightarrow> Inl (Err (if is_retryable_not_committed F e then Conflict else CommitStateUnknown))
      | Inl (Panic m) \<Rightarrow> Inl (Panic m)
      | Inl OutOfFuel \<Rightarrow> Inl OutOfFuel)"

section \<open>The iterator\<close>

record fdb_iterator =
  fi_prefix :: bytes
  fi_values :: "(bytes list \<times> nat) option"
  fi_begin :: key_selector
  fi_end :: bytes
  fi_iteration :: nat

definition fdb_scan_keys :: "'d fdb_txn \<Rightarrow> bytes \<Rightarrow> bytes \<Rightarrow> fdb_iterator" where
  "fdb_scan_keys t s e =
     \<lparr>fi_prefix = ft_prefix t, fi_values = None, fi_begin = FirstGreaterOrEqual (ft_prefix t @ s), fi_end = ft_prefix t @ e,
      fi_iteration = 1\<rparr>"

definition fdb_page :: "('e, 'd) fdb \<Rightarrow> 'd \<Rightarrow> fdb_iterator \<Rightarrow> ('e, fdb_iterator) outcome" where
  "fdb_page F d it =
     (case fi_values it of
        Some _ \<Rightarrow> Inr it
      | None \<Rightarrow>
          bindR (fdb_get_range F (fi_begin it) (fi_end it) (fi_iteration it) d) (\<lambda>values.
          Inr (if values = [] then it else it\<lparr>fi_iteration := fi_iteration it + 1, fi_values := Some (values, 0)\<rparr>)))"

definition fdb_next :: "('e, 'd) fdb \<Rightarrow> 'd \<Rightarrow> fdb_iterator \<Rightarrow> ('e, bytes option \<times> fdb_iterator) outcome" where
  "fdb_next F d it =
     bindR (fdb_page F d it) (\<lambda>it.
     case fi_values it of
       None \<Rightarrow> Inr (None, it)
     | Some (values, value_index) \<Rightarrow>
         bindR (unwrap ''index out of bounds'' (nth_opt values value_index)) (\<lambda>raw_key.
         if \<not> prefix (fi_prefix it) raw_key then Inl (Panic ''called `Option::unwrap()` on a `None` value'')
         else Inr (Some (drop (length (fi_prefix it)) raw_key),
           if value_index + 1 = length values then it\<lparr>fi_begin := FirstGreaterThan raw_key, fi_values := None\<rparr>
           else it\<lparr>fi_values := Some (values, value_index + 1)\<rparr>)))"

text \<open>An iterator read to its end.\<close>

fun fdb_collect :: "nat \<Rightarrow> ('e, 'd) fdb \<Rightarrow> 'd \<Rightarrow> fdb_iterator \<Rightarrow> ('e, bytes list) outcome" where
  "fdb_collect 0 F d it = Inl OutOfFuel"
| "fdb_collect (Suc n) F d it =
     bindR (fdb_next F d it) (\<lambda>(key, it').
     case key of
       None \<Rightarrow> Inr []
     | Some k \<Rightarrow> bindR (fdb_collect n F d it') (\<lambda>ks. Inr (k # ks)))"

definition fdb_kv :: "nat \<Rightarrow> ('e, 'd) fdb \<Rightarrow> ('e, 'd fdb_txn) kv_transaction" where
  "fdb_kv fuel F = \<lparr>kv_get = fdb_get F, kv_put = (\<lambda>t k v. Inr (fdb_put F t k v)), kv_delete = (\<lambda>t k. Inr (fdb_delete F t k)),
     kv_delete_range = (\<lambda>t s e. Inr (fdb_delete_range F t s e)),
     kv_scan_keys = (\<lambda>t s e. fdb_collect fuel F (ft_inner t) (fdb_scan_keys t s e))\<rparr>"

section \<open>What the database promises\<close>

fun selects :: "key_selector \<Rightarrow> bytes \<Rightarrow> bool" where
  "selects (FirstGreaterOrEqual s) k \<longleftrightarrow> s \<le> k"
| "selects (FirstGreaterThan s) k \<longleftrightarrow> s < k"

definition range_keys :: "kv_view \<Rightarrow> key_selector \<Rightarrow> bytes \<Rightarrow> bytes list" where
  "range_keys view b e = sorted_list_of_set {k. selects b k \<and> k < e \<and> view k \<noteq> None}"

text \<open>
  With reading of own writes disabled, reads see the snapshot \<open>snap d\<close> of the transaction, which holds finitely many
  keys; writes collect in \<open>pend d\<close>.
\<close>

definition fdb_laws ::
  "('e, 'd) fdb \<Rightarrow> ('d \<Rightarrow> kv_view) \<Rightarrow> ('d \<Rightarrow> kv_view) \<Rightarrow> ('d \<Rightarrow> bool) \<Rightarrow> bool" where
  "fdb_laws F snap pend I \<longleftrightarrow> (\<forall>d. I d \<longrightarrow> finite (dom (snap d)) \<and>
     (\<forall>k. fdb_get_value F k d = Inr (snap d k)) \<and>
     (\<forall>k v. let d' = fdb_set F k v d in I d' \<and> snap d' = snap d \<and> pend d' = (pend d)(k \<mapsto> v)) \<and>
     (\<forall>k. let d' = fdb_clear F k d in I d' \<and> snap d' = snap d \<and> pend d' = (pend d)(k := None)) \<and>
     (\<forall>s e. let d' = fdb_clear_range F s e d in I d' \<and> snap d' = snap d \<and>
        pend d' = (\<lambda>k. if s \<le> k \<and> k < e then None else pend d k)) \<and>
     (\<forall>b e n. \<exists>m > 0. fdb_get_range F b e n d = Inr (take m (range_keys (snap d) b e))))"

definition below :: "bytes \<Rightarrow> kv_view \<Rightarrow> kv_view" where
  "below p view k = view (p @ k)"

definition fdb_ok ::
  "nat \<Rightarrow> ('e, 'd) fdb \<Rightarrow> ('d \<Rightarrow> kv_view) \<Rightarrow> ('d \<Rightarrow> kv_view) \<Rightarrow> ('d \<Rightarrow> bool) \<Rightarrow> 'd fdb_txn \<Rightarrow> bool" where
  "fdb_ok fuel F snap pend I t \<longleftrightarrow> fdb_laws F snap pend I \<and> I (ft_inner t) \<and> card (dom (snap (ft_inner t))) < fuel"

lemma fdb_lawsD:
  assumes "fdb_laws F snap pend I" "I d"
  shows "finite (dom (snap d))" "fdb_get_value F k d = Inr (snap d k)"
    "I (fdb_set F k v d)" "snap (fdb_set F k v d) = snap d" "pend (fdb_set F k v d) = (pend d)(k \<mapsto> v)"
    "I (fdb_clear F k d)" "snap (fdb_clear F k d) = snap d" "pend (fdb_clear F k d) = (pend d)(k := None)"
    "I (fdb_clear_range F s e d)" "snap (fdb_clear_range F s e d) = snap d"
    "pend (fdb_clear_range F s e d) = (\<lambda>k. if s \<le> k \<and> k < e then None else pend d k)"
    "\<exists>m > 0. fdb_get_range F b e n d = Inr (take m (range_keys (snap d) b e))"
  by (use assms(1) [unfolded fdb_laws_def Let_def, rule_format, OF assms(2)] in \<open>simp\<close>)+

section \<open>Scans\<close>

lemma finite_range: "finite (dom view) \<Longrightarrow> finite {k. selects b k \<and> k < e \<and> view k \<noteq> None}"
  by (rule finite_subset [of _ "dom view"]) auto

lemma range_keys_props:
  assumes "finite (dom view)"
  shows "sorted_wrt (<) (range_keys view b e)" "set (range_keys view b e) = {k. selects b k \<and> k < e \<and> view k \<noteq> None}"
    "length (range_keys view b e) \<le> card (dom view)"
proof -
  show "sorted_wrt (<) (range_keys view b e)" "set (range_keys view b e) = {k. selects b k \<and> k < e \<and> view k \<noteq> None}"
    using finite_range [OF assms, of b e] by (simp_all add: range_keys_def)
  show "length (range_keys view b e) \<le> card (dom view)"
    unfolding range_keys_def length_sorted_list_of_set by (rule card_mono [OF assms]) auto
qed

text \<open>What is left after a page is the range that begins behind its last key.\<close>

lemma range_after_page:
  assumes "finite (dom view)" "range_keys view b e = xs @ k # ys"
  shows "range_keys view (FirstGreaterThan k) e = ys"
proof -
  have s: "sorted_wrt (<) (xs @ k # ys)" and m: "set (xs @ k # ys) = {k. selects b k \<and> k < e \<and> view k \<noteq> None}"
    using range_keys_props(1,2) [OF assms(1), of b e] unfolding assms(2) by blast+
  have up: "selects b x" if "k < x" for x
  proof -
    have "selects b k" using m by auto
    then show ?thesis using that by (cases b) auto
  qed
  have "{x. selects (FirstGreaterThan k) x \<and> x < e \<and> view x \<noteq> None} = {x \<in> set (xs @ k # ys). k < x}"
    unfolding m using up by auto
  also have "\<dots> = set ys" using s by (auto simp: sorted_wrt_append)
  finally show ?thesis
    using s by (simp add: range_keys_def sorted_wrt_append strict_sorted_iff sorted_list_of_set.idem_if_sorted_distinct)
qed

definition remaining :: "kv_view \<Rightarrow> fdb_iterator \<Rightarrow> bytes list" where
  "remaining view it =
     (case fi_values it of
        None \<Rightarrow> range_keys view (fi_begin it) (fi_end it)
      | Some (vs, i) \<Rightarrow> drop i vs @ range_keys view (FirstGreaterThan (last vs)) (fi_end it))"

definition position_ok :: "fdb_iterator \<Rightarrow> bool" where
  "position_ok it \<longleftrightarrow> (case fi_values it of None \<Rightarrow> True | Some (vs, i) \<Rightarrow> i < length vs)"

lemma page_keeps:
  assumes "fdb_laws F snap pend I" "I d" "position_ok it"
  shows "\<exists>it'. fdb_page F d it = Inr it' \<and> remaining (snap d) it' = remaining (snap d) it \<and> position_ok it' \<and>
    fi_prefix it' = fi_prefix it \<and> fi_end it' = fi_end it \<and> (fi_values it' = None \<longrightarrow> remaining (snap d) it = [])"
proof (cases "fi_values it")
  case None
  let ?ks = "range_keys (snap d) (fi_begin it) (fi_end it)"
  have fin: "finite (dom (snap d))" by (rule fdb_lawsD(1) [OF assms(1,2)])
  obtain m where m: "m > 0" "fdb_get_range F (fi_begin it) (fi_end it) (fi_iteration it) d = Inr (take m ?ks)"
    using fdb_lawsD(12) [OF assms(1,2)] by blast
  show ?thesis
  proof (cases "?ks = []")
    case True
    then show ?thesis using m None by (simp add: fdb_page_def remaining_def position_ok_def)
  next
    case False
    then have ne: "take m ?ks \<noteq> []" using m(1) by simp
    have "(butlast (take m ?ks) @ [last (take m ?ks)]) @ drop m ?ks = ?ks"
      unfolding append_butlast_last_id [OF ne] by (rule append_take_drop_id)
    then have "?ks = butlast (take m ?ks) @ last (take m ?ks) # drop m ?ks" by simp
    from range_after_page [OF fin this] show ?thesis
      using m None ne False by (simp add: fdb_page_def remaining_def position_ok_def)
  qed
next
  case (Some a)
  then show ?thesis using assms(3) by (auto simp: fdb_page_def position_ok_def remaining_def split: prod.splits)
qed

lemma next_remaining:
  assumes "fdb_laws F snap pend I" "I d" "position_ok it" "\<forall>k \<in> set (remaining (snap d) it). prefix (fi_prefix it) k"
  shows "case remaining (snap d) it of
      [] \<Rightarrow> \<exists>it'. fdb_next F d it = Inr (None, it')
    | k # ks \<Rightarrow> \<exists>it'. fdb_next F d it = Inr (Some (drop (length (fi_prefix it)) k), it') \<and> remaining (snap d) it' = ks \<and>
        position_ok it' \<and> fi_prefix it' = fi_prefix it"
proof -
  obtain it' where it': "fdb_page F d it = Inr it'" "remaining (snap d) it' = remaining (snap d) it" "position_ok it'"
    "fi_prefix it' = fi_prefix it" "fi_end it' = fi_end it" "fi_values it' = None \<longrightarrow> remaining (snap d) it = []"
    using page_keeps [OF assms(1-3)] by (elim exE conjE)
  show ?thesis
  proof (cases "fi_values it'")
    case None
    then show ?thesis using it' by (simp add: fdb_next_def)
  next
    case (Some a)
    obtain vs i where a: "fi_values it' = Some (vs, i)" "i < length vs"
      using Some it'(3) by (cases a) (auto simp: position_ok_def)
    let ?rest = "drop (Suc i) vs @ range_keys (snap d) (FirstGreaterThan (last vs)) (fi_end it')"
    have rem: "remaining (snap d) it = vs ! i # ?rest"
      using it'(2) a by (simp add: remaining_def Cons_nth_drop_Suc [symmetric])
    have "prefix (fi_prefix it) (vs ! i)" using assms(4) rem by simp
    then have "fdb_next F d it = Inr (Some (drop (length (fi_prefix it)) (vs ! i)),
        if i + 1 = length vs then it'\<lparr>fi_begin := FirstGreaterThan (vs ! i), fi_values := None\<rparr>
        else it'\<lparr>fi_values := Some (vs, i + 1)\<rparr>)"
      using it'(1,4) a by (simp add: fdb_next_def nth_opt_def)
    moreover have "vs ! i = last vs" if "Suc i = length vs"
      using that by (metis a(2) diff_Suc_1 last_conv_nth list.size(3) not_less_zero)
    ultimately show ?thesis using rem a it'(4) by (auto simp: remaining_def position_ok_def)
  qed
qed

lemma collect_remaining:
  assumes "fdb_laws F snap pend I" "I d"
  shows "position_ok it \<Longrightarrow> \<forall>k \<in> set (remaining (snap d) it). prefix (fi_prefix it) k \<Longrightarrow>
    length (remaining (snap d) it) < fuel \<Longrightarrow>
    fdb_collect fuel F d it = Inr (map (drop (length (fi_prefix it))) (remaining (snap d) it))"
proof (induction fuel arbitrary: it)
  case (Suc n)
  note nxt = next_remaining [OF assms Suc.prems(1,2)]
  show ?case
  proof (cases "remaining (snap d) it")
    case Nil
    then show ?thesis using nxt by auto
  next
    case (Cons k ks)
    obtain it' where it': "fdb_next F d it = Inr (Some (drop (length (fi_prefix it)) k), it')" "remaining (snap d) it' = ks"
      "position_ok it'" "fi_prefix it' = fi_prefix it" using nxt Cons by auto
    have "fdb_collect n F d it' = Inr (map (drop (length (fi_prefix it))) ks)"
      using Suc.IH [OF it'(3)] Suc.prems(2,3) it' Cons by simp
    then show ?thesis using it'(1) Cons by simp
  qed
qed simp

lemma sorted_strip:
  fixes p :: bytes
  assumes "\<forall>k \<in> set ks. prefix p k" "sorted_wrt (<) ks"
  shows "sorted_wrt (<) (map (drop (length p)) ks)"
  using map_drop_prefix(1) [of "rev ks" p] assms by (simp add: sorted_wrt_rev rev_map [symmetric])

lemma fdb_scan:
  assumes "fdb_laws F snap pend I" "I (ft_inner t)" "card (dom (snap (ft_inner t))) < fuel"
  shows "\<exists>ks. fdb_collect fuel F (ft_inner t) (fdb_scan_keys t s e) = Inr ks \<and> sorted_wrt (<) ks \<and>
    set ks = {k. s \<le> k \<and> k < e \<and> below (ft_prefix t) (snap (ft_inner t)) k \<noteq> None}"
proof -
  let ?p = "ft_prefix t" and ?it = "fdb_scan_keys t s e" and ?v = "snap (ft_inner t)"
  note fin = fdb_lawsD(1) [OF assms(1,2)]
  have r: "remaining ?v ?it = range_keys ?v (FirstGreaterOrEqual (?p @ s)) (?p @ e)" and p: "fi_prefix ?it = ?p"
    by (simp_all add: remaining_def fdb_scan_keys_def)
  note ks = range_keys_props [OF fin, of "FirstGreaterOrEqual (?p @ s)" "?p @ e", folded r]
  have pre: "\<forall>k \<in> set (remaining ?v ?it). prefix ?p k" unfolding ks(2) by (auto intro: range_keeps_prefix)
  have run: "fdb_collect fuel F (ft_inner t) ?it = Inr (map (drop (length ?p)) (remaining ?v ?it))"
    using collect_remaining [OF assms(1,2), of ?it fuel] pre ks(3) assms(3) p
    by (simp add: position_ok_def fdb_scan_keys_def)
  have "sorted_wrt (<) (map (drop (length ?p)) (remaining ?v ?it))" by (rule sorted_strip [OF pre ks(1)])
  moreover have "set (map (drop (length ?p)) (remaining ?v ?it)) = {k. s \<le> k \<and> k < e \<and> below ?p ?v k \<noteq> None}"
    unfolding map_drop_prefix(2) [OF pre] by (simp add: ks(2) below_def)
  ultimately show ?thesis using run by blast
qed

lemma below_write:
  "below p (m(p @ k := x)) = (below p m)(k := x)"
  "below p (\<lambda>k. if p @ s \<le> k \<and> k < p @ e then None else m k) = (\<lambda>k. if s \<le> k \<and> k < e then None else below p m k)"
  by (auto simp: below_def fun_eq_iff)

interpretation fdb: kv_provider "fdb_kv fuel F" "\<lambda>t. below (ft_prefix t) (snap (ft_inner t))"
  "\<lambda>t. below (ft_prefix t) (pend (ft_inner t))" "\<lambda>t. below (ft_prefix t) (snap (ft_inner t))" "fdb_ok fuel F snap pend I"
  for fuel F snap pend I
proof
  fix t k v s e assume "fdb_ok fuel F snap pend I t"
  then have t: "fdb_laws F snap pend I" "I (ft_inner t)" "card (dom (snap (ft_inner t))) < fuel" by (simp_all add: fdb_ok_def)
  note laws = fdb_lawsD [OF t(1,2)]
  show "kv_get (fdb_kv fuel F) t k = Inr (below (ft_prefix t) (snap (ft_inner t)) k)"
    by (simp add: fdb_kv_def fdb_get_def below_def laws(2))
  show "\<exists>t'. kv_put (fdb_kv fuel F) t k v = Inr t' \<and> fdb_ok fuel F snap pend I t' \<and>
      below (ft_prefix t') (snap (ft_inner t')) = below (ft_prefix t) (snap (ft_inner t)) \<and>
      below (ft_prefix t') (pend (ft_inner t')) = (below (ft_prefix t) (pend (ft_inner t)))(k \<mapsto> v)"
    using t by (simp add: fdb_kv_def fdb_put_def fdb_ok_def laws(3-5) below_write)
  show "\<exists>t'. kv_delete (fdb_kv fuel F) t k = Inr t' \<and> fdb_ok fuel F snap pend I t' \<and>
      below (ft_prefix t') (snap (ft_inner t')) = below (ft_prefix t) (snap (ft_inner t)) \<and>
      below (ft_prefix t') (pend (ft_inner t')) = (below (ft_prefix t) (pend (ft_inner t)))(k := None)"
    using t by (simp add: fdb_kv_def fdb_delete_def fdb_ok_def laws(6-8) below_write)
  show "\<exists>t'. kv_delete_range (fdb_kv fuel F) t s e = Inr t' \<and> fdb_ok fuel F snap pend I t' \<and>
      below (ft_prefix t') (snap (ft_inner t')) = below (ft_prefix t) (snap (ft_inner t)) \<and>
      below (ft_prefix t') (pend (ft_inner t')) = (\<lambda>k. if s \<le> k \<and> k < e then None else below (ft_prefix t) (pend (ft_inner t)) k)"
    using t by (simp add: fdb_kv_def fdb_delete_range_def fdb_ok_def laws(9-11) below_write)
  show "\<exists>ks. kv_scan_keys (fdb_kv fuel F) t s e = Inr ks \<and> sorted_wrt (<) ks \<and>
      set ks = {k. s \<le> k \<and> k < e \<and> below (ft_prefix t) (snap (ft_inner t)) k \<noteq> None}"
    using fdb_scan [OF t] by (simp add: fdb_kv_def)
qed simp

text \<open>The two stores of the server give the same answers to the same operations.\<close>

interpretation sqlite_fdb: kv_pair "sqlite_kv S" "sqlite_snap view" "sqlite_pending view" "sqlite_snap view" "sqlite_ok S view J"
  "fdb_kv fuel F" "\<lambda>t. below (ft_prefix t) (snap (ft_inner t))" "\<lambda>t. below (ft_prefix t) (pend (ft_inner t))"
  "\<lambda>t. below (ft_prefix t) (snap (ft_inner t))" "fdb_ok fuel F snap pend I"
  for S view J fuel F snap pend I ..

section \<open>Pages\<close>

text \<open>A database that returns one key with the first page and one more with each further page.\<close>

definition sample_fdb :: "(unit, (bytes, bytes) btree \<times> kv_view) fdb" where
  "sample_fdb = \<lparr>fdb_disable_read_your_writes = Inr, fdb_get_value = (\<lambda>k d. Inr (bt_get (fst d) k)),
     fdb_set = (\<lambda>k v d. (fst d, (snd d)(k \<mapsto> v))), fdb_clear = (\<lambda>k d. (fst d, (snd d)(k := None))),
     fdb_clear_range = (\<lambda>s e d. (fst d, \<lambda>k. if s \<le> k \<and> k < e then None else snd d k)),
     fdb_get_range = (\<lambda>b e n d. Inr (take (max 1 n) (map fst (filter (\<lambda>x. selects b (fst x) \<and> fst x < e) (fst d))))),
     fdb_commit_transaction = Inr, is_retryable_not_committed = (\<lambda>_. False)\<rparr>"

lemma range_keys_bt:
  assumes "bt_ok m"
  shows "range_keys (bt_get m) b e = map fst (filter (\<lambda>x. selects b (fst x) \<and> fst x < e) m)"
proof -
  have "{k. selects b k \<and> k < e \<and> bt_get m k \<noteq> None} = set (map fst (filter (\<lambda>x. selects b (fst x) \<and> fst x < e) m))"
    by (auto simp: map_of_eq_None_iff simp del: not_None_eq)
  moreover have "sorted_wrt (<) (map fst (filter (\<lambda>x. selects b (fst x) \<and> fst x < e) m))"
    using assms by (simp add: bt_ok_def sorted_wrt_map sorted_wrt_filter)
  ultimately show ?thesis unfolding range_keys_def
    by (simp only: strict_sorted_iff sorted_list_of_set.idem_if_sorted_distinct)
qed

lemma sample_fdb_laws: "fdb_laws sample_fdb (\<lambda>d. bt_get (fst d)) snd (\<lambda>d. bt_ok (fst d))"
  unfolding fdb_laws_def Let_def
proof (intro allI impI conjI)
  fix d :: "(bytes, bytes) btree \<times> kv_view" and b e n assume "bt_ok (fst d)"
  then show "\<exists>m > 0. fdb_get_range sample_fdb b e n d = Inr (take m (range_keys (bt_get (fst d)) b e))"
    by (intro exI [of _ "max 1 n"]) (simp add: range_keys_bt sample_fdb_def)
qed (simp_all add: sample_fdb_def finite_dom_map_of)

text \<open>
  C33. Complete scans over pages: however the database cuts a range into pages, reading the iterator of the
  FoundationDB store to its end terminates without a panic and yields every key of the range below the store's prefix
  exactly once, in ascending order.
\<close>

theorem fdb_scan_complete:
  assumes "fdb_laws F snap pend I" "I (ft_inner t)" "card (dom (snap (ft_inner t))) < fuel"
  shows "\<exists>ks. fdb_collect fuel F (ft_inner t) (fdb_scan_keys t s e) = Inr ks \<and> sorted_wrt (<) ks \<and>
    set ks = {k. s \<le> k \<and> k < e \<and> snap (ft_inner t) (ft_prefix t @ k) \<noteq> None}"
  using fdb_scan [OF assms] by (simp only: below_def)

theorem fdb_scan_complete_witness:
  "\<exists>ks. fdb_collect 6 sample_fdb (map (\<lambda>k. (k, [])) [[1], [2, 3], [2, 4], [2, 5], [3]], Map.empty)
      (fdb_scan_keys \<lparr>ft_inner = Map.empty :: kv_view, ft_prefix = [2]\<rparr> [3] [9]) = Inr ks \<and> sorted_wrt (<) ks \<and>
    set ks = {[3], [4], [5]}"
proof -
  let ?d = "(map (\<lambda>k. (k, [])) [[1], [2, 3], [2, 4], [2, 5], [3 :: byte]], Map.empty) :: (bytes, bytes) btree \<times> kv_view"
  let ?t = "\<lparr>ft_inner = ?d, ft_prefix = [2]\<rparr>"
  have ok: "bt_ok (fst ?d)" by (simp add: bt_ok_def)
  have c: "card (dom (bt_get (fst ?d))) < 6"
    unfolding dom_map_of_conv_image_fst by (simp add: card_insert_if)
  have "{k. [3] \<le> k \<and> k < [9] \<and> bt_get (fst ?d) ([2] @ k) \<noteq> None} = {[3], [4], [5]}" by auto
  with fdb_scan_complete [OF sample_fdb_laws, of ?t 6 "[3]" "[9]"] ok c show ?thesis by (simp add: fdb_scan_keys_def)
qed

end
