(* ===== verification/Exec_Commit.thy ===== *)
theory Exec_Commit
  imports Exec_Schedule Fdb_Kv
begin

text \<open>
  Whole runs of the executor, from the beginning of a transaction to its commit: the retry loop of
  \<^verbatim>\<open>run_graph\<close> over the in-memory and the SQLite store, what a run commits, that it makes
  progress, and what happens to scripts that use a node twice.
\<close>

section \<open>Runs on the in-memory store\<close>

definition mem_kv_store :: "('e, mem_store, mem_transaction) kv_store" where
  "mem_kv_store = \<lparr>ks_begin = (\<lambda>s. Inr (begin_transaction s)), ks_commit = mem_commit\<rparr>"

text \<open>The keys of a store that hold a value, as the reference evaluator reads them.\<close>

definition live :: "(bytes, bytes option \<times> 64 word) btree \<Rightarrow> (bytes, bytes) btree" where
  "live m = List.map_filter (\<lambda>(k, v, _). map_option (Pair k) v) m"

lemma live_simps [simp]: "live [] = []" "live ((k, v, n) # m) = (case v of None \<Rightarrow> live m | Some x \<Rightarrow> (k, x) # live m)"
  by (auto simp: live_def split: option.split)

lemma live_member: "k \<in> fst ` set (live m) \<Longrightarrow> k \<in> fst ` set m"
  by (induction m) (force split: option.splits)+

lemma live_above: "bt_ok ((k, v, n) # m) \<Longrightarrow> y \<in> set (live m) \<Longrightarrow> k < fst y"
  using live_member [of "fst y" m] by (auto simp: bt_ok_Cons)

lemma live_ok: "bt_ok m \<Longrightarrow> bt_ok (live m)"
proof (induction m)
  case (Cons x m)
  obtain k v n where x: "x = (k, v, n)" by (cases x)
  then show ?case using Cons live_above [of k v n m] by (auto simp: bt_ok_Cons split: option.split)
qed simp

lemma live_get: "bt_ok m \<Longrightarrow> bt_get (live m) = mem_view m"
proof (induction m)
  case (Cons x m)
  obtain k v n where x: "x = (k, v, n)" by (cases x)
  have "k \<notin> fst ` set (live m)" using Cons.prems x live_above [of k v n m] by fastforce
  then have "bt_get (live m) k = None" by (simp add: map_of_eq_None_iff)
  then show ?case using Cons x by (auto simp: bt_ok_Cons mem_view_def fun_eq_iff split: option.split)
qed (simp add: mem_view_def fun_eq_iff)

text \<open>A transaction that began on the content \<open>R\<close> keeps it as its snapshot.\<close>

interpretation mem_at: kv_snapshot "mem_kv :: ('e, mem_transaction) kv_transaction"
  "\<lambda>t. mem_view (mt_read_buffer t)" "\<lambda>t. mem_view (mt_buffer t)" "\<lambda>t. mem_view (mt_buffer t)"
  "\<lambda>t. mem_txn_ok t \<and> mt_read_buffer t = R" False for R
proof
  fix t :: mem_transaction and k v s e :: bytes assume t: "mem_txn_ok t \<and> mt_read_buffer t = R"
  show "kv_get (mem_kv :: ('e, mem_transaction) kv_transaction) t k = Inr (mem_view (mt_read_buffer t) k)"
    using mem.get_law t by blast
  show "\<exists>t'. kv_put (mem_kv :: ('e, mem_transaction) kv_transaction) t k v = Inr t' \<and> (mem_txn_ok t' \<and> mt_read_buffer t' = R) \<and>
      mem_view (mt_read_buffer t') = mem_view (mt_read_buffer t) \<and>
      mem_view (mt_buffer t') = (mem_view (mt_buffer t))(k \<mapsto> v)"
    using t by (simp add: mem_kv_def mem_put_def mem_write_simps(1) mem_write_view mem_write_ok)
  show "\<exists>t'. kv_delete (mem_kv :: ('e, mem_transaction) kv_transaction) t k = Inr t' \<and> (mem_txn_ok t' \<and> mt_read_buffer t' = R) \<and>
      mem_view (mt_read_buffer t') = mem_view (mt_read_buffer t) \<and>
      mem_view (mt_buffer t') = (mem_view (mt_buffer t))(k := None)"
    using t by (simp add: mem_kv_def mem_delete_def mem_write_simps(1) mem_write_view mem_write_ok)
  show "\<exists>t'. kv_delete_range (mem_kv :: ('e, mem_transaction) kv_transaction) t s e = Inr t' \<and> (mem_txn_ok t' \<and> mt_read_buffer t' = R) \<and>
      mem_view (mt_read_buffer t') = mem_view (mt_read_buffer t) \<and>
      mem_view (mt_buffer t') = (\<lambda>k. if s \<le> k \<and> k < e then None else mem_view (mt_buffer t) k)"
    using t mem_delete_range_law [of t s e] by (simp add: mem_kv_def)
  show "\<exists>ks. kv_scan_keys (mem_kv :: ('e, mem_transaction) kv_transaction) t s e = Inr ks \<and> sorted_wrt (<) ks \<and>
      set ks = {k. s \<le> k \<and> k < e \<and> mem_view (mt_buffer t) k \<noteq> None}"
    using mem.scan_law t by blast
qed simp_all

text \<open>A run that nobody disturbs commits what the reference collects.\<close>

lemma undisturbed_attempt:
  assumes "executor_ready ex" "ex_kv ex = (mem_kv :: ('e, mem_transaction) kv_transaction)"
    and "\<forall>g \<in> set (s_graphs (vm_script (ex_vm ex))). single_uses g" "bt_ok (ms_data s)"
    and "eval_graph E (log_executor False ex) MAX_RECURSION_DEPTH gi gps (at_log (live (ms_data s)) []) = Inr (v, st)"
    and "begin_transaction s = (t, s1)"
  shows "\<exists>t' s' ws. recursively_run_graph E ex pick MAX_RECURSION_DEPTH gi gps t = Inr (v, t') \<and> mem_txn_ok t' \<and> mem_commit t' s1 = Inr s' \<and>
    mset ws = mset (ls_log st) \<and> mem_view (ms_data s') = fold apply_write ws (mem_view (ms_data s)) \<and> bt_ok (ms_data s')"
proof -
  have t: "mem_txn_ok t" "mt_read_buffer t = ms_data s" "mt_buffer t = ms_data s" "ms_data s1 = ms_data s"
    using assms(4,6) by (auto simp: begin_transaction_def mem_txn_ok_def bt_ok_def)
  from mem_at.graph_follows [OF assms(1-3) live_ok [OF assms(4)], of t, where l = "[]" and E = E and pick = pick and left = MAX_RECURSION_DEPTH and gi = gi and gps = gps and R = "ms_data s"] t live_get [OF assms(4)]
  have "mem_at.follows (ms_data s) (live (ms_data s)) t [] (recursively_run_graph E ex pick MAX_RECURSION_DEPTH gi gps t)
      (eval_graph E (log_executor False ex) MAX_RECURSION_DEPTH gi gps (at_log (live (ms_data s)) []))" by simp
  from this [unfolded mem_at.follows_def, rule_format, OF assms(5)] obtain t' ws ws' where
    r: "st = at_log (live (ms_data s)) ([] @ ws)" "recursively_run_graph E ex pick MAX_RECURSION_DEPTH gi gps t = Inr (v, t')"
      "mem_txn_ok t'" "mt_read_buffer t' = ms_data s" "mset ws' = mset ws"
      "mem_view (mt_buffer t') = fold apply_write ws' (mem_view (mt_buffer t))" by blast
  obtain s' where "mem_commit t' s1 = Inr s'" "mem_view (ms_data s') = mem_view (mt_buffer t')" "bt_ok (ms_data s')"
    using own_commit [of t' s1] r(3,4) t(4) assms(4) by metis
  then show ?thesis using r t(3) by auto
qed


lemma checked_executor:
  assumes "covers_nodes kosaraju" "checked kosaraju vm info" "executor_new vm kv info = Inr ex"
  shows "executor_ready ex" "ex_kv ex = kv" "ex_vm ex = vm"
  using executor_new_ready [OF checked_forward [OF assms(1,2)], of kv info] assms(3) by auto


text \<open>The same holds on the FoundationDB store, whose scans see the snapshot as well.\<close>

interpretation fdb_snapshot: kv_snapshot "fdb_kv fuel F" "\<lambda>t. below (ft_prefix t) (snap (ft_inner t))"
  "\<lambda>t. below (ft_prefix t) (pend (ft_inner t))" "\<lambda>t. below (ft_prefix t) (snap (ft_inner t))" "fdb_ok fuel F snap pend I" True
  for fuel F snap pend I
  by unfold_locales simp_all

theorem schedule_independent_fdb:
  assumes "covers_nodes kosaraju" "checked kosaraju vm info" "\<forall>g \<in> set (s_graphs (vm_script vm)). single_uses g"
    and "executor_new vm (fdb_kv fuel F) info = Inr ex" "fdb_ok fuel F snap pend I t" "bt_ok D" "below (ft_prefix t) (snap (ft_inner t)) = bt_get D"
    and "eval_graph E (log_executor True ex) left gi gps (at_log D []) = Inr (v, st)"
  shows "\<exists>t' ws. recursively_run_graph E ex pick left gi gps t = Inr (v, t') \<and> mset ws = mset (ls_log st) \<and>
    below (ft_prefix t') (pend (ft_inner t')) = fold apply_write ws (below (ft_prefix t) (pend (ft_inner t)))"
proof -
  note ex = checked_executor [OF assms(1,2,4)]
  from fdb_snapshot.graph_follows [OF ex(1,2) _ assms(6,5,7), where l = "[]" and E = E and pick = pick and left = left and gi = gi and gps = gps]
  have "fdb_snapshot.follows snap pend fuel F I D t [] (recursively_run_graph E ex pick left gi gps t) (eval_graph E (log_executor True ex) left gi gps (at_log D []))"
    using assms(3) ex(3) by simp
  from this [unfolded fdb_snapshot.follows_def, rule_format, OF assms(8)] show ?thesis by auto
qed


lemma mem_commit_cases:
  assumes "mem_txn_ok t" "bt_ok (ms_data s)"
  obtains "mem_commit t s = Inl (Err Conflict)" | s' where "mem_commit t s = Inr s'" "bt_ok (ms_data s')"
  using mem_commit_spec [OF assms] that by (auto split: if_splits)

lemma attempts_progress:
  assumes "executor_ready ex" "ex_kv ex = (mem_kv :: ('e, mem_transaction) kv_transaction)"
    and "\<forall>g \<in> set (s_graphs (vm_script (ex_vm ex))). single_uses g"
    and others: "\<And>j s. bt_ok (ms_data s) \<Longrightarrow> bt_ok (ms_data (others j s))" "others i = (\<lambda>s. s)"
    and eval: "\<And>D. bt_ok D \<Longrightarrow> \<exists>r. eval_graph E (log_executor False ex) MAX_RECURSION_DEPTH gi gps (at_log D []) = Inr r"
  shows "i \<in> set is \<Longrightarrow> bt_ok (ms_data s) \<Longrightarrow> \<exists>v s'. run_attempts E ex mem_kv_store pick others is gi gps s = (Inr v, s')"
proof (induction "is" arbitrary: s)
  case (Cons j js)
  obtain t s1 where t: "begin_transaction s = (t, s1)" by (cases "begin_transaction s")
  then have s1: "ms_data s1 = ms_data s" by (auto simp: begin_transaction_def)
  obtain v st where "eval_graph E (log_executor False ex) MAX_RECURSION_DEPTH gi gps (at_log (live (ms_data s)) []) = Inr (v, st)"
    using eval [OF live_ok [OF Cons.prems(2)]] by auto
  from undisturbed_attempt [OF assms(1-3) Cons.prems(2) this t, of pick] obtain t' s'
    where r: "recursively_run_graph E ex pick MAX_RECURSION_DEPTH gi gps t = Inr (v, t')" "mem_txn_ok t'" "mem_commit t' s1 = Inr s'" by blast
  have ok: "bt_ok (ms_data (others j s1))" using others(1) s1 Cons.prems(2) by simp
  show ?case
  proof (rule mem_commit_cases [OF r(2) ok])
    assume c: "mem_commit t' (others j s1) = Inl (Err Conflict)"
    then have "i \<in> set js" using Cons.prems(1) others(2) r(3) by auto
    from Cons.IH [OF this ok] show ?thesis using c r(1) t by (simp add: mem_kv_store_def)
  qed (use r(1) t in \<open>simp add: mem_kv_store_def\<close>)
qed simp



text \<open>The store as the other clients leave it when none of the attempts \<open>is\<close> commits.\<close>

fun others_only :: "('e, 's, 't) kv_store \<Rightarrow> (nat \<Rightarrow> 's \<Rightarrow> 's) \<Rightarrow> nat list \<Rightarrow> 's \<Rightarrow> 's" where
  "others_only st others [] s = s"
| "others_only st others (i # is) s =
     (case ks_begin st s of Inl _ \<Rightarrow> s | Inr (_, s1) \<Rightarrow> others_only st others is (others i s1))"


lemma attempts_outcome:
  "case run_attempts E ex st pick others is gi gps s of
     (Inr v, s') \<Rightarrow> \<exists>xs i ys t s1 t'. is = xs @ i # ys \<and> ks_begin st (others_only st others xs s) = Inr (t, s1) \<and>
       recursively_run_graph E ex pick MAX_RECURSION_DEPTH gi gps t = Inr (v, t') \<and> ks_commit st t' (others i s1) = Inr s'
   | (Inl e, s') \<Rightarrow> \<exists>xs ys. is = xs @ ys \<and> s' = others_only st others xs s"
proof (induction "is" arbitrary: s)
  case (Cons i js)
  show ?case
  proof (cases "ks_begin st s")
    case (Inl e)
    then show ?thesis by (cases e) (auto intro: exI [of _ "[]"])
  next
    case (Inr p)
    obtain t s1 where p: "ks_begin st s = Inr (t, s1)" using Inr by (cases p) simp
    then have only: "others_only st others (i # xs) s = others_only st others xs (others i s1)" for xs by simp
    have stop: "\<exists>xs ys. i # js = xs @ ys \<and> others i s1 = others_only st others xs s"
      using only [of "[]"] by (metis append_Cons append_Nil others_only.simps(1))
    show ?thesis
    proof (cases "recursively_run_graph E ex pick MAX_RECURSION_DEPTH gi gps t")
      case (Inl e)
      then show ?thesis using p stop by simp
    next
      case (Inr r)
      obtain v t' where r: "recursively_run_graph E ex pick MAX_RECURSION_DEPTH gi gps t = Inr (v, t')" using Inr by (cases r) simp
      consider (committed) s' where "ks_commit st t' (others i s1) = Inr s'" | (conflict) "ks_commit st t' (others i s1) = Inl (Err Conflict)"
        | (failed) e where "ks_commit st t' (others i s1) = Inl e" "e \<noteq> Err Conflict" by (cases "ks_commit st t' (others i s1)") auto
      then show ?thesis
      proof cases
        case committed
        then show ?thesis using p r by (auto intro!: exI [of _ "[]"])
      next
        case conflict
        then have "run_attempts E ex st pick others (i # js) gi gps s = run_attempts E ex st pick others js gi gps (others i s1)"
          using p r by simp
        then show ?thesis using Cons.IH [of "others i s1"]
          by (auto split: prod.splits sum.splits simp: only simp del: others_only.simps) (metis append_Cons only)+
      next
        case failed
        then have "\<exists>e'. run_attempts E ex st pick others (i # js) gi gps s = (Inl e', others i s1)"
          using p r by (cases e) (auto simp: Let_def split: kv_error.split)
        then obtain e' where e': "run_attempts E ex st pick others (i # js) gi gps s = (Inl e', others i s1)" by blast
        show ?thesis unfolding e' using stop by simp
      qed
    qed
  qed
qed simp



section \<open>Runs of the sample script\<close>

definition sample_rules :: "fire_rule_table list" where
  "sample_rules = [
     [[\<lparr>fr_target = 1, fr_kind = ParamDep 0\<rparr>], [\<lparr>fr_target = 3, fr_kind = ParamDep 1\<rparr>],
      [\<lparr>fr_target = 3, fr_kind = ParamDep 0\<rparr>, \<lparr>fr_target = 4, fr_kind = ParamDep 0\<rparr>], [\<lparr>fr_target = 4, fr_kind = Precondition\<rparr>], []],
     [[\<lparr>fr_target = 2, fr_kind = ParamDep 0\<rparr>], [\<lparr>fr_target = 2, fr_kind = ParamDep 1\<rparr>], []]]"

definition sample_executor :: "('e, 't) kv_transaction \<Rightarrow> ('e, 't) executor" where
  "sample_executor kv = \<lparr>ex_vm = sample_vm, ex_kv = kv, ex_type_info = sample_info, ex_fire_rules = sample_rules\<rparr>"

definition sample_walker :: "path_walker" where
  "sample_walker = PathWalker (snd (hd list_plan)) (sample_key 0) None 1 True False (Some ''l'')"

definition sample_root :: vm_value where
  "sample_root = VMap [(''l'', VTable ''L<>'' (Resident sample_walker))]"


lemma sample_fire_rules: "mapR generate_fire_rules (s_graphs (vm_script sample_vm)) = (Inr sample_rules :: ('e exec_error, _) outcome)"
proof -
  have "mapR generate_fire_rules (s_graphs (vm_script sample_vm)) = (Inr sample_rules :: (unit exec_error, _) outcome)" by code_simp
  then show ?thesis
    using fire_rules_any checked_forward [OF single_components_cover sample_checked] unfolding mapR_Inr_iff list_all2_conv_all_nth by metis
qed

lemma sample_executor_new: "executor_new sample_vm kv sample_info = Inr (sample_executor kv)"
  by (simp add: executor_new_def sample_fire_rules sample_executor_def)

lemma node_runs:
  "run_node E vm kv call (LoadParam i) [] t gps ty = bindR (index_or_panic gps i) (\<lambda>v. Inr (Some v, t))"
  "run_node E vm kv call (LoadConst i) [] t gps ty = bindR (index_or_panic (vm_consts vm) i) (\<lambda>v. Inr (Some v, t))"
  "run_node E vm kv call (GetField i) [VMap m] t gps ty =
     bindR (ident_at vm i) (\<lambda>key. bindR (unwrap ''map field not found'' (bt_get m key)) (\<lambda>v. Inr (Some v, t)))"
  "run_node E vm kv call (InsertIntoTable i) [VPrimitive x, VTable c k] t gps ty =
     bindR (ident_at vm i) (\<lambda>key. bindR (insert_into_table E kv t key (VPrimitive x) (VTable c k)) (\<lambda>t'. Inr (None, t')))"
  "run_node E vm kv call (Call i) [VPrimitive x] t gps ty = call i [VPrimitive x] t"
  "run_node E vm kv call Add [VPrimitive x, VPrimitive y] t gps ty =
     bindR (add_values E (VPrimitive x) (VPrimitive y)) (\<lambda>v. Inr (Some v, t))"
  by (simp_all add: run_node_def Let_def index_or_panic_def nth_opt_def)

lemmas evaluated = eval_body_def eval_node_def eval_ready_def value_at_def arguments_def output_of_def node_runs
  index_or_panic_def nth_opt_def

lemma sample_fields:
  "ex_vm (log_executor scans (sample_executor kv)) = sample_vm" "ex_kv (log_executor scans (sample_executor kv)) = log_kv scans"
  "ex_type_info (log_executor scans (sample_executor kv)) = sample_info"
  "vm_consts sample_vm = [VPrimitive (PInt64 7)]" "vm_script sample_vm = sample_script"
  by (simp_all add: log_executor_def sample_executor_def sample_vm_def)

lemma sample_idents: "ident_at sample_vm 0 = Inr ''l''" "ident_at sample_vm (Suc 0) = Inr ''v''"
  by (simp_all add: ident_at_def index_or_panic_def nth_opt_def sample_vm_def sample_script_def)

lemma plus_eval:
  "eval_graph sample_externs (log_executor scans (sample_executor kv)) (Suc n) (Suc 0) [VPrimitive (PInt64 7)] t =
    Inr (Some (VPrimitive (PInt64 14)), t)"
  by (simp add: evaluated sample_fields sample_script_def sample_info_def add_values_def numeral_2_eq_2)

lemma store_seven:
  "insert_into_table sample_externs (log_kv scans :: ('e, log_store) kv_transaction) (at_log D []) ''v'' (VPrimitive (PInt64 7))
     (VTable ''L<>'' (Resident sample_walker)) =
   Inr (at_log D [WPut (sample_key 2) (rmp_to_vec sample_externs (PInt64 7))])"
  apply (simp add: insert_into_table_def sample_walker_def list_plan_def enter_field_def check_and_add_depth_def MAX_DEPTH_def log_kv_def generate_key_def generate_key_raw_def)
  done

lemma sample_eval:
  "eval_graph sample_externs (log_executor scans (sample_executor (kv :: ('e, 't) kv_transaction))) (Suc (Suc n)) 0 [sample_root] (at_log D []) =
    Inr (Some (VPrimitive (PInt64 14)), at_log D [WPut (sample_key 2) (rmp_to_vec sample_externs (PInt64 7))])"
  unfolding eval_graph.simps(2) [of _ _ "Suc n"]
  apply (simp del: eval_graph.simps(2) add: plus_eval evaluated sample_fields sample_idents store_seven sample_script_def sample_info_def sample_root_def)
  done


lemma depth_eq: "MAX_RECURSION_DEPTH = Suc (Suc 126)"
  by (simp add: MAX_RECURSION_DEPTH_def)

lemma sample_single: "\<forall>g \<in> set (s_graphs (vm_script sample_vm)). single_uses g"
  by (simp add: sample_vm_def sample_script_def single_uses_def sources_def)



text \<open>Another client that keeps writing the same field during the first nine attempts.\<close>

definition busy_client :: "nat \<Rightarrow> mem_store \<Rightarrow> mem_store" where
  "busy_client i s = (if i = 9 then s else s\<lparr>ms_data := bt_insert (sample_key 2) (Some [0], of_nat i + 1) (ms_data s)\<rparr>)"


section \<open>Sources that are used twice\<close>

definition one_graph :: "tw_graph \<Rightarrow> tw_vm" where
  "one_graph g = \<lparr>vm_schema = list_compiled, vm_storage_plan = list_plan,
     vm_script = \<lparr>s_graphs = [g], s_entry = 0, s_consts = [CPrimitive (PInt64 7)], s_idents = [], s_types = [TPrimitive Int64T]\<rparr>,
     vm_consts = [VPrimitive (PInt64 7)], vm_types = [TPrimitive Int64T], vm_exported = [(''main'', 0)]\<rparr>"

definition twice_graph :: tw_graph where
  "twice_graph = \<lparr>g_name = ''main'', g_exported = True, g_nodes = [(LoadConst 0, [], None), (Add, [0, 0], None)],
     g_output = Some 1, g_param_types = [], g_output_type = Some 0\<rparr>"

definition twice_info :: global_type_info where
  "twice_info = [\<lparr>gti_params = [], gti_nodes = [Some (TPrimitive Int64T), Some (TPrimitive Int64T)]\<rparr>]"

definition twice_executor :: "('e, 't) kv_transaction \<Rightarrow> ('e, 't) executor" where
  "twice_executor kv = \<lparr>ex_vm = one_graph twice_graph, ex_kv = kv, ex_type_info = twice_info,
     ex_fire_rules = [[[\<lparr>fr_target = 1, fr_kind = ParamDep 0\<rparr>, \<lparr>fr_target = 1, fr_kind = ParamDep 1\<rparr>], []]]\<rparr>"

lemma twice_checked: "checked single_components (one_graph twice_graph) twice_info"
  by code_simp

lemma twice_new: "executor_new (one_graph twice_graph) kv twice_info = Inr (twice_executor kv)"
  by (simp add: executor_new_def twice_executor_def one_graph_def twice_graph_def generate_fire_rules_def node_rules_def push_rule_def)

lemma twice_rounds:
  fixes t :: 't and run :: "tw_graph_node \<Rightarrow> vm_value list \<Rightarrow> 't \<Rightarrow> vm_type option \<Rightarrow> ('e exec_error, vm_value option \<times> 't) outcome"
  assumes "\<And>t ty. run (LoadConst 0) [] t ty = Inr (Some x, t)" "\<And>t ty. run Add [x, x] t ty = Inr (Some y, t)"
    "\<And>t ty. run Add [] t ty = Inl (Panic m)"
  defines "rules \<equiv> [[\<lparr>fr_target = Suc 0, fr_kind = ParamDep 0\<rparr>, \<lparr>fr_target = Suc 0, fr_kind = ParamDep (Suc 0)\<rparr>], []]"
    and "s \<equiv> \<lparr>rs_deps = [[], []], rs_pre = [True, True], rs_futures = [NodeRun (Suc 0) [x, x], NodeRun (Suc 0) []], rs_ret = None, rs_txn = t\<rparr>"
  shows "run_round run twice_graph (hd twice_info) rules 0 (initial_state twice_graph t) = Inr s"
    "run_round run twice_graph (hd twice_info) rules (Suc 0) s = Inl (Panic m)"
    "run_round run twice_graph (hd twice_info) rules 0 s = Inr (s\<lparr>rs_futures := [NodeRun (Suc 0) []], rs_ret := Some y\<rparr>)"
    "run_round run twice_graph (hd twice_info) rules 0 (s\<lparr>rs_futures := [NodeRun (Suc 0) []], rs_ret := Some y\<rparr>) = Inl (Panic m)"
  using assms(1-3) by (simp_all add: run_round_def run_future_def complete_node_def initial_state_def initial_futures_def twice_graph_def twice_info_def
      index_or_panic_def nth_opt_def record_result_def fire_def rules_def s_def swap_remove_def)


lemma mod_two: "k mod Suc (Suc 0) = 0 \<or> k mod Suc (Suc 0) = Suc 0"
  using mod_less_divisor [of "Suc (Suc 0)" k] by linarith

lemma twice_run: "recursively_run_graph E (twice_executor kv) pick (Suc n) 0 [] t = Inl (Panic ''index out of bounds'')"
proof -
  let ?rules = "[[\<lparr>fr_target = Suc 0, fr_kind = ParamDep 0\<rparr>, \<lparr>fr_target = Suc 0, fr_kind = ParamDep (Suc 0)\<rparr>], []]"
  let ?run = "\<lambda>node params t ty. run_node E (one_graph twice_graph) kv (recursively_run_graph E (twice_executor kv) pick n) node params t [] ty"
  have runs: "?run (LoadConst 0) [] t ty = Inr (Some (VPrimitive (PInt64 7)), t)"
    "?run Add [VPrimitive (PInt64 7), VPrimitive (PInt64 7)] t ty = Inr (Some (VPrimitive (PInt64 14)), t)"
    "?run Add [] t ty = Inl (Panic ''index out of bounds'')" for t ty
    by (simp_all add: run_node_def add_values_def index_or_panic_def nth_opt_def one_graph_def)
  note rounds = twice_rounds [of ?run, OF runs]
  have body: "recursively_run_graph E (twice_executor kv) pick (Suc n) 0 [] t =
      run_loop 4 (pick n 0) ?run twice_graph (hd twice_info) ?rules (initial_state twice_graph t)"
    by (simp add: run_body_def index_or_panic_def nth_opt_def twice_executor_def one_graph_def twice_info_def loop_fuel_def numeral_eq_Suc)
  have "rs_futures (initial_state twice_graph t) = [NodeRun 0 []]"
    by (simp add: initial_state_def initial_futures_def twice_graph_def)
  then show ?thesis
    using mod_two [of "pick n 0 (\<lparr>rs_deps = [[], []], rs_pre = [True, True], rs_futures = [NodeRun (Suc 0) [VPrimitive (PInt64 7), VPrimitive (PInt64 7)], NodeRun (Suc 0) []], rs_ret = None, rs_txn = t\<rparr>)"]
    unfolding body by (auto simp: rounds rounds(4) [simplified] run_loop_simps numeral_eq_Suc)
qed


lemma twice_eval: "eval_graph E (twice_executor kv) (Suc n) 0 [] t = Inr (Some (VPrimitive (PInt64 14)), t)"
  by (simp add: evaluated twice_executor_def one_graph_def twice_graph_def twice_info_def add_values_def)

definition both_graph :: tw_graph where
  "both_graph = \<lparr>g_name = ''main'', g_exported = True, g_nodes = [(LoadConst 0, [], None), (LoadConst 0, [], None), (Select, [0, 1], None)],
     g_output = Some 2, g_param_types = [], g_output_type = Some 0\<rparr>"

definition both_info :: global_type_info where
  "both_info = [\<lparr>gti_params = [], gti_nodes = [Some (TPrimitive Int64T), Some (TPrimitive Int64T), Some (TPrimitive Int64T)]\<rparr>]"

definition both_executor :: "('e, 't) kv_transaction \<Rightarrow> ('e, 't) executor" where
  "both_executor kv = \<lparr>ex_vm = one_graph both_graph, ex_kv = kv, ex_type_info = both_info,
     ex_fire_rules = [[[\<lparr>fr_target = 2, fr_kind = ParamDep 0\<rparr>], [\<lparr>fr_target = 2, fr_kind = ParamDep 1\<rparr>], []]]\<rparr>"

lemma both_checked: "checked single_components (one_graph both_graph) both_info"
  by code_simp

lemma both_new: "executor_new (one_graph both_graph) kv both_info = Inr (both_executor kv)"
  by (simp add: executor_new_def both_executor_def one_graph_def both_graph_def generate_fire_rules_def node_rules_def push_rule_def)

lemma both_rounds:
  fixes t :: 't and run :: "tw_graph_node \<Rightarrow> vm_value list \<Rightarrow> 't \<Rightarrow> vm_type option \<Rightarrow> ('e exec_error, vm_value option \<times> 't) outcome"
  assumes "\<And>t ty. run (LoadConst 0) [] t ty = Inr (Some x, t)"
  defines "rules \<equiv> [[\<lparr>fr_target = Suc (Suc 0), fr_kind = ParamDep 0\<rparr>], [\<lparr>fr_target = Suc (Suc 0), fr_kind = ParamDep (Suc 0)\<rparr>], []]"
    and "s \<equiv> \<lambda>i. \<lparr>rs_deps = [[], [], []], rs_pre = [True, True, True], rs_futures = [NodeRun i [], SelectRun (Suc (Suc 0)) x], rs_ret = None, rs_txn = t\<rparr>"
  shows "k = 0 \<or> k = Suc 0 \<Longrightarrow> run_round run both_graph (hd both_info) rules k (initial_state both_graph t) = Inr (s (Suc 0 - k))"
    "i = 0 \<or> i = Suc 0 \<Longrightarrow> run_round run both_graph (hd both_info) rules 0 (s i) = Inl (Panic ''index out of bounds'')"
    "i = 0 \<or> i = Suc 0 \<Longrightarrow> run_round run both_graph (hd both_info) rules (Suc 0) (s i) = Inr ((s i)\<lparr>rs_futures := [NodeRun i []], rs_ret := Some x\<rparr>)"
    "i = 0 \<or> i = Suc 0 \<Longrightarrow> run_round run both_graph (hd both_info) rules 0 ((s i)\<lparr>rs_futures := [NodeRun i []], rs_ret := Some x\<rparr>) = Inl (Panic ''index out of bounds'')"
  using assms(1) by (auto simp: run_round_def run_future_def complete_node_def initial_state_def initial_futures_def both_graph_def both_info_def
      index_or_panic_def nth_opt_def record_result_def fire_def rules_def s_def swap_remove_def numeral_eq_Suc)


lemma both_run: "recursively_run_graph E (both_executor kv) pick (Suc n) 0 [] t = Inl (Panic ''index out of bounds'')"
proof -
  let ?rules = "[[\<lparr>fr_target = Suc (Suc 0), fr_kind = ParamDep 0\<rparr>], [\<lparr>fr_target = Suc (Suc 0), fr_kind = ParamDep (Suc 0)\<rparr>], []]"
  let ?run = "\<lambda>node params t ty. run_node E (one_graph both_graph) kv (recursively_run_graph E (both_executor kv) pick n) node params t [] ty"
  let ?x = "VPrimitive (PInt64 7)"
  let ?s = "\<lambda>i. \<lparr>rs_deps = [[], [], []], rs_pre = [True, True, True], rs_futures = [NodeRun i [], SelectRun (Suc (Suc 0)) ?x], rs_ret = None, rs_txn = t\<rparr>"
  let ?loop = "\<lambda>fuel. run_loop fuel (pick n 0) ?run both_graph (hd both_info) ?rules"
  have "?run (LoadConst 0) [] t ty = Inr (Some ?x, t)" for t ty
    by (simp add: run_node_def index_or_panic_def nth_opt_def one_graph_def)
  note rounds = both_rounds [of ?run, OF this]
  have body: "recursively_run_graph E (both_executor kv) pick (Suc n) 0 [] t = ?loop (Suc (Suc (Suc (Suc (Suc 0))))) (initial_state both_graph t)"
    by (simp add: run_body_def index_or_panic_def nth_opt_def both_executor_def one_graph_def both_info_def loop_fuel_def numeral_eq_Suc)
  have rest: "?loop (Suc (Suc fuel)) (?s i) = Inl (Panic ''index out of bounds'')" if "i = 0 \<or> i = Suc 0" for i fuel
    using mod_two [of "pick n 0 (?s i)"] rounds(2-4) [OF that] by (auto simp: run_loop_simps)
  have futures: "rs_futures (initial_state both_graph t) = [NodeRun 0 [], NodeRun (Suc 0) []]"
    by (simp add: initial_state_def initial_futures_def both_graph_def)
  from mod_two [of "pick n 0 (initial_state both_graph t)"] show ?thesis unfolding body
    by (subst run_loop_simps(3)) (auto simp: futures rounds(1) rest)
qed

text \<open>
  Both candidates of a selection: when both candidates of a \<open>Select\<close> have a value, every schedule panics on the
  argument list that the first candidate left empty; the error \<open>BothSelectCandidatesFired\<close>
  is not reported.
\<close>

theorem both_candidates_panic:
  "checked single_components (one_graph both_graph) both_info \<and>
   executor_new (one_graph both_graph) kv both_info = Inr (both_executor kv) \<and>
   recursively_run_graph E (both_executor kv) pick MAX_RECURSION_DEPTH 0 [] t = Inl (Panic ''index out of bounds'')"
  using both_checked both_new both_run [of E kv pick 127 t] by (simp add: MAX_RECURSION_DEPTH_def del: recursively_run_graph.simps)

end
