(* ===== verification/Codegen.thy ===== *)
theory Codegen
  imports Typeck
begin

text \<open>
  The script assembler, \<^verbatim>\<open>treewalker/asm\<close>: the syntax trees of \<^verbatim>\<open>ast.rs\<close> and the code generator of
  \<^verbatim>\<open>codegen.rs\<close>, which flattens the statements of a graph into data-flow nodes and collects
  identifiers, types and constants in pools. The parser is generated from a grammar and is a
  parameter of \<open>compile_twscript\<close>. Source positions in the trees and the graph that every
  call of the generator passes along are never read and left out; a hash map is an association list, a
  \<^verbatim>\<open>u32\<close> index a natural number.
\<close>

section \<open>Syntax trees\<close>

datatype ast_type =
    AsTable string "ast_type list"
  | AsPrimitive primitive_type
  | AsSet ast_type
  | AsList ast_type
  | AsMap "(string \<times> ast_type) list"
  | AsBool
  | AsSchema

datatype literal =
    LitNull ast_type
  | LitBool bool
  | LitInteger "64 word"
  | LitHexBytes bytes
  | LitString string
  | LitEmptySet ast_type

datatype expr =
    ELoadConst literal
  | EBuildTable ast_type expr
  | EBuildSet expr
  | ECreateMap
  | EGetField string expr
  | EGetSetElement expr expr
  | EInsertIntoMap string expr expr
  | EInsertIntoTable string expr expr
  | EInsertIntoSet expr expr
  | EDeleteFromSet expr expr
  | EDeleteFromMap string expr
  | EEq expr expr
  | ENe expr expr
  | EAnd expr expr
  | EOr expr expr
  | ENot expr
  | ESelect expr expr
  | ENode string
  | EIsPresent expr
  | EIsNull expr
  | EOrElse expr expr
  | ECall string "expr list"
  | EAdd expr expr
  | ESub expr expr
  | ECreateList ast_type
  | EReduce string expr expr expr
  | ERangeReduce string expr expr expr expr expr
  | EPrepend expr expr
  | EPop expr
  | EHead expr

datatype stmt =
    SReturn expr
  | SNode "string option" expr
  | SIf expr "stmt list" "stmt list option"
  | SThrow expr

record ast_graph =
  ag_name :: string
  ag_exported :: bool
  ag_params :: "(string \<times> ast_type option) list"
  ag_return_type :: "ast_type option"
  ag_stmts :: "stmt list"

record alias_decl =
  ta_name :: string
  ta_ty :: ast_type

record root =
  r_graphs :: "ast_graph list"
  r_type_aliases :: "alias_decl list"

datatype tw_asm_error =
    InvalidLiteral
  | TypeUnsupportedInTable
  | NodeNotFound string
  | IdentifierNotFound string
  | DuplicateReturn
  | ParamNotFound string
  | DuplicateParam string
  | DuplicateGraph string
  | DuplicateNodeName string
  | DuplicateTypeAlias string
  | GraphNotFound string
  | ParseError string

section \<open>Pools and the builder\<close>

type_synonym 'k pool = "('k \<times> nat) list"

definition alloc :: "'k \<Rightarrow> 'k pool \<Rightarrow> nat \<times> 'k pool" where
  "alloc k pool = (case map_of pool k of Some i \<Rightarrow> (i, pool) | None \<Rightarrow> (length pool, (k, length pool) # pool))"

text \<open>The order in which a hash map is traversed does not matter, since the entries are sorted by index.\<close>

definition emit_pool :: "'k pool \<Rightarrow> 'k list" where
  "emit_pool pool = map fst (sort_key snd pool)"

record builder =
  b_graphs :: "tw_graph list"
  b_idents :: "string pool"
  b_types :: "vm_type pool"
  b_consts :: "vm_const pool"
  b_aliases :: "(string \<times> vm_type) list"
  b_root :: root

record graph_context =
  c_names :: "(string \<times> nat) list"
  c_builder :: builder
  c_target :: tw_graph
  c_conditions :: "nat list"

definition alloc_vmtype :: "vm_type \<Rightarrow> builder \<Rightarrow> nat \<times> builder" where
  "alloc_vmtype ty b = (case alloc ty (b_types b) of (i, pool) \<Rightarrow> (i, b\<lparr>b_types := pool\<rparr>))"

definition alloc_ident :: "string \<Rightarrow> builder \<Rightarrow> nat \<times> builder" where
  "alloc_ident x b = (case alloc x (b_idents b) of (i, pool) \<Rightarrow> (i, b\<lparr>b_idents := pool\<rparr>))"

definition alloc_const :: "vm_const \<Rightarrow> builder \<Rightarrow> nat \<times> builder" where
  "alloc_const x b = (case alloc x (b_consts b) of (i, pool) \<Rightarrow> (i, b\<lparr>b_consts := pool\<rparr>))"

definition emit_pools :: "builder \<Rightarrow> tw_script" where
  "emit_pools b = \<lparr>s_graphs = b_graphs b, s_entry = 0, s_consts = emit_pool (b_consts b), s_idents = emit_pool (b_idents b),
     s_types = emit_pool (b_types b)\<rparr>"

section \<open>Types and literals\<close>

fun format_primitive :: "primitive_type \<Rightarrow> string" where
  "format_primitive StringT = ''string''"
| "format_primitive BytesT = ''bytes''"
| "format_primitive Int64T = ''int64''"
| "format_primitive DoubleT = ''double''"

fun format_type_for_table :: "ast_type \<Rightarrow> (tw_asm_error, string) outcome" where
  "format_type_for_table (AsPrimitive x) = Inr (format_primitive x)"
| "format_type_for_table (AsSet x) = bindR (format_type_for_table x) (\<lambda>s. Inr (''set<'' @ s @ ''>''))"
| "format_type_for_table (AsTable name params) =
     bindR (mapR format_type_for_table params) (\<lambda>ps. Inr (name @ ''<'' @ join '', '' ps @ ''>''))"
| "format_type_for_table _ = Inl (Err TypeUnsupportedInTable)"

fun generate_vmtype :: "(string \<times> vm_type) list \<Rightarrow> ast_type \<Rightarrow> (tw_asm_error, vm_type) outcome" where
  "generate_vmtype aliases (AsPrimitive x) = Inr (TPrimitive x)"
| "generate_vmtype aliases (AsTable name params) =
     (case map_of aliases name of
        Some x \<Rightarrow> Inr x
      | None \<Rightarrow> bindR (format_type_for_table (AsTable name params)) (\<lambda>s. Inr (TTable s)))"
| "generate_vmtype aliases (AsSet x) = bindR (generate_vmtype aliases x) (\<lambda>ty. Inr (TSet ty))"
| "generate_vmtype aliases (AsMap x) =
     bindR (mapR (\<lambda>(k, v). bindR (generate_vmtype aliases v) (\<lambda>ty. Inr (k, ty))) x) (\<lambda>fields. Inr (TMap (bt_collect fields)))"
| "generate_vmtype aliases AsBool = Inr TBool"
| "generate_vmtype aliases AsSchema = Inr TSchema"
| "generate_vmtype aliases (AsList x) = bindR (generate_vmtype aliases x) (\<lambda>ty. Inr (TList ty))"

fun literal_to_vmconst :: "(string \<times> vm_type) list \<Rightarrow> literal \<Rightarrow> (tw_asm_error, vm_const) outcome" where
  "literal_to_vmconst aliases (LitNull ty) = bindR (generate_vmtype aliases ty) (\<lambda>t. Inr (CNull t))"
| "literal_to_vmconst aliases (LitBool x) = Inr (CBool x)"
| "literal_to_vmconst aliases (LitInteger x) = Inr (CPrimitive (PInt64 x))"
| "literal_to_vmconst aliases (LitHexBytes x) = Inr (CPrimitive (PBytes x))"
| "literal_to_vmconst aliases (LitString x) = Inr (CPrimitive (PString x))"
| "literal_to_vmconst aliases (LitEmptySet member_ty) = bindR (format_type_for_table member_ty) (\<lambda>s. Inr (CSet s []))"

section \<open>Nodes\<close>

definition push_node ::
  "tw_graph_node \<times> nat list \<times> nat option \<Rightarrow> string option \<Rightarrow> graph_context \<Rightarrow> (tw_asm_error, nat \<times> graph_context) outcome" where
  "push_node node name ctx =
     (let index = length (g_nodes (c_target ctx));
          ctx1 = ctx\<lparr>c_target := (c_target ctx)\<lparr>g_nodes := g_nodes (c_target ctx) @ [node]\<rparr>\<rparr> in
      case name of
        None \<Rightarrow> Inr (index, ctx1)
      | Some x \<Rightarrow>
          if map_of (c_names ctx) x \<noteq> None then Inl (Err (DuplicateNodeName x))
          else Inr (index, ctx1\<lparr>c_names := (x, index) # c_names ctx\<rparr>))"

definition lookup_node :: "string \<Rightarrow> graph_context \<Rightarrow> (tw_asm_error, nat) outcome" where
  "lookup_node name ctx = ok_or (NodeNotFound name) (map_of (c_names ctx) name)"

text \<open>The top of the condition stack comes first.\<close>

definition top_condition :: "graph_context \<Rightarrow> nat option" where
  "top_condition ctx = (case c_conditions ctx of [] \<Rightarrow> None | c # _ \<Rightarrow> Some c)"

definition push_condition :: "nat \<Rightarrow> graph_context \<Rightarrow> graph_context" where
  "push_condition c ctx = ctx\<lparr>c_conditions := c # c_conditions ctx\<rparr>"

definition pop_condition :: "graph_context \<Rightarrow> ('e, graph_context) outcome" where
  "pop_condition ctx =
     (case c_conditions ctx of
        [] \<Rightarrow> Inl (Panic ''called `Option::unwrap()` on a `None` value'')
      | _ # cs \<Rightarrow> Inr (ctx\<lparr>c_conditions := cs\<rparr>))"

definition generate_condition :: "nat \<Rightarrow> graph_context \<Rightarrow> (tw_asm_error, nat \<times> graph_context) outcome" where
  "generate_condition condition ctx =
     (case top_condition ctx of
        Some outer \<Rightarrow> push_node (AndN, [condition, outer], None) None ctx
      | None \<Rightarrow> Inr (condition, ctx))"

definition with_ident :: "string \<Rightarrow> graph_context \<Rightarrow> nat \<times> graph_context" where
  "with_ident x ctx = (case alloc_ident x (c_builder ctx) of (i, b) \<Rightarrow> (i, ctx\<lparr>c_builder := b\<rparr>))"

definition with_const :: "vm_const \<Rightarrow> graph_context \<Rightarrow> nat \<times> graph_context" where
  "with_const x ctx = (case alloc_const x (c_builder ctx) of (i, b) \<Rightarrow> (i, ctx\<lparr>c_builder := b\<rparr>))"

definition with_vmtype :: "vm_type \<Rightarrow> graph_context \<Rightarrow> nat \<times> graph_context" where
  "with_vmtype x ctx = (case alloc_vmtype x (c_builder ctx) of (i, b) \<Rightarrow> (i, ctx\<lparr>c_builder := b\<rparr>))"

fun find_index_from :: "nat \<Rightarrow> ('a \<Rightarrow> bool) \<Rightarrow> 'a list \<Rightarrow> nat option" where
  "find_index_from i P [] = None"
| "find_index_from i P (x # xs) = (if P x then Some i else find_index_from (Suc i) P xs)"

definition find_graph :: "string \<Rightarrow> graph_context \<Rightarrow> (tw_asm_error, nat) outcome" where
  "find_graph target ctx =
     ok_or (GraphNotFound target) (find_index_from 0 (\<lambda>g. ag_name g = target) (r_graphs (b_root (c_builder ctx))))"

section \<open>Expressions\<close>

fun generate_expr :: "string option \<Rightarrow> expr \<Rightarrow> graph_context \<Rightarrow> (tw_asm_error, nat \<times> graph_context) outcome" where
  "generate_expr name (ENode x) ctx = bindR (lookup_node x ctx) (\<lambda>i. Inr (i, ctx))"
| "generate_expr name (EAnd l r) ctx =
     (let pre = top_condition ctx in
      bindR (generate_expr None l ctx) (\<lambda>(l, ctx).
      bindR (generate_expr None r ctx) (\<lambda>(r, ctx).
      push_node (AndN, [l, r], pre) name ctx)))"
| "generate_expr name (EBuildTable ty m) ctx =
     (let pre = top_condition ctx in
      bindR (format_type_for_table ty) (\<lambda>ty.
      case with_ident ty ctx of (ty, ctx) \<Rightarrow>
      bindR (generate_expr None m ctx) (\<lambda>(m, ctx). push_node (BuildTable ty, [m], pre) name ctx)))"
| "generate_expr name ECreateMap ctx = push_node (CreateMap, [], top_condition ctx) name ctx"
| "generate_expr name (EDeleteFromMap field m) ctx =
     (let pre = top_condition ctx in
      case with_ident field ctx of (field, ctx) \<Rightarrow>
      bindR (generate_expr None m ctx) (\<lambda>(m, ctx). push_node (DeleteFromMap field, [m], pre) name ctx))"
| "generate_expr name (EDeleteFromSet s selector) ctx =
     (let pre = top_condition ctx in
      bindR (generate_expr None s ctx) (\<lambda>(s, ctx).
      bindR (generate_expr None selector ctx) (\<lambda>(selector, ctx).
      push_node (DeleteFromSet, [selector, s], pre) name ctx)))"
| "generate_expr name (EEq l r) ctx =
     (let pre = top_condition ctx in
      bindR (generate_expr None l ctx) (\<lambda>(l, ctx).
      bindR (generate_expr None r ctx) (\<lambda>(r, ctx).
      push_node (EqN, [l, r], pre) name ctx)))"
| "generate_expr name (EGetField field table_or_set) ctx =
     (let pre = top_condition ctx in
      case with_ident field ctx of (field, ctx) \<Rightarrow>
      bindR (generate_expr None table_or_set ctx) (\<lambda>(table_or_set, ctx). push_node (GetField field, [table_or_set], pre) name ctx))"
| "generate_expr name (EGetSetElement s selector) ctx =
     (let pre = top_condition ctx in
      bindR (generate_expr None s ctx) (\<lambda>(s, ctx).
      bindR (generate_expr None selector ctx) (\<lambda>(selector, ctx).
      push_node (GetSetElement, [selector, s], pre) name ctx)))"
| "generate_expr name (EInsertIntoMap field v m) ctx =
     (let pre = top_condition ctx in
      case with_ident field ctx of (field, ctx) \<Rightarrow>
      bindR (generate_expr None v ctx) (\<lambda>(v, ctx).
      bindR (generate_expr None m ctx) (\<lambda>(m, ctx).
      push_node (InsertIntoMap field, [v, m], pre) name ctx)))"
| "generate_expr name (EInsertIntoSet s v) ctx =
     (let pre = top_condition ctx in
      bindR (generate_expr None s ctx) (\<lambda>(s, ctx).
      bindR (generate_expr None v ctx) (\<lambda>(v, ctx).
      push_node (InsertIntoSet, [v, s], pre) name ctx)))"
| "generate_expr name (EInsertIntoTable field table v) ctx =
     (let pre = top_condition ctx in
      case with_ident field ctx of (field, ctx) \<Rightarrow>
      bindR (generate_expr None table ctx) (\<lambda>(table, ctx).
      bindR (generate_expr None v ctx) (\<lambda>(v, ctx).
      push_node (InsertIntoTable field, [v, table], pre) name ctx)))"
| "generate_expr name (ELoadConst x) ctx =
     (let pre = top_condition ctx in
      bindR (literal_to_vmconst (b_aliases (c_builder ctx)) x) (\<lambda>vmconst.
      case with_const vmconst ctx of (x, ctx) \<Rightarrow> push_node (LoadConst x, [], pre) name ctx))"
| "generate_expr name (ESelect l r) ctx =
     (let pre = top_condition ctx in
      bindR (generate_expr None l ctx) (\<lambda>(l, ctx).
      bindR (generate_expr None r ctx) (\<lambda>(r, ctx).
      push_node (Select, [l, r], pre) name ctx)))"
| "generate_expr name (ENe l r) ctx =
     (let pre = top_condition ctx in
      bindR (generate_expr None l ctx) (\<lambda>(l, ctx).
      bindR (generate_expr None r ctx) (\<lambda>(r, ctx).
      push_node (NeN, [l, r], pre) name ctx)))"
| "generate_expr name (EOr l r) ctx =
     (let pre = top_condition ctx in
      bindR (generate_expr None l ctx) (\<lambda>(l, ctx).
      bindR (generate_expr None r ctx) (\<lambda>(r, ctx).
      push_node (OrN, [l, r], pre) name ctx)))"
| "generate_expr name (ENot x) ctx =
     (let pre = top_condition ctx in
      bindR (generate_expr None x ctx) (\<lambda>(x, ctx). push_node (NotN, [x], pre) name ctx))"
| "generate_expr name (EIsPresent x) ctx =
     (let pre = top_condition ctx in
      bindR (generate_expr None x ctx) (\<lambda>(x, ctx). push_node (IsPresent, [x], pre) name ctx))"
| "generate_expr name (EIsNull x) ctx =
     (let pre = top_condition ctx in
      bindR (generate_expr None x ctx) (\<lambda>(x, ctx). push_node (IsNull, [x], pre) name ctx))"
| "generate_expr name (EOrElse l r) ctx =
     (let pre = top_condition ctx in
      bindR (generate_expr None l ctx) (\<lambda>(l, ctx).
      bindR (push_node (IsNull, [l], None) None ctx) (\<lambda>(comparator, ctx).
      bindR (push_node (NotN, [comparator], None) None ctx) (\<lambda>(not_comparator, ctx).
      bindR (generate_condition comparator ctx) (\<lambda>(condition, ctx).
      bindR (generate_expr None r (push_condition condition ctx)) (\<lambda>(on_null, ctx).
      bindR (pop_condition ctx) (\<lambda>ctx.
      bindR (generate_condition not_comparator ctx) (\<lambda>(condition, ctx).
      bindR (push_node (Nop, [l], Some condition) None ctx) (\<lambda>(on_notnull, ctx).
      push_node (Select, [on_null, on_notnull], pre) name ctx)))))))))"
| "generate_expr name (ECall target_graph params) ctx =
     (let pre = top_condition ctx in
      bindR (find_graph target_graph ctx) (\<lambda>i.
      bindR (mapSR (generate_expr None) params ctx) (\<lambda>(params, ctx). push_node (Call i, params, pre) name ctx)))"
| "generate_expr name (EAdd l r) ctx =
     (let pre = top_condition ctx in
      bindR (generate_expr None l ctx) (\<lambda>(l, ctx).
      bindR (generate_expr None r ctx) (\<lambda>(r, ctx).
      push_node (Add, [l, r], pre) name ctx)))"
| "generate_expr name (ESub l r) ctx =
     (let pre = top_condition ctx in
      bindR (generate_expr None l ctx) (\<lambda>(l, ctx).
      bindR (generate_expr None r ctx) (\<lambda>(r, ctx).
      push_node (Sub, [l, r], pre) name ctx)))"
| "generate_expr name (ECreateList ty) ctx =
     (let pre = top_condition ctx in
      bindR (generate_vmtype (b_aliases (c_builder ctx)) ty) (\<lambda>ty.
      case with_vmtype ty ctx of (ty, ctx) \<Rightarrow> push_node (CreateList ty, [], pre) name ctx))"
| "generate_expr name (EReduce target_graph subgraph_param reduce_init list_or_set) ctx =
     (let pre = top_condition ctx in
      bindR (find_graph target_graph ctx) (\<lambda>i.
      bindR (generate_expr None subgraph_param ctx) (\<lambda>(a, ctx).
      bindR (generate_expr None reduce_init ctx) (\<lambda>(b, ctx).
      bindR (generate_expr None list_or_set ctx) (\<lambda>(c, ctx).
      push_node (Reduce i False, [a, b, c], pre) name ctx)))))"
| "generate_expr name (ERangeReduce target_graph range_start range_end subgraph_param reduce_init list_or_set) ctx =
     (let pre = top_condition ctx in
      bindR (find_graph target_graph ctx) (\<lambda>i.
      bindR (generate_expr None subgraph_param ctx) (\<lambda>(a, ctx).
      bindR (generate_expr None reduce_init ctx) (\<lambda>(b, ctx).
      bindR (generate_expr None list_or_set ctx) (\<lambda>(c, ctx).
      bindR (generate_expr None range_start ctx) (\<lambda>(d, ctx).
      bindR (generate_expr None range_end ctx) (\<lambda>(e, ctx).
      push_node (Reduce i True, [a, b, c, d, e], pre) name ctx)))))))"
| "generate_expr name (EPrepend l r) ctx =
     (let pre = top_condition ctx in
      bindR (generate_expr None l ctx) (\<lambda>(l, ctx).
      bindR (generate_expr None r ctx) (\<lambda>(r, ctx).
      push_node (PrependToList, [l, r], pre) name ctx)))"
| "generate_expr name (EPop x) ctx =
     (let pre = top_condition ctx in
      bindR (generate_expr None x ctx) (\<lambda>(x, ctx). push_node (PopFromList, [x], pre) name ctx))"
| "generate_expr name (EHead x) ctx =
     (let pre = top_condition ctx in
      bindR (generate_expr None x ctx) (\<lambda>(x, ctx). push_node (ListHead, [x], pre) name ctx))"
| "generate_expr name (EBuildSet x) ctx =
     (let pre = top_condition ctx in
      bindR (generate_expr None x ctx) (\<lambda>(x, ctx). push_node (BuildSet, [x], pre) name ctx))"

section \<open>Statements and graphs\<close>

fun generate_stmt :: "stmt \<Rightarrow> graph_context \<Rightarrow> (tw_asm_error, graph_context) outcome" where
  "generate_stmt (SReturn val) ctx =
     bindR (generate_expr None val ctx) (\<lambda>(node, ctx).
     if g_output (c_target ctx) \<noteq> None then Inl (Err DuplicateReturn)
     else Inr (ctx\<lparr>c_target := (c_target ctx)\<lparr>g_output := Some node\<rparr>\<rparr>))"
| "generate_stmt (SIf precondition if_body else_body) ctx =
     bindR (generate_expr None precondition ctx) (\<lambda>(precondition, ctx).
     bindR (generate_condition precondition ctx) (\<lambda>(condition_true, ctx).
     bindR (foldR (\<lambda>ctx stmt. generate_stmt stmt ctx) (push_condition condition_true ctx) if_body) (\<lambda>ctx.
     bindR (pop_condition ctx) (\<lambda>ctx.
     case else_body of
       None \<Rightarrow> Inr ctx
     | Some else_body \<Rightarrow>
         bindR (push_node (NotN, [precondition], None) None ctx) (\<lambda>(precondition, ctx).
         bindR (generate_condition precondition ctx) (\<lambda>(condition_false, ctx).
         bindR (foldR (\<lambda>ctx stmt. generate_stmt stmt ctx) (push_condition condition_false ctx) else_body) pop_condition))))))"
| "generate_stmt (SNode name val) ctx = bindR (generate_expr name val ctx) (\<lambda>(_, ctx). Inr ctx)"
| "generate_stmt (SThrow val) ctx =
     bindR (generate_expr None val ctx) (\<lambda>(x, ctx).
     bindR (push_node (Throw, [x], top_condition ctx) None ctx) (\<lambda>(_, ctx). Inr ctx))"

definition param_type :: "string \<times> ast_type option \<Rightarrow> builder \<Rightarrow> (tw_asm_error, nat \<times> builder) outcome" where
  "param_type p b =
     bindR (case snd p of Some ty \<Rightarrow> generate_vmtype (b_aliases b) ty | None \<Rightarrow> Inr TUnknown) (\<lambda>ty. Inr (alloc_vmtype ty b))"

definition graph_target :: "ast_graph \<Rightarrow> builder \<Rightarrow> (tw_asm_error, tw_graph \<times> builder) outcome" where
  "graph_target g b =
     bindR (mapSR param_type (ag_params g) b) (\<lambda>(param_types, b).
     bindR (option_mapR (generate_vmtype (b_aliases b)) (ag_return_type g)) (\<lambda>ty.
     case (case ty of None \<Rightarrow> (None, b) | Some x \<Rightarrow> apfst Some (alloc_vmtype x b)) of (output_type, b) \<Rightarrow>
     Inr (\<lparr>g_name = ag_name g, g_exported = ag_exported g, g_nodes = [], g_output = None, g_param_types = param_types,
       g_output_type = output_type\<rparr>, b)))"

definition load_param :: "graph_context \<Rightarrow> nat \<times> string \<times> ast_type option \<Rightarrow> (tw_asm_error, graph_context) outcome" where
  "load_param ctx p =
     (case p of (i, name, _) \<Rightarrow> bindR (push_node (LoadParam i, [], None) (Some name) ctx) (\<lambda>(_, ctx). Inr ctx))"

definition generate_graph :: "builder \<Rightarrow> ast_graph \<Rightarrow> (tw_asm_error, builder) outcome" where
  "generate_graph b g =
     (case first_duplicate (map fst (ag_params g)) of
        Some x \<Rightarrow> Inl (Err (DuplicateParam x))
      | None \<Rightarrow>
          bindR (graph_target g b) (\<lambda>(target, b).
          bindR (foldR load_param \<lparr>c_names = [], c_builder = b, c_target = target, c_conditions = []\<rparr> (enumerate 0 (ag_params g))) (\<lambda>ctx.
          bindR (foldR (\<lambda>ctx stmt. generate_stmt stmt ctx) ctx (ag_stmts g)) (\<lambda>ctx.
          Inr ((c_builder ctx)\<lparr>b_graphs := b_graphs (c_builder ctx) @ [c_target ctx]\<rparr>)))))"

definition add_alias :: "builder \<Rightarrow> alias_decl \<Rightarrow> (tw_asm_error, builder) outcome" where
  "add_alias b alias =
     bindR (generate_vmtype (b_aliases b) (ta_ty alias)) (\<lambda>ty. Inr (b\<lparr>b_aliases := (ta_name alias, ty) # b_aliases b\<rparr>))"

definition compile_root :: "root \<Rightarrow> (tw_asm_error, tw_script) outcome" where
  "compile_root root =
     (case first_duplicate (map ag_name (r_graphs root)) of
        Some x \<Rightarrow> Inl (Err (DuplicateGraph x))
      | None \<Rightarrow>
     case first_duplicate (map ta_name (r_type_aliases root)) of
        Some x \<Rightarrow> Inl (Err (DuplicateTypeAlias x))
      | None \<Rightarrow>
          bindR (foldR add_alias \<lparr>b_graphs = [], b_idents = [], b_types = [], b_consts = [], b_aliases = [], b_root = root\<rparr> (r_type_aliases root)) (\<lambda>b.
          bindR (foldR generate_graph b (r_graphs root)) (\<lambda>b. Inr (emit_pools b))))"

definition compile_twscript :: "(string \<Rightarrow> string + root) \<Rightarrow> string \<Rightarrow> (tw_asm_error, tw_script) outcome" where
  "compile_twscript parse input =
     (case parse input of Inl e \<Rightarrow> Inl (Err (ParseError e)) | Inr root \<Rightarrow> compile_root root)"

end
