(* ===== verification/Codegen_Wf.thy ===== *)
theory Codegen_Wf
  imports Codegen Exec_Runs
begin

text \<open>
  What the script assembler guarantees: it never panics, the nodes of a graph only refer to earlier nodes, and every
  index into a pool, the parameters or the graph list is in range.
\<close>

section \<open>Pools\<close>

definition pool_ok :: "'k pool \<Rightarrow> bool" where
  "pool_ok p \<longleftrightarrow> map snd p = rev [0..<length p] \<and> distinct (map fst p)"

lemma pool_ok_Nil [simp]: "pool_ok []"
  by (simp add: pool_ok_def)

lemma alloc_grows:
  assumes "pool_ok p" "alloc k p = (i, q)"
  shows "pool_ok q" "suffix p q" "map_of q k = Some i"
  using assms by (auto simp: alloc_def pool_ok_def suffix_def map_of_eq_None_iff split: option.splits)

lemma pool_nth: "pool_ok p \<Longrightarrow> j < length p \<Longrightarrow> snd (p ! j) = length p - Suc j"
  using nth_map [of j p snd] by (simp add: pool_ok_def rev_nth)

lemma pool_index:
  assumes "pool_ok p" "map_of p k = Some i"
  shows "i < length p" "fst (p ! (length p - Suc i)) = k"
proof -
  obtain j where j: "j < length p" "p ! j = (k, i)" using map_of_SomeD [OF assms(2)] by (auto simp: in_set_conv_nth)
  then have "i = length p - Suc j" using pool_nth [OF assms(1) j(1)] by simp
  then show "i < length p" "fst (p ! (length p - Suc i)) = k" using j by (auto simp: Suc_diff_Suc)
qed

lemma emit_pool_rev: "pool_ok p \<Longrightarrow> emit_pool p = rev (map fst p)"
proof -
  assume p: "pool_ok p"
  have "sort_key snd p = rev p"
  proof (rule sort_key_inj_key_eq)
    show "sorted (map snd (rev p))" using p by (simp add: pool_ok_def rev_map [symmetric])
    have "distinct (map snd p)" using p by (simp add: pool_ok_def)
    then show "inj_on snd (set p)" by (simp add: distinct_map)
  qed simp
  then show ?thesis by (simp add: emit_pool_def rev_map)
qed

lemma emitted_nth: "pool_ok p \<Longrightarrow> map_of p k = Some i \<Longrightarrow> emit_pool p ! i = k"
  using pool_index [of p k i] by (simp add: emit_pool_rev rev_nth)

lemma pool_suffix: "pool_ok q \<Longrightarrow> suffix p q \<Longrightarrow> map_of p k = Some i \<Longrightarrow> map_of q k = Some i"
  by (auto simp: suffix_def pool_ok_def map_add_def split: option.split dest!: map_of_SomeD)


section \<open>Well-formed contexts\<close>

text \<open>How many entries the pools and the graph list have, which bounds the indices that a node may use.\<close>

record limits =
  l_idents :: nat
  l_types :: nat
  l_consts :: nat
  l_graphs :: nat

definition builder_limits :: "builder \<Rightarrow> limits" where
  "builder_limits b = \<lparr>l_idents = length (b_idents b), l_types = length (b_types b), l_consts = length (b_consts b),
     l_graphs = length (r_graphs (b_root b))\<rparr>"

definition script_limits :: "tw_script \<Rightarrow> limits" where
  "script_limits s = \<lparr>l_idents = length (s_idents s), l_types = length (s_types s), l_consts = length (s_consts s),
     l_graphs = length (s_graphs s)\<rparr>"

fun fits :: "limits \<Rightarrow> nat \<Rightarrow> tw_graph_node \<Rightarrow> bool" where
  "fits L np (LoadParam i) = (i < np)"
| "fits L np (LoadConst i) = (i < l_consts L)"
| "fits L np (BuildTable i) = (i < l_idents L)"
| "fits L np (GetField i) = (i < l_idents L)"
| "fits L np (InsertIntoMap i) = (i < l_idents L)"
| "fits L np (InsertIntoTable i) = (i < l_idents L)"
| "fits L np (DeleteFromMap i) = (i < l_idents L)"
| "fits L np (CreateList i) = (i < l_types L)"
| "fits L np (Reduce i _) = (i < l_graphs L)"
| "fits L np (Call i) = (i < l_graphs L)"
| "fits L np (FilterSet i) = (i < l_graphs L)"
| "fits L np _ = True"

definition node_ok :: "limits \<Rightarrow> nat \<Rightarrow> nat \<Rightarrow> tw_graph_node \<times> nat list \<times> nat option \<Rightarrow> bool" where
  "node_ok L np j node = (case node of (n, ins, pre) \<Rightarrow> fits L np n \<and> (\<forall>i \<in> set ins. i < j) \<and> (\<forall>i. pre = Some i \<longrightarrow> i < j))"

definition builder_ok :: "builder \<Rightarrow> bool" where
  "builder_ok b \<longleftrightarrow> pool_ok (b_idents b) \<and> pool_ok (b_types b) \<and> pool_ok (b_consts b)"

definition graph_ok :: "limits \<Rightarrow> tw_graph \<Rightarrow> bool" where
  "graph_ok L g \<longleftrightarrow> (\<forall>j < length (g_nodes g). node_ok L (length (g_param_types g)) j (g_nodes g ! j)) \<and>
     (\<forall>i. g_output g = Some i \<longrightarrow> i < length (g_nodes g)) \<and>
     (\<forall>i \<in> set (g_param_types g). i < l_types L) \<and> (\<forall>i. g_output_type g = Some i \<longrightarrow> i < l_types L)"

abbreviation size_of :: "graph_context \<Rightarrow> nat" where
  "size_of ctx \<equiv> length (g_nodes (c_target ctx))"

definition ctx_ok :: "graph_context \<Rightarrow> bool" where
  "ctx_ok ctx \<longleftrightarrow> builder_ok (c_builder ctx) \<and> graph_ok (builder_limits (c_builder ctx)) (c_target ctx) \<and>
     (\<forall>i \<in> set (c_conditions ctx). i < size_of ctx) \<and> (\<forall>x \<in> set (c_names ctx). snd x < size_of ctx)"

definition builder_grows :: "builder \<Rightarrow> builder \<Rightarrow> bool" where
  "builder_grows b b' \<longleftrightarrow> suffix (b_idents b) (b_idents b') \<and> suffix (b_types b) (b_types b') \<and> suffix (b_consts b) (b_consts b') \<and>
     b_aliases b' = b_aliases b \<and> b_root b' = b_root b \<and> b_graphs b' = b_graphs b"

definition grows :: "graph_context \<Rightarrow> graph_context \<Rightarrow> bool" where
  "grows c c' \<longleftrightarrow> builder_grows (c_builder c) (c_builder c') \<and> prefix (g_nodes (c_target c)) (g_nodes (c_target c')) \<and>
     g_param_types (c_target c') = g_param_types (c_target c) \<and> g_output_type (c_target c') = g_output_type (c_target c) \<and>
     g_name (c_target c') = g_name (c_target c) \<and> g_exported (c_target c') = g_exported (c_target c) \<and>
     c_conditions c' = c_conditions c"

definition emits :: "graph_context \<Rightarrow> (tw_asm_error, nat \<times> graph_context) outcome \<Rightarrow> bool" where
  "emits ctx r \<longleftrightarrow> settled r \<and> (\<forall>i ctx'. r = Inr (i, ctx') \<longrightarrow> grows ctx ctx' \<and> ctx_ok ctx' \<and> i < size_of ctx')"

lemma builder_grows_refl [simp]: "builder_grows b b"
  by (simp add: builder_grows_def)

lemma builder_grows_trans: "builder_grows a b \<Longrightarrow> builder_grows b c \<Longrightarrow> builder_grows a c"
  by (auto simp: builder_grows_def elim: suffix_order.trans)

lemma grows_refl [simp]: "grows c c"
  by (simp add: grows_def)

lemma grows_trans: "grows a b \<Longrightarrow> grows b c \<Longrightarrow> grows a c"
  by (auto simp: grows_def elim: builder_grows_trans prefix_order.trans)

lemma grows_size: "grows a b \<Longrightarrow> size_of a \<le> size_of b"
  by (simp add: grows_def prefix_length_le)

definition limits_le :: "limits \<Rightarrow> limits \<Rightarrow> bool" where
  "limits_le L L' \<longleftrightarrow> l_idents L \<le> l_idents L' \<and> l_types L \<le> l_types L' \<and> l_consts L \<le> l_consts L' \<and> l_graphs L \<le> l_graphs L'"

lemma builder_grows_limits: "builder_grows b b' \<Longrightarrow> limits_le (builder_limits b) (builder_limits b')"
  by (simp add: builder_grows_def limits_le_def builder_limits_def suffix_length_le)

lemma fits_mono: "fits L np n \<Longrightarrow> limits_le L L' \<Longrightarrow> fits L' np n"
  by (cases n) (auto simp: limits_le_def)

lemma graph_ok_mono: "graph_ok L g \<Longrightarrow> limits_le L L' \<Longrightarrow> graph_ok L' g"
  using fits_mono [of L _ _ L'] by (fastforce simp: graph_ok_def node_ok_def limits_le_def split: prod.splits)

text \<open>What later contexts keep, as plain inequalities and equations.\<close>

definition later :: "graph_context \<Rightarrow> graph_context \<Rightarrow> bool" where
  "later c c' \<longleftrightarrow> size_of c \<le> size_of c' \<and> length (b_idents (c_builder c)) \<le> length (b_idents (c_builder c')) \<and>
     b_root (c_builder c') = b_root (c_builder c) \<and> c_conditions c' = c_conditions c \<and> top_condition c' = top_condition c"

lemma grows_later: "grows c c' \<Longrightarrow> later c c'"
  by (auto simp: later_def grows_def builder_grows_def top_condition_def prefix_length_le suffix_length_le)

lemma emits_bind:
  assumes "emits ctx r" "\<And>i ctx'. later ctx ctx' \<Longrightarrow> ctx_ok ctx' \<Longrightarrow> i < size_of ctx' \<Longrightarrow> emits ctx' (k i ctx')"
  shows "emits ctx (bindR r (\<lambda>(i, ctx). k i ctx))"
proof (cases r)
  case (Inr x)
  obtain i ctx' where x: "x = (i, ctx')" by (cases x)
  then have "grows ctx ctx'" "emits ctx' (k i ctx')" using assms Inr grows_later by (auto simp: emits_def)
  then show ?thesis using Inr x grows_trans by (fastforce simp: emits_def)
qed (use assms(1) in \<open>simp add: emits_def\<close>)

lemma emits_push:
  assumes "ctx_ok ctx" "node_ok (builder_limits (c_builder ctx)) (length (g_param_types (c_target ctx))) (size_of ctx) node"
  shows "emits ctx (push_node node name ctx)"
  using assms by (auto simp: emits_def push_node_def ctx_ok_def graph_ok_def grows_def nth_append less_Suc_eq Let_def split: option.splits)

lemma emits_pure: "settled r \<Longrightarrow> (\<And>x. r = Inr x \<Longrightarrow> emits ctx (k x)) \<Longrightarrow> emits ctx (bindR r k)"
  by (cases r) (auto simp: emits_def)

lemma alloc_ok:
  assumes "pool_ok p" "alloc k p = (i, q)"
  shows "pool_ok q \<and> suffix p q \<and> i < length q"
  using alloc_grows [OF assms] pool_index(1) [of q k i] by simp

lemma builder_allocs:
  assumes "builder_ok b"
  shows "alloc_ident x b = (i, b') \<Longrightarrow> builder_grows b b' \<and> builder_ok b' \<and> i < length (b_idents b')"
    "alloc_const c b = (i, b') \<Longrightarrow> builder_grows b b' \<and> builder_ok b' \<and> i < length (b_consts b')"
    "alloc_vmtype t b = (i, b') \<Longrightarrow> builder_grows b b' \<and> builder_ok b' \<and> i < length (b_types b')"
  using assms alloc_ok [of "b_idents b" x i] alloc_ok [of "b_consts b" c i] alloc_ok [of "b_types b" t i]
  by (auto simp: alloc_ident_def alloc_const_def alloc_vmtype_def builder_ok_def builder_grows_def split: prod.splits)

lemma emits_alloc:
  assumes "ctx_ok ctx" "builder_grows (c_builder ctx) b \<and> builder_ok b \<and> Q b"
    and "\<And>ctx'. later ctx ctx' \<Longrightarrow> ctx_ok ctx' \<Longrightarrow> Q (c_builder ctx') \<Longrightarrow> emits ctx' (k ctx')"
  shows "emits ctx (k (ctx\<lparr>c_builder := b\<rparr>))"
proof -
  let ?ctx = "ctx\<lparr>c_builder := b\<rparr>"
  have g: "grows ctx ?ctx" using assms(2) by (simp add: grows_def)
  have "ctx_ok ?ctx" using assms(1,2) graph_ok_mono builder_grows_limits by (auto simp: ctx_ok_def)
  then have "emits ?ctx (k ?ctx)" using assms(2,3) grows_later [OF g] by simp
  then show ?thesis using g grows_trans by (fastforce simp: emits_def)
qed

lemma emits_ident:
  assumes "ctx_ok ctx"
    and "\<And>i ctx'. later ctx ctx' \<Longrightarrow> ctx_ok ctx' \<Longrightarrow> i < length (b_idents (c_builder ctx')) \<Longrightarrow> emits ctx' (k i ctx')"
  shows "emits ctx (case with_ident x ctx of (i, ctx) \<Rightarrow> k i ctx)"
proof -
  obtain i b where b: "alloc_ident x (c_builder ctx) = (i, b)" by (cases "alloc_ident x (c_builder ctx)")
  have "builder_ok (c_builder ctx)" using assms(1) by (simp add: ctx_ok_def)
  from emits_alloc [where Q = "\<lambda>b. i < length (b_idents b)" and k = "k i", OF assms(1) builder_allocs(1) [OF this b]] assms(2) show ?thesis
    by (simp add: with_ident_def b)
qed

lemma emits_const:
  assumes "ctx_ok ctx"
    and "\<And>i ctx'. later ctx ctx' \<Longrightarrow> ctx_ok ctx' \<Longrightarrow> i < length (b_consts (c_builder ctx')) \<Longrightarrow> emits ctx' (k i ctx')"
  shows "emits ctx (case with_const x ctx of (i, ctx) \<Rightarrow> k i ctx)"
proof -
  obtain i b where b: "alloc_const x (c_builder ctx) = (i, b)" by (cases "alloc_const x (c_builder ctx)")
  have "builder_ok (c_builder ctx)" using assms(1) by (simp add: ctx_ok_def)
  from emits_alloc [where Q = "\<lambda>b. i < length (b_consts b)" and k = "k i", OF assms(1) builder_allocs(2) [OF this b]] assms(2) show ?thesis
    by (simp add: with_const_def b)
qed

lemma emits_vmtype:
  assumes "ctx_ok ctx"
    and "\<And>i ctx'. later ctx ctx' \<Longrightarrow> ctx_ok ctx' \<Longrightarrow> i < length (b_types (c_builder ctx')) \<Longrightarrow> emits ctx' (k i ctx')"
  shows "emits ctx (case with_vmtype x ctx of (i, ctx) \<Rightarrow> k i ctx)"
proof -
  obtain i b where b: "alloc_vmtype x (c_builder ctx) = (i, b)" by (cases "alloc_vmtype x (c_builder ctx)")
  have "builder_ok (c_builder ctx)" using assms(1) by (simp add: ctx_ok_def)
  from emits_alloc [where Q = "\<lambda>b. i < length (b_types b)" and k = "k i", OF assms(1) builder_allocs(3) [OF this b]] assms(2) show ?thesis
    by (simp add: with_vmtype_def b)
qed

lemma top_condition_less: "ctx_ok ctx \<Longrightarrow> top_condition ctx = Some i \<Longrightarrow> i < size_of ctx"
  by (auto simp: top_condition_def ctx_ok_def split: list.splits)

lemma emits_condition: "ctx_ok ctx \<Longrightarrow> c < size_of ctx \<Longrightarrow> emits ctx (generate_condition c ctx)"
  using top_condition_less [of ctx]
  by (auto simp: generate_condition_def node_ok_def emits_def [of _ "Inr _"] intro!: emits_push split: option.split)

lemma emits_under:
  assumes "ctx_ok ctx" "c < size_of ctx" "\<And>ctx. ctx_ok ctx \<Longrightarrow> emits ctx (f ctx)"
    and "\<And>i ctx'. later ctx ctx' \<Longrightarrow> ctx_ok ctx' \<Longrightarrow> i < size_of ctx' \<Longrightarrow> emits ctx' (k i ctx')"
  shows "emits ctx (bindR (f (push_condition c ctx)) (\<lambda>(i, ctx). bindR (pop_condition ctx) (\<lambda>ctx. k i ctx)))"
proof (cases "f (push_condition c ctx)")
  case (Inl e)
  have "emits (push_condition c ctx) (f (push_condition c ctx))" using assms(1-3) by (simp add: push_condition_def ctx_ok_def)
  then show ?thesis using Inl by (simp add: emits_def)
next
  case (Inr x)
  obtain i ctx' where x: "x = (i, ctx')" by (cases x)
  have "emits (push_condition c ctx) (f (push_condition c ctx))" using assms(1-3) by (simp add: push_condition_def ctx_ok_def)
  then have e: "grows (push_condition c ctx) ctx'" "ctx_ok ctx'" "i < size_of ctx'" using Inr x by (auto simp: emits_def)
  then have stack: "c_conditions ctx' = c # c_conditions ctx" by (simp add: grows_def push_condition_def)
  let ?ctx = "ctx'\<lparr>c_conditions := c_conditions ctx\<rparr>"
  have g: "grows ctx ?ctx" using e(1) by (simp add: grows_def push_condition_def)
  have "ctx_ok ?ctx" using e(2) stack by (simp add: ctx_ok_def)
  then have "emits ?ctx (k i ?ctx)" using assms(4) [OF grows_later [OF g]] e(3) by simp
  then have "emits ctx (k i ?ctx)" using g grows_trans by (fastforce simp: emits_def)
  then show ?thesis using Inr x stack by (simp add: pop_condition_def)
qed


section \<open>Expressions\<close>

lemma settled_format: "settled (format_type_for_table ty)"
  by (induction ty rule: format_type_for_table.induct) (auto intro!: fails_only_bindR fails_only_mapR)

lemma settled_vmtype: "settled (generate_vmtype aliases ty)"
  by (induction aliases ty rule: generate_vmtype.induct)
    (auto intro!: fails_only_bindR fails_only_mapR settled_format simp del: format_type_for_table.simps split: option.split prod.splits)

lemma settled_const: "settled (literal_to_vmconst aliases x)"
  by (cases x) (auto intro!: fails_only_bindR settled_vmtype settled_format)

lemma find_index_less: "find_index_from i P xs = Some j \<Longrightarrow> j < i + length xs"
  by (induction i P xs rule: find_index_from.induct) (auto split: if_splits)

lemma find_graph_less: "find_graph x ctx = Inr i \<Longrightarrow> i < length (r_graphs (b_root (c_builder ctx)))"
  using find_index_less [of 0] by (auto simp: find_graph_def ok_or_Inr_iff)

lemma settled_find_graph: "settled (find_graph x ctx)"
  by (simp add: find_graph_def settled_ok_or)

lemma emits_lookup: "ctx_ok ctx \<Longrightarrow> emits ctx (bindR (lookup_node x ctx) (\<lambda>i. Inr (i, ctx)))"
  by (auto simp: emits_def lookup_node_def ok_or_def ctx_ok_def dest!: map_of_SomeD split: option.split)

lemma emits_args:
  assumes "ctx_ok ctx" "\<And>x ctx. x \<in> set xs \<Longrightarrow> ctx_ok ctx \<Longrightarrow> emits ctx (f x ctx)"
    and "\<And>is ctx'. later ctx ctx' \<Longrightarrow> ctx_ok ctx' \<Longrightarrow> \<forall>i \<in> set is. i < size_of ctx' \<Longrightarrow> emits ctx' (k is ctx')"
  shows "emits ctx (bindR (mapSR f xs ctx) (\<lambda>(is, ctx). k is ctx))"
  using assms
proof (induction xs arbitrary: ctx k)
  case Nil
  then show ?case by (simp add: later_def)
next
  case (Cons x xs)
  have "emits ctx (bindR (f x ctx) (\<lambda>(i, ctx). bindR (mapSR f xs ctx) (\<lambda>(is, ctx). k (i # is) ctx)))"
  proof (rule emits_bind)
    show "emits ctx (f x ctx)" using Cons.prems by simp
    fix i ctx' assume c: "later ctx ctx'" "ctx_ok ctx'" "i < size_of ctx'"
    show "emits ctx' (bindR (mapSR f xs ctx') (\<lambda>(is, ctx). k (i # is) ctx))"
    proof (rule Cons.IH [OF c(2)])
      fix "is" ctx'' assume d: "later ctx' ctx''" "ctx_ok ctx''" "\<forall>i \<in> set is. i < size_of ctx''"
      show "emits ctx'' (k (i # is) ctx'')"
        using c d by (intro Cons.prems(3)) (auto simp: later_def)
    qed (use Cons.prems(2) in simp)
  qed
  then show ?case by (simp add: bindR_assoc split_def)
qed

lemmas emits_steps = emits_bind emits_push emits_ident emits_const emits_vmtype emits_lookup emits_condition emits_args
  emits_pure [OF settled_format] emits_pure [OF settled_vmtype] emits_pure [OF settled_const] emits_pure [OF settled_find_graph]

lemma or_else_emits:
  assumes "ctx_ok ctx" "\<And>ctx. ctx_ok ctx \<Longrightarrow> emits ctx (generate_expr None l ctx)" "\<And>ctx. ctx_ok ctx \<Longrightarrow> emits ctx (generate_expr None r ctx)"
  shows "emits ctx (generate_expr name (EOrElse l r) ctx)"
  unfolding generate_expr.simps Let_def
  apply (rule emits_bind [OF assms(2) [OF assms(1)]])
  apply (rule emits_bind, rule emits_push, assumption, simp add: node_ok_def)
  apply (rule emits_bind, rule emits_push, assumption, simp add: node_ok_def)
  apply (rule emits_bind, rule emits_condition, assumption, simp add: later_def)
  apply (rule emits_under, assumption, assumption, erule assms(3))
  using top_condition_less [OF assms(1)]
  by (auto simp: node_ok_def later_def intro!: emits_bind emits_push emits_condition)

lemma top_conditions_less: "ctx_ok ctx \<Longrightarrow> \<forall>i. top_condition ctx = Some i \<longrightarrow> i < size_of ctx"
  by (simp add: top_condition_less)

lemma generate_expr_emits: "ctx_ok ctx \<Longrightarrow> emits ctx (generate_expr name e ctx)"
proof (induction e arbitrary: name ctx)
  case (EOrElse l r)
  then show ?case by (intro or_else_emits)
qed (frule top_conditions_less, auto simp: Let_def node_ok_def builder_limits_def later_def intro!: emits_steps dest!: find_graph_less)+

section \<open>Statements\<close>

definition stays :: "graph_context \<Rightarrow> (tw_asm_error, graph_context) outcome \<Rightarrow> bool" where
  "stays ctx r \<longleftrightarrow> settled r \<and> (\<forall>ctx'. r = Inr ctx' \<longrightarrow> grows ctx ctx' \<and> ctx_ok ctx')"

lemma stays_grown: "grows ctx ctx' \<Longrightarrow> stays ctx' r \<Longrightarrow> stays ctx r"
  unfolding stays_def using grows_trans by blast

lemma stays_bind:
  assumes "emits ctx r" "\<And>i ctx'. grows ctx ctx' \<Longrightarrow> ctx_ok ctx' \<Longrightarrow> i < size_of ctx' \<Longrightarrow> stays ctx' (k i ctx')"
  shows "stays ctx (bindR r (\<lambda>(i, ctx). k i ctx))"
proof (cases r)
  case (Inr x)
  obtain i ctx' where x: "x = (i, ctx')" by (cases x)
  then have "grows ctx ctx'" "stays ctx' (k i ctx')" using assms Inr by (auto simp: emits_def)
  then show ?thesis using Inr x stays_grown by simp
qed (use assms(1) in \<open>simp add: emits_def stays_def\<close>)

lemma stays_then:
  assumes "stays ctx r" "\<And>ctx'. grows ctx ctx' \<Longrightarrow> ctx_ok ctx' \<Longrightarrow> stays ctx' (k ctx')"
  shows "stays ctx (bindR r k)"
proof (cases r)
  case (Inr ctx')
  then have "grows ctx ctx'" "stays ctx' (k ctx')" using assms by (auto simp: stays_def)
  then show ?thesis using Inr stays_grown by simp
qed (use assms(1) in \<open>simp add: stays_def\<close>)

lemma stays_foldR:
  assumes "ctx_ok ctx" "\<And>x ctx. x \<in> set xs \<Longrightarrow> ctx_ok ctx \<Longrightarrow> stays ctx (f ctx x)"
  shows "stays ctx (foldR f ctx xs)"
  using assms
proof (induction xs arbitrary: ctx)
  case (Cons x xs)
  then show ?case by (auto intro!: stays_then)
qed (simp add: stays_def)

lemma stays_under:
  assumes "ctx_ok ctx" "c < size_of ctx" "\<And>ctx. ctx_ok ctx \<Longrightarrow> stays ctx (f ctx)"
    and "\<And>ctx'. grows ctx ctx' \<Longrightarrow> ctx_ok ctx' \<Longrightarrow> stays ctx' (k ctx')"
  shows "stays ctx (bindR (f (push_condition c ctx)) (\<lambda>ctx. bindR (pop_condition ctx) k))"
proof -
  have e: "stays (push_condition c ctx) (f (push_condition c ctx))" using assms(1-3) by (simp add: push_condition_def ctx_ok_def)
  show ?thesis
  proof (cases "f (push_condition c ctx)")
    case (Inr ctx')
    then have g: "grows (push_condition c ctx) ctx'" "ctx_ok ctx'" using e by (auto simp: stays_def)
    then have stack: "c_conditions ctx' = c # c_conditions ctx" by (simp add: grows_def push_condition_def)
    let ?ctx = "ctx'\<lparr>c_conditions := c_conditions ctx\<rparr>"
    have h: "grows ctx ?ctx" "ctx_ok ?ctx" using g stack by (simp_all add: grows_def push_condition_def ctx_ok_def)
    have "stays ctx (k ?ctx)" by (rule stays_grown [OF h(1) assms(4) [OF h]])
    then show ?thesis using Inr stack by (simp add: pop_condition_def)
  qed (use e in \<open>simp add: stays_def\<close>)
qed

lemma stays_return: "ctx_ok ctx \<Longrightarrow> stays ctx (Inr ctx)"
  by (simp add: stays_def)

lemma body_stays:
  assumes "ctx_ok ctx" "c < size_of ctx" "\<And>s ctx. s \<in> set body \<Longrightarrow> ctx_ok ctx \<Longrightarrow> stays ctx (generate_stmt s ctx)"
    and "\<And>ctx'. grows ctx ctx' \<Longrightarrow> ctx_ok ctx' \<Longrightarrow> stays ctx' (k ctx')"
  shows "stays ctx (bindR (foldR (\<lambda>ctx s. generate_stmt s ctx) (push_condition c ctx) body) (\<lambda>ctx. bindR (pop_condition ctx) k))"
  by (rule stays_under [where f = "\<lambda>ctx. foldR (\<lambda>ctx s. generate_stmt s ctx) ctx body"]) (use assms in \<open>auto intro!: stays_foldR\<close>)

lemma if_stays:
  assumes "ctx_ok ctx" "\<And>s ctx. s \<in> set if_body \<Longrightarrow> ctx_ok ctx \<Longrightarrow> stays ctx (generate_stmt s ctx)"
    and "\<And>b s ctx. else_body = Some b \<Longrightarrow> s \<in> set b \<Longrightarrow> ctx_ok ctx \<Longrightarrow> stays ctx (generate_stmt s ctx)"
  shows "stays ctx (generate_stmt (SIf c if_body else_body) ctx)"
  unfolding generate_stmt.simps
  apply (rule stays_bind, rule generate_expr_emits [OF assms(1)])
  apply (rule stays_bind, rule emits_condition, assumption, assumption)
  apply (rule body_stays, assumption, assumption, erule assms(2), assumption)
  apply (cases else_body)
   apply (simp add: stays_return)
  apply (simp only: option.case)
  apply (rule stays_bind, rule emits_push, assumption, simp add: node_ok_def)
   apply (meson grows_size order_less_le_trans)
  apply (rule stays_bind, rule emits_condition, assumption, assumption)
  apply (rule body_stays [where k = Inr, unfolded bindR_return], assumption, assumption)
  by (use assms(3) in \<open>auto intro: stays_return\<close>)

lemma generate_stmt_stays: "ctx_ok ctx \<Longrightarrow> stays ctx (generate_stmt s ctx)"
proof (induction s arbitrary: ctx)
  case (SIf c if_body else_body)
  then show ?case by (intro if_stays) auto
next
  case (SReturn e)
  show ?case unfolding generate_stmt.simps
    by (rule stays_bind [OF generate_expr_emits [OF SReturn]]) (auto simp: stays_def grows_def ctx_ok_def graph_ok_def)
next
  case (SThrow e)
  show ?case unfolding generate_stmt.simps
    by (rule stays_bind [OF generate_expr_emits [OF SThrow]])
      (auto intro!: stays_bind emits_push stays_return simp: node_ok_def top_condition_less)
next
  case (SNode name e)
  show ?case unfolding generate_stmt.simps
    by (rule stays_bind [OF generate_expr_emits [OF SNode]]) (simp add: stays_return)
qed


section \<open>Graphs and scripts\<close>

lemma settled_param_type: "settled (param_type p b)"
  by (auto simp: param_type_def settled_vmtype intro!: fails_only_bindR split: option.split)

lemma param_types_ok:
  "mapSR param_type ps b = Inr (is, b') \<Longrightarrow> builder_ok b \<Longrightarrow>
    builder_grows b b' \<and> builder_ok b' \<and> length is = length ps \<and> (\<forall>i \<in> set is. i < length (b_types b'))"
proof (induction ps arbitrary: b "is")
  case (Cons p ps)
  from Cons.prems(1) obtain i b1 js where 1: "param_type p b = Inr (i, b1)" "mapSR param_type ps b1 = Inr (js, b')" "is = i # js"
    by (auto split: prod.splits)
  obtain ty where "alloc_vmtype ty b = (i, b1)" using 1(1) by (auto simp: param_type_def)
  note b1 = builder_allocs(3) [OF Cons.prems(2) this]
  note IH = Cons.IH [OF 1(2) conjunct1 [OF conjunct2 [OF b1]]]
  then have "length (b_types b1) \<le> length (b_types b')" by (auto simp: builder_grows_def suffix_length_le)
  then show ?case using IH b1 1(3) builder_grows_trans [of b b1 b'] by auto
qed simp

lemma settled_graph_target: "settled (graph_target g b)"
  unfolding graph_target_def
proof (intro fails_only_bindR)
  show "settled (mapSR param_type (ag_params g) b)"
    by (rule fails_only_mapSR [where P = "\<lambda>_. True"]) (simp_all add: settled_param_type)
  fix x show "settled (case x of (param_types, b) \<Rightarrow> bindR (option_mapR (generate_vmtype (b_aliases b)) (ag_return_type g)) (\<lambda>ty.
     case (case ty of None \<Rightarrow> (None, b) | Some x \<Rightarrow> apfst Some (alloc_vmtype x b)) of (output_type, b) \<Rightarrow>
     Inr (\<lparr>g_name = ag_name g, g_exported = ag_exported g, g_nodes = [], g_output = None, g_param_types = param_types,
       g_output_type = output_type\<rparr>, b)))"
    by (cases x; cases "ag_return_type g") (auto intro!: fails_only_bindR settled_vmtype split: prod.split)
qed

lemma graph_target_ok:
  assumes "graph_target g b = Inr (target, b')" "builder_ok b"
  shows "builder_grows b b'" "builder_ok b'" "graph_ok (builder_limits b') target" "g_name target = ag_name g" "g_nodes target = []"
    "length (g_param_types target) = length (ag_params g)"
proof -
  obtain "is" b1 ty where 1: "mapSR param_type (ag_params g) b = Inr (is, b1)"
    "(case (case ty of None \<Rightarrow> (None, b1) | Some x \<Rightarrow> apfst Some (alloc_vmtype x b1)) of (output_type, b) \<Rightarrow>
     (Inr (\<lparr>g_name = ag_name g, g_exported = ag_exported g, g_nodes = [], g_output = None, g_param_types = is,
       g_output_type = output_type\<rparr>, b) :: (tw_asm_error, _) outcome)) = Inr (target, b')"
    using assms(1) by (auto simp: graph_target_def split: prod.splits)
  note p = param_types_ok [OF 1(1) assms(2)]
  have "builder_grows b1 b' \<and> builder_ok b' \<and> g_param_types target = is \<and> g_nodes target = [] \<and> g_output target = None \<and>
      g_name target = ag_name g \<and> (\<forall>i. g_output_type target = Some i \<longrightarrow> i < length (b_types b'))"
  proof (cases ty)
    case None
    then show ?thesis using 1(2) p by auto
  next
    case (Some x)
    obtain i b2 where "alloc_vmtype x b1 = (i, b2)" by (cases "alloc_vmtype x b1")
    then show ?thesis using 1(2) Some builder_allocs(3) [of b1 x i b2] p by auto
  qed
  moreover from this have "length (b_types b1) \<le> length (b_types b')" by (auto simp: builder_grows_def suffix_length_le)
  ultimately show "builder_grows b b'" "builder_ok b'" "graph_ok (builder_limits b') target" "g_name target = ag_name g" "g_nodes target = []"
    "length (g_param_types target) = length (ag_params g)"
    using p builder_grows_trans [of b b1 b'] by (auto simp: graph_ok_def builder_limits_def)
qed

lemma load_params_stay:
  "ctx_ok ctx \<Longrightarrow> \<forall>p \<in> set ps. fst p < length (g_param_types (c_target ctx)) \<Longrightarrow> stays ctx (foldR load_param ctx ps)"
proof (induction ps arbitrary: ctx)
  case (Cons p ps)
  obtain i name ty where p: "p = (i, name, ty)" by (cases p)
  have "stays ctx (load_param ctx p)" using Cons.prems unfolding load_param_def p prod.case
    by (intro stays_bind emits_push) (auto simp: node_ok_def intro: stays_return)
  then show ?case using Cons by (auto intro!: stays_then simp: grows_def)
qed (simp add: stays_return)

definition builder_inv :: "builder \<Rightarrow> bool" where
  "builder_inv b \<longleftrightarrow> builder_ok b \<and> (\<forall>g \<in> set (b_graphs b). graph_ok (builder_limits b) g)"

definition adds_graph :: "builder \<Rightarrow> ast_graph \<Rightarrow> builder \<Rightarrow> bool" where
  "adds_graph b g b' \<longleftrightarrow> builder_inv b' \<and> b_root b' = b_root b \<and> map g_name (b_graphs b') = map g_name (b_graphs b) @ [ag_name g]"

lemma generate_graph_adds:
  assumes "builder_inv b"
  shows "settled (generate_graph b g) \<and> (\<forall>b'. generate_graph b g = Inr b' \<longrightarrow> adds_graph b g b')"
proof (cases "first_duplicate (map fst (ag_params g))")
  case None
  show ?thesis
  proof (cases "graph_target g b")
    case (Inl e)
    then show ?thesis using settled_graph_target [of g b] None by (simp add: generate_graph_def del: first_duplicate_None)
  next
    case (Inr x)
    obtain target b1 where x: "graph_target g b = Inr (target, b1)" using Inr by (cases x) simp
    have "builder_ok b" using assms by (simp add: builder_inv_def)
    note t = graph_target_ok [OF x this]
    let ?ctx = "\<lparr>c_names = [], c_builder = b1, c_target = target, c_conditions = []\<rparr>"
    let ?run = "bindR (foldR load_param ?ctx (enumerate 0 (ag_params g))) (\<lambda>ctx. foldR (\<lambda>ctx stmt. generate_stmt stmt ctx) ctx (ag_stmts g))"
    have ok: "ctx_ok ?ctx" using t by (simp add: ctx_ok_def)
    have "stays ?ctx (foldR load_param ?ctx (enumerate 0 (ag_params g)))"
      by (rule load_params_stay [OF ok]) (auto simp: t(6) in_set_enumerate_eq)
    then have run: "stays ?ctx ?run" by (rule stays_then) (auto intro!: stays_foldR generate_stmt_stays)
    have eq: "generate_graph b g = bindR ?run (\<lambda>ctx. Inr ((c_builder ctx)\<lparr>b_graphs := b_graphs (c_builder ctx) @ [c_target ctx]\<rparr>))"
      using None x by (simp add: generate_graph_def bindR_assoc del: first_duplicate_None)
    have "adds_graph b g ((c_builder ctx)\<lparr>b_graphs := b_graphs (c_builder ctx) @ [c_target ctx]\<rparr>)" if "?run = Inr ctx" for ctx
    proof -
      have c: "grows ?ctx ctx" "ctx_ok ctx" using run that by (auto simp: stays_def)
      then have g: "builder_grows b (c_builder ctx)" "g_name (c_target ctx) = ag_name g"
        using t(1,4) builder_grows_trans by (auto simp: grows_def)
      have "graph_ok (builder_limits (c_builder ctx)) h" if "h \<in> set (b_graphs b)" for h
        using assms that graph_ok_mono builder_grows_limits [OF g(1)] by (auto simp: builder_inv_def)
      then show ?thesis using c(2) g
        by (auto simp: adds_graph_def builder_inv_def ctx_ok_def builder_grows_def builder_ok_def builder_limits_def)
    qed
    then show ?thesis using run unfolding eq stays_def by (auto intro!: fails_only_bindR)
  qed
qed (simp add: generate_graph_def)


lemma add_alias_settled: "settled (add_alias b a)"
  by (auto simp: add_alias_def settled_vmtype intro!: fails_only_bindR)

lemma aliases_inv:
  "foldR add_alias b as = Inr b' \<Longrightarrow> builder_inv b \<Longrightarrow> builder_inv b' \<and> b_root b' = b_root b \<and> b_graphs b' = b_graphs b"
proof (induction as arbitrary: b)
  case (Cons a as)
  from Cons.prems(1) obtain b1 where b1: "add_alias b a = Inr b1" "foldR add_alias b1 as = Inr b'" by auto
  have "builder_inv b1" "b_root b1 = b_root b" "b_graphs b1 = b_graphs b"
    using b1(1) Cons.prems(2) by (auto simp: add_alias_def builder_inv_def builder_ok_def builder_limits_def)
  then show ?case using Cons.IH [OF b1(2)] by simp
qed simp

lemma graphs_inv:
  "builder_inv b \<Longrightarrow> settled (foldR generate_graph b gs) \<and> (\<forall>b'. foldR generate_graph b gs = Inr b' \<longrightarrow>
     builder_inv b' \<and> b_root b' = b_root b \<and> map g_name (b_graphs b') = map g_name (b_graphs b) @ map ag_name gs)"
proof (induction gs arbitrary: b)
  case (Cons g gs)
  show ?case
  proof (cases "generate_graph b g")
    case (Inl e)
    then show ?thesis using generate_graph_adds [OF Cons.prems, of g] by simp
  next
    case (Inr b1)
    then have "adds_graph b g b1" using generate_graph_adds [OF Cons.prems, of g] by simp
    then show ?thesis using Cons.IH [of b1] Inr by (auto simp: adds_graph_def)
  qed
qed simp

abbreviation empty_builder :: "root \<Rightarrow> builder" where
  "empty_builder r \<equiv> \<lparr>b_graphs = [], b_idents = [], b_types = [], b_consts = [], b_aliases = [], b_root = r\<rparr>"

lemma compile_root_settled: "settled (compile_root r)"
proof -
  have inv: "builder_inv (empty_builder r)" by (simp add: builder_inv_def builder_ok_def)
  have "settled (foldR add_alias (empty_builder r) (r_type_aliases r))"
    by (rule fails_only_foldR [where P = "\<lambda>_. True"]) (simp_all add: add_alias_settled)
  moreover have "settled (foldR generate_graph b (r_graphs r))" if "foldR add_alias (empty_builder r) (r_type_aliases r) = Inr b" for b
    using graphs_inv aliases_inv [OF that inv] by blast
  ultimately have "settled (bindR (foldR add_alias (empty_builder r) (r_type_aliases r)) (\<lambda>b. bindR (foldR generate_graph b (r_graphs r)) (\<lambda>b. Inr (emit_pools b))))"
    by (auto intro!: fails_only_bindR)
  then show ?thesis by (auto simp: compile_root_def simp del: first_duplicate_None split: option.split)
qed

lemma compile_root_run:
  assumes "compile_root r = Inr s"
  obtains b where "s = emit_pools b" "builder_inv b" "b_root b = r" "map g_name (b_graphs b) = map ag_name (r_graphs r)"
    "distinct (map ag_name (r_graphs r))"
proof -
  obtain b0 b where b: "foldR add_alias (empty_builder r) (r_type_aliases r) = Inr b0" "foldR generate_graph b0 (r_graphs r) = Inr b"
    "s = emit_pools b" and d: "distinct (map ag_name (r_graphs r))"
    using assms by (auto simp: compile_root_def split: option.splits)
  have "builder_inv (empty_builder r)" by (simp add: builder_inv_def builder_ok_def)
  from aliases_inv [OF b(1) this] graphs_inv [of b0 "r_graphs r"] b(2) show ?thesis using that [OF b(3)] d by simp
qed

lemma emitted_limits:
  assumes "builder_inv b" "map g_name (b_graphs b) = map ag_name (r_graphs (b_root b))"
  shows "script_limits (emit_pools b) = builder_limits b"
  using assms map_eq_imp_length_eq [OF assms(2)]
  by (simp add: script_limits_def builder_limits_def emit_pools_def builder_inv_def builder_ok_def emit_pool_rev)

text \<open>
  C5. Assembled scripts are well-formed: the assembler never panics, and what it accepts has the graphs of the source in
  their order with distinct names. In each graph every edge and precondition points to an earlier node, the output is
  a node, and every index into the parameters, identifiers, constants, types and graphs is in range; no pool has an entry twice.
\<close>

theorem assembled_script_wf:
  "settled (compile_twscript parse input) \<and>
   (\<forall>s. compile_twscript parse input = Inr s \<longrightarrow> (\<exists>r. parse input = Inr r \<and> map g_name (s_graphs s) = map ag_name (r_graphs r) \<and>
      distinct (map g_name (s_graphs s)) \<and> (\<forall>g \<in> set (s_graphs s). graph_ok (script_limits s) g) \<and>
      distinct (s_idents s) \<and> distinct (s_types s) \<and> distinct (s_consts s)))"
proof (cases "parse input")
  case (Inr r)
  have "map g_name (s_graphs s) = map ag_name (r_graphs r) \<and> distinct (map g_name (s_graphs s)) \<and>
      (\<forall>g \<in> set (s_graphs s). graph_ok (script_limits s) g) \<and> distinct (s_idents s) \<and> distinct (s_types s) \<and> distinct (s_consts s)"
    if s: "compile_root r = Inr s" for s
  proof -
    obtain b where b: "s = emit_pools b" "builder_inv b" "b_root b = r" "map g_name (b_graphs b) = map ag_name (r_graphs r)"
      "distinct (map ag_name (r_graphs r))" using compile_root_run [OF s] .
    have "script_limits s = builder_limits b" using emitted_limits [OF b(2)] b(1,3,4) by simp
    then show ?thesis using b
      by (simp add: emit_pools_def builder_inv_def builder_ok_def emit_pool_rev) (simp add: pool_ok_def)
  qed
  then show ?thesis using Inr compile_root_settled by (auto simp: compile_twscript_def)
qed (simp add: compile_twscript_def)


definition main_root :: "stmt list \<Rightarrow> root" where
  "main_root stmts = \<lparr>r_graphs = [\<lparr>ag_name = ''main'', ag_exported = True, ag_params = [],
     ag_return_type = Some (AsPrimitive Int64T), ag_stmts = stmts\<rparr>], r_type_aliases = []\<rparr>"

theorem assembled_script_wf_witness:
  "\<exists>s. compile_twscript (\<lambda>_. Inr (main_root [SNode (Some ''x'') (ELoadConst (LitInteger 7)),
       SIf (EEq (ENode ''x'') (ELoadConst (LitInteger 8))) [SThrow (ELoadConst (LitString ''eight''))] None, SReturn (ENode ''x'')])) [] = Inr s \<and>
     s_consts s = [CPrimitive (PInt64 7), CPrimitive (PInt64 8), CPrimitive (PString ''eight'')] \<and>
     (\<forall>g \<in> set (s_graphs s). graph_ok (script_limits s) g)"
proof -
  let ?r = "main_root [SNode (Some ''x'') (ELoadConst (LitInteger 7)),
       SIf (EEq (ENode ''x'') (ELoadConst (LitInteger 8))) [SThrow (ELoadConst (LitString ''eight''))] None, SReturn (ENode ''x'')]"
  have "map_sum id s_consts (compile_root ?r) = Inr [CPrimitive (PInt64 7), CPrimitive (PInt64 8), CPrimitive (PString ''eight'')]"
    by code_simp
  then obtain s where "compile_twscript (\<lambda>_. Inr ?r) [] = Inr s" "s_consts s = [CPrimitive (PInt64 7), CPrimitive (PInt64 8), CPrimitive (PString ''eight'')]"
    by (cases "compile_root ?r") (auto simp: compile_twscript_def)
  then show ?thesis using assembled_script_wf [of "\<lambda>_. Inr ?r" "[]"] by auto
qed

end
