(* ===== verification/Script_Pipeline.thy ===== *)
theory Script_Pipeline
  imports Exec_Commit Codegen_Wf
begin

text \<open>
  From the source of a script to its run: the assembler, the type checker and the executor
  together.
\<close>

section \<open>Assembled scripts run\<close>

lemma graph_ok_forward: "graph_ok L g \<Longrightarrow> forward_graph g"
  unfolding graph_ok_def forward_graph_def
proof (intro allI impI ballI, elim conjE)
  fix i j assume *: "\<forall>j < length (g_nodes g). node_ok L (length (g_param_types g)) j (g_nodes g ! j)"
    "i < length (g_nodes g)" "j \<in> set (sources (g_nodes g ! i))"
  obtain n ins pre where "g_nodes g ! i = (n, ins, pre)" by (cases "g_nodes g ! i")
  then show "j < i" using * by (cases pre) (auto simp: node_ok_def sources_def)
qed

text \<open>
  An assembled script needs no type checking for its executor to be built without a panic and for
  its scheduler to come to an end.
\<close>

theorem assembled_script_ends:
  assumes "compile_root r = Inr (vm_script vm)" "mem_txn_ok t"
  shows "\<exists>ex. executor_new vm (mem_kv :: (unit, mem_transaction) kv_transaction) info = Inr ex \<and>
    (\<forall>pick left gi gps. recursively_run_graph E ex pick left gi gps t \<noteq> Inl OutOfFuel)"
proof -
  obtain b where b: "vm_script vm = emit_pools b" "builder_inv b" using compile_root_run [OF assms(1)] .
  have "forward_graph (s_graphs (vm_script vm) ! i)" if "i < length (s_graphs (vm_script vm))" for i
    using that b nth_mem [of i "b_graphs b"] graph_ok_forward [of "builder_limits b"] by (simp add: emit_pools_def builder_inv_def)
  from executor_new_ready [OF this] obtain ex where ex: "executor_new vm (mem_kv :: (unit, mem_transaction) kv_transaction) info = Inr ex"
    "executor_ready ex" "ex_kv ex = mem_kv" by blast
  have "ends (\<lambda>(v, t). mem_txn_ok t) (recursively_run_graph E ex pick left gi gps t)" for pick left gi gps
    by (rule mem.run_graph_ends [OF ex(2,3) assms(2)])
  then show ?thesis using ex(1) by (metis ends_simps(2))
qed

section \<open>Scripts that use a node twice\<close>

lemma twice_compiles:
  "compile_root (main_root [SNode (Some ''x'') (ELoadConst (LitInteger 7)), SReturn (EAdd (ENode ''x'') (ENode ''x''))]) =
    Inr (vm_script (one_graph twice_graph))"
  by code_simp

text \<open>
  C39. An argument that is used twice: the script \<open>x = 7; return x + x;\<close> assembles and passes the type checker.
  The executor starts the addition a second time with no arguments, so that every schedule
  of the script panics, while its nodes evaluated in order give the sum.
\<close>

theorem repeated_argument_panics:
  "compile_root (main_root [SNode (Some ''x'') (ELoadConst (LitInteger 7)), SReturn (EAdd (ENode ''x'') (ENode ''x''))]) =
     Inr (vm_script (one_graph twice_graph)) \<and>
   checked single_components (one_graph twice_graph) twice_info \<and>
   executor_new (one_graph twice_graph) kv twice_info = Inr (twice_executor kv) \<and>
   recursively_run_graph E (twice_executor kv) pick MAX_RECURSION_DEPTH 0 [] t = Inl (Panic ''index out of bounds'') \<and>
   eval_graph E (twice_executor kv) MAX_RECURSION_DEPTH 0 [] t = Inr (Some (VPrimitive (PInt64 14)), t)"
  using twice_compiles twice_checked twice_new twice_run [of E kv pick 127 t] twice_eval [of E kv 127 t]
  by (simp add: MAX_RECURSION_DEPTH_def del: eval_graph.simps recursively_run_graph.simps)

text \<open>
  A name given to a node that already has one is not bound: in \<open>x = 7; y = x; return y;\<close> the node \<open>y\<close> is not found.
\<close>

theorem renamed_node_not_found:
  "compile_root (main_root [SNode (Some ''x'') (ELoadConst (LitInteger 7)), SNode (Some ''y'') (ENode ''x''), SReturn (ENode ''y'')]) =
    Inl (Err (NodeNotFound ''y''))"
  by code_simp

end
