(* ===== verification/Serialize.thy ===== *)
theory Serialize
  imports Vm_Value
begin

text \<open>
  The exchange format of \<^verbatim>\<open>treewalker/serialize.rs\<close>: results of a script are encoded into it, and the arguments of
  a query are decoded from it at the parameter types of the graph. Integers cross as decimal text unless the
  client asked otherwise; the decimal conversions of \<^verbatim>\<open>i64\<close> and the casts between \<^verbatim>\<open>i64\<close> and
  \<^verbatim>\<open>f64\<close> are written out on words. The shortest decimal text of an \<^verbatim>\<open>f64\<close> and the lossy
  conversion from UTF-8 are parameters.
\<close>

unbundle bit_operations_syntax

section \<open>Numbers as text\<close>

definition digit :: "nat \<Rightarrow> char" where
  "digit n = char_of (48 + n)"

fun dec_digits :: "nat \<Rightarrow> string" where
  "dec_digits n = (if n < 10 then [digit n] else dec_digits (n div 10) @ [digit (n mod 10)])"

declare dec_digits.simps [simp del]

definition format_i64 :: "64 word \<Rightarrow> string" where
  "format_i64 x = (if sint x < 0 then CHR ''-'' # dec_digits (nat (- sint x)) else dec_digits (nat (sint x)))"

definition digit_value :: "char \<Rightarrow> nat option" where
  "digit_value c = (let n = of_char c in if 48 \<le> n \<and> n < 58 then Some (n - 48) else None)"

fun parse_digits :: "nat \<Rightarrow> string \<Rightarrow> nat option" where
  "parse_digits acc [] = Some acc"
| "parse_digits acc (c # cs) = (case digit_value c of None \<Rightarrow> None | Some d \<Rightarrow> parse_digits (10 * acc + d) cs)"

definition parse_nat :: "string \<Rightarrow> nat option" where
  "parse_nat s = (if s = [] then None else parse_digits 0 s)"

definition parse_i64 :: "string \<Rightarrow> 64 word option" where
  "parse_i64 s =
     (case s of
        [] \<Rightarrow> None
      | c # cs \<Rightarrow>
          if c = CHR ''-'' then Option.bind (parse_nat cs) (\<lambda>n. if n \<le> 2 ^ 63 then Some (of_int (- int n)) else None)
          else Option.bind (parse_nat (if c = CHR ''+'' then cs else s)) (\<lambda>n. if n < 2 ^ 63 then Some (of_nat n) else None))"

definition parse_u64 :: "string \<Rightarrow> 64 word option" where
  "parse_u64 s =
     (case s of
        [] \<Rightarrow> None
      | c # cs \<Rightarrow> Option.bind (parse_nat (if c = CHR ''+'' then cs else s)) (\<lambda>n. if n < 2 ^ 64 then Some (of_nat n) else None))"

section \<open>Casts\<close>

text \<open>\<^verbatim>\<open>x as i64\<close> truncates towards zero and saturates; a NaN becomes 0.\<close>

definition f64_exponent :: "64 word \<Rightarrow> nat" where
  "f64_exponent x = unat (drop_bit 52 x) mod 2 ^ 11"

definition f64_fraction :: "64 word \<Rightarrow> nat" where
  "f64_fraction x = unat x mod 2 ^ 52"

definition f64_magnitude :: "64 word \<Rightarrow> nat" where
  "f64_magnitude x =
     (let e = f64_exponent x; m = (if e = 0 then f64_fraction x else f64_fraction x + 2 ^ 52) in
      if e \<ge> 1075 then m * 2 ^ (e - 1075) else m div 2 ^ (1075 - e))"

definition f64_as_i64 :: "64 word \<Rightarrow> 64 word" where
  "f64_as_i64 x =
     (let neg = bit x 63; n = f64_magnitude x in
      if f64_exponent x = 2047 \<and> f64_fraction x \<noteq> 0 then 0
      else if neg then (if n \<ge> 2 ^ 63 then of_int (- (2 ^ 63)) else of_int (- int n))
      else if n \<ge> 2 ^ 63 then of_nat (2 ^ 63 - 1) else of_nat n)"

text \<open>\<^verbatim>\<open>x as f64\<close> rounds to nearest, ties to even.\<close>

fun bit_length :: "nat \<Rightarrow> nat" where
  "bit_length n = (if n = 0 then 0 else Suc (bit_length (n div 2)))"

declare bit_length.simps [simp del]

definition round_mantissa :: "nat \<Rightarrow> nat \<Rightarrow> nat" where
  "round_mantissa l n =
     (if l \<le> 53 then n * 2 ^ (53 - l)
      else let q = n div 2 ^ (l - 53); r = n mod 2 ^ (l - 53); half = 2 ^ (l - 54) in
           if r > half \<or> r = half \<and> odd q then q + 1 else q)"

definition i64_as_f64 :: "64 word \<Rightarrow> 64 word" where
  "i64_as_f64 x =
     (let neg = sint x < 0; n = nat \<bar>sint x\<bar>; l = bit_length n in
      if n = 0 then 0
      else of_nat ((if neg then 2 ^ 63 else 0) + (l + 1022) * 2 ^ 52 + (round_mantissa l n - 2 ^ 52)))"

section \<open>The format\<close>

datatype serialized_vm_value =
    SString string
  | SBool bool
  | SBytes bytes
  | SInt64 "64 word"
  | SDouble "64 word"
  | SNull
  | STaggedM "(string \<times> serialized_vm_value) list"
  | STaggedL "serialized_vm_value list"

datatype serialize_error =
    Unserializable
  | TypeMismatch
  | UnwrapTypeMismatch
  | UnexpectedNullValue
  | MissingRequiredField string
  | ParseIntError
  | Base64Error

record encode_config =
  enable_bytes :: bool
  enable_int64 :: bool
  enable_double :: bool

record text_ops =
  f64_display :: "64 word \<Rightarrow> string"
  from_utf8_lossy :: "bytes \<Rightarrow> string"

fun try_unwrap_bool :: "serialized_vm_value \<Rightarrow> (serialize_error, bool) outcome" where
  "try_unwrap_bool (SBool x) = Inr x"
| "try_unwrap_bool _ = Inl (Err UnwrapTypeMismatch)"

fun try_unwrap_list :: "serialized_vm_value \<Rightarrow> (serialize_error, serialized_vm_value list) outcome" where
  "try_unwrap_list (STaggedL x) = Inr x"
| "try_unwrap_list _ = Inl (Err UnwrapTypeMismatch)"

fun check_nonnull :: "serialized_vm_value \<Rightarrow> (serialize_error, unit) outcome" where
  "check_nonnull SNull = Inl (Err UnexpectedNullValue)"
| "check_nonnull _ = Inr ()"

fun try_unwrap_map :: "string list \<Rightarrow> serialized_vm_value \<Rightarrow> (serialize_error, (string \<times> serialized_vm_value) list) outcome" where
  "try_unwrap_map required_fields (STaggedM x) =
     bindR (foldR (\<lambda>_ f. if bt_get x f = None then Inl (Err (MissingRequiredField f)) else Inr ()) () required_fields) (\<lambda>_. Inr x)"
| "try_unwrap_map required_fields _ = Inl (Err UnwrapTypeMismatch)"

fun try_unwrap_string :: "serialized_vm_value \<Rightarrow> (serialize_error, string) outcome" where
  "try_unwrap_string (SString x) = Inr x"
| "try_unwrap_string _ = Inl (Err UnwrapTypeMismatch)"

fun try_unwrap_bytes :: "serialized_vm_value \<Rightarrow> (serialize_error, bytes) outcome" where
  "try_unwrap_bytes (SBytes x) = Inr x"
| "try_unwrap_bytes _ = Inl (Err UnwrapTypeMismatch)"

fun try_unwrap_int64 :: "serialized_vm_value \<Rightarrow> (serialize_error, 64 word) outcome" where
  "try_unwrap_int64 (SInt64 x) = Inr x"
| "try_unwrap_int64 _ = Inl (Err UnwrapTypeMismatch)"

fun encode_primitive :: "externs \<Rightarrow> text_ops \<Rightarrow> encode_config \<Rightarrow> primitive_value \<Rightarrow> serialized_vm_value" where
  "encode_primitive E T c (PBytes x) = (if enable_bytes c then SBytes x else SString (base64_encode E x))"
| "encode_primitive E T c (PDouble x) = (if enable_double c then SDouble x else SString (f64_display T x))"
| "encode_primitive E T c (PInt64 x) = (if enable_int64 c then SInt64 x else SString (format_i64 x))"
| "encode_primitive E T c (PString x) = SString x"

fun encode :: "externs \<Rightarrow> text_ops \<Rightarrow> encode_config \<Rightarrow> vm_value \<Rightarrow> (serialize_error, serialized_vm_value) outcome" where
  "encode E T c (VMap x) =
     bindR (mapR (\<lambda>(k, v). bindR (encode E T c v) (\<lambda>s. Inr (k, s))) x) (\<lambda>fields. Inr (STaggedM (bt_collect fields)))"
| "encode E T c (VNull _) = Inr SNull"
| "encode E T c (VBool x) = Inr (SBool x)"
| "encode E T c (VPrimitive x) = Inr (encode_primitive E T c x)"
| "encode E T c (VList _ xs) = bindR (mapR (encode E T c) xs) (\<lambda>out. Inr (STaggedL out))"
| "encode E T c _ = Inl (Err Unserializable)"

fun decode_primitive :: "externs \<Rightarrow> text_ops \<Rightarrow> serialized_vm_value \<Rightarrow> primitive_type \<Rightarrow> (serialize_error, primitive_value) outcome" where
  "decode_primitive E T (SString x) StringT = Inr (PString x)"
| "decode_primitive E T (SBytes x) StringT = Inr (PString (from_utf8_lossy T x))"
| "decode_primitive E T (SString x) Int64T = bindR (ok_or ParseIntError (parse_i64 x)) (\<lambda>n. Inr (PInt64 n))"
| "decode_primitive E T (SInt64 x) Int64T = Inr (PInt64 x)"
| "decode_primitive E T (SDouble x) Int64T = Inr (PInt64 (f64_as_i64 x))"
| "decode_primitive E T (SString x) DoubleT = bindR (ok_or ParseIntError (parse_u64 x)) (\<lambda>n. Inr (PDouble n))"
| "decode_primitive E T (SInt64 x) DoubleT = Inr (PDouble (i64_as_f64 x))"
| "decode_primitive E T (SDouble x) DoubleT = Inr (PDouble x)"
| "decode_primitive E T (SString x) BytesT = bindR (ok_or Base64Error (base64_decode E x)) (\<lambda>b. Inr (PBytes b))"
| "decode_primitive E T (SBytes x) BytesT = Inr (PBytes x)"
| "decode_primitive E T _ _ = Inl (Err TypeMismatch)"

fun decode :: "externs \<Rightarrow> text_ops \<Rightarrow> vm_type \<Rightarrow> serialized_vm_value \<Rightarrow> (serialize_error, vm_value) outcome" where
  "decode E T ty s =
     (case (s, ty) of
        (STaggedM x, TMap map_ty) \<Rightarrow>
          bindR (foldR (\<lambda>res (k, field_ty).
             case bt_get x k of
               Some v \<Rightarrow> bindR (decode E T field_ty v) (\<lambda>d. Inr (bt_insert k d res))
             | None \<Rightarrow> Inr (bt_insert k (VNull field_ty) res)) [] map_ty) (\<lambda>res. Inr (VMap res))
      | (STaggedL xs, TList t) \<Rightarrow> bindR (mapR (decode E T t) xs) (\<lambda>node. Inr (VList t node))
      | (SNull, _) \<Rightarrow> Inr (VNull ty)
      | (SBool x, TBool) \<Rightarrow> Inr (VBool x)
      | (_, TPrimitive p) \<Rightarrow> bindR (decode_primitive E T s p) (\<lambda>x. Inr (VPrimitive x))
      | _ \<Rightarrow> Inl (Err TypeMismatch))"

declare decode.simps [simp del]

end
