(* ===== verification/Exchange.thy ===== *)
theory Exchange
  imports Serialize
begin

text \<open>
  What crosses the exchange format: decimal text is read back, values of a serialisable type survive the way out and
  in, decoded arguments have the type they were decoded at, and the casts of integers to doubles lose
  nothing below 53 bits.
\<close>

section \<open>Decimal text\<close>

lemma digit_value_digit: "n < 10 \<Longrightarrow> digit_value (digit n) = Some n"
  by (simp add: digit_value_def digit_def Let_def of_char_of)

lemma parse_digits_snoc:
  "parse_digits a (s @ [c]) = Option.bind (parse_digits a s) (\<lambda>m. map_option (\<lambda>d. 10 * m + d) (digit_value c))"
  by (induction s arbitrary: a) (auto split: option.split)

lemma parse_dec_digits: "parse_digits 0 (dec_digits n) = Some n"
proof (induction n rule: dec_digits.induct)
  case (1 n)
  show ?case
  proof (cases "n < 10")
    case True
    then show ?thesis by (simp add: dec_digits.simps digit_value_digit)
  next
    case False
    then show ?thesis using 1 by (simp add: dec_digits.simps [of n] parse_digits_snoc digit_value_digit)
  qed
qed

lemma dec_digits_head: "\<exists>k cs. k < 10 \<and> dec_digits n = digit k # cs"
proof (induction n rule: dec_digits.induct)
  case (1 n)
  then show ?case by (cases "n < 10") (auto simp: dec_digits.simps [of n])
qed

lemma digit_no_sign: "k < 10 \<Longrightarrow> digit k \<noteq> CHR ''-'' \<and> digit k \<noteq> CHR ''+''"
  using digit_value_digit [of k] by (auto simp: digit_value_def)

lemma parse_format_i64: "parse_i64 (format_i64 x) = Some x"
proof -
  have ne: "parse_nat (dec_digits n) = Some n" for n
    using dec_digits_head [of n] parse_dec_digits [of n] by (auto simp: parse_nat_def)
  have r: "- (2 ^ 63) \<le> sint x" "sint x < 2 ^ 63" using sint_ge [of x] sint_lt [of x] by simp_all
  show ?thesis
  proof (cases "sint x < 0")
    case True
    have "nat (- sint x) \<le> 2 ^ 63" using r by simp
    then show ?thesis using True ne by (simp add: format_i64_def parse_i64_def)
  next
    case False
    obtain k cs where d: "k < 10" "dec_digits (nat (sint x)) = digit k # cs" using dec_digits_head by blast
    have "nat (sint x) < 2 ^ 63" using r by (simp add: nat_less_iff False)
    moreover have "of_nat (nat (sint x)) = x" using False of_nat_nat [of "sint x", where 'a = "64 word"] by simp
    ultimately show ?thesis using False d digit_no_sign [OF d(1)] ne [of "nat (sint x)"]
      by (simp add: format_i64_def parse_i64_def)
  qed
qed

section \<open>Round trips\<close>

fun exchangeable :: "vm_type \<Rightarrow> vm_value \<Rightarrow> bool" where
  "exchangeable ty (VNull t) = (ty = t)"
| "exchangeable ty (VBool _) = (ty = TBool)"
| "exchangeable ty (VPrimitive p) = (ty = TPrimitive (get_type p))"
| "exchangeable ty (VList t xs) = (ty = TList t \<and> list_all (exchangeable t) xs)"
| "exchangeable ty (VMap x) =
     (case ty of TMap m \<Rightarrow> bt_ok m \<and> list_all2 (\<lambda>t e. fst t = fst e \<and> exchangeable (snd t) (snd e)) m x | _ \<Rightarrow> False)"
| "exchangeable ty _ = False"

fun no_doubles :: "vm_value \<Rightarrow> bool" where
  "no_doubles (VPrimitive (PDouble _)) = False"
| "no_doubles (VList _ xs) = list_all no_doubles xs"
| "no_doubles (VMap x) = list_all (\<lambda>e. no_doubles (snd e)) x"
| "no_doubles _ = True"


lemma decode_simps:
  "decode E T ty SNull = Inr (VNull ty)"
  "decode E T TBool (SBool b) = Inr (VBool b)"
  "decode E T (TPrimitive p) s = (if s = SNull then Inr (VNull (TPrimitive p)) else bindR (decode_primitive E T s p) (\<lambda>x. Inr (VPrimitive x)))"
  "decode E T (TList t) (STaggedL xs) = bindR (mapR (decode E T t) xs) (\<lambda>node. Inr (VList t node))"
  "decode E T (TMap m) (STaggedM x) =
     bindR (foldR (\<lambda>res (k, field_ty).
        case bt_get x k of
          Some v \<Rightarrow> bindR (decode E T field_ty v) (\<lambda>d. Inr (bt_insert k d res))
        | None \<Rightarrow> Inr (bt_insert k (VNull field_ty) res)) [] m) (\<lambda>res. Inr (VMap res))"
  by (simp_all add: decode.simps [of E T] split: serialized_vm_value.split)

lemma primitive_roundtrip:
  assumes "\<And>b. base64_decode E (base64_encode E b) = Some b" "enable_double c \<or> get_type p \<noteq> DoubleT"
  shows "decode_primitive E T (encode_primitive E T c p) (get_type p) = Inr p" "encode_primitive E T c p \<noteq> SNull"
  using assms by (cases p; simp add: parse_format_i64)+

lemma decode_fields:
  assumes "list_all2 (\<lambda>t e. fst t = fst e \<and> (\<exists>s. bt_get x (fst t) = Some s \<and> decode E T (snd t) s = Inr (snd e))) m vs"
    "bt_ok (acc @ vs)"
  shows "foldR (\<lambda>res (k, field_ty).
        case bt_get x k of
          Some v \<Rightarrow> bindR (decode E T field_ty v) (\<lambda>d. Inr (bt_insert k d res))
        | None \<Rightarrow> Inr (bt_insert k (VNull field_ty) res)) acc m = Inr (acc @ vs)"
  using assms
proof (induction m arbitrary: acc vs)
  case (Cons t m)
  obtain e es where vs: "vs = e # es" using Cons.prems(1) by (cases vs) auto
  obtain k ty where t: "t = (k, ty)" by (cases t)
  have e: "fst e = k" "\<exists>s. bt_get x k = Some s \<and> decode E T ty s = Inr (snd e)" using Cons.prems(1) vs t by auto
  have "\<forall>e' \<in> set acc. fst e' < k" using Cons.prems(2) vs e(1) by (auto simp: bt_ok_def sorted_wrt_append)
  then have "bt_insert k (snd e) acc = acc @ [e]" using e(1) bt_insert_last [of acc k "snd e"] by (cases e) auto
  then show ?case using Cons.IH [of es "acc @ [e]"] Cons.prems e(2) vs t by auto
qed simp

lemma keys_ok: "map fst m = map fst x \<Longrightarrow> bt_ok m \<Longrightarrow> bt_ok x"
  by (simp add: bt_ok_def)

lemma encoded_fields:
  assumes "\<And>e. e \<in> set x \<Longrightarrow> \<exists>s. encode E T c (snd e) = Inr s \<and> P e s" "bt_ok x"
  shows "\<exists>fs. encode E T c (VMap x) = Inr (STaggedM fs) \<and> (\<forall>e \<in> set x. \<exists>s. bt_get fs (fst e) = Some s \<and> P e s)"
proof -
  have "\<exists>fs. mapR (\<lambda>(k, v). bindR (encode E T c v) (\<lambda>s. Inr (k, s))) x = Inr fs \<and>
      list_all2 (\<lambda>e f. fst f = fst e \<and> P e (snd f)) x fs" using assms(1)
  proof (induction x)
    case (Cons e x)
    have "\<exists>fs. mapR (\<lambda>(k, v). bindR (encode E T c v) (\<lambda>s. Inr (k, s))) x = Inr fs \<and> list_all2 (\<lambda>e f. fst f = fst e \<and> P e (snd f)) x fs"
      by (rule Cons.IH, rule Cons.prems) simp
    moreover obtain s where "encode E T c (snd e) = Inr s" "P e s" using Cons.prems [OF list.set_intros(1)] by blast
    moreover from calculation(1) obtain fs where "mapR (\<lambda>(k, v). bindR (encode E T c v) (\<lambda>s. Inr (k, s))) x = Inr fs"
      "list_all2 (\<lambda>e f. fst f = fst e \<and> P e (snd f)) x fs" by blast
    ultimately show ?case by (intro exI [of _ "(fst e, s) # fs"]) (auto simp: split_def)
  qed simp
  then obtain fs where fs: "mapR (\<lambda>(k, v). bindR (encode E T c v) (\<lambda>s. Inr (k, s))) x = Inr fs"
    "list_all2 (\<lambda>e f. fst f = fst e \<and> P e (snd f)) x fs" by blast
  have "map fst x = map fst fs" using fs(2) by (induction rule: list_all2_induct) auto
  then have ok: "bt_ok fs" using keys_ok assms(2) by blast
  have "\<exists>s. bt_get fs (fst e) = Some s \<and> P e s" if "e \<in> set x" for e
    using list_all2_in1 [OF fs(2) that] bt_get_Some_iff [OF ok] by (metis prod.collapse)
  then show ?thesis using fs(1) bt_collect_sorted [OF ok] by simp
qed

lemma value_roundtrip:
  assumes "\<And>b. base64_decode E (base64_encode E b) = Some b"
  shows "exchangeable ty v \<Longrightarrow> enable_double c \<or> no_doubles v \<Longrightarrow> \<exists>s. encode E T c v = Inr s \<and> decode E T ty s = Inr v"
proof (induction v arbitrary: ty)
  case (VPrimitive p)
  then have "enable_double c \<or> get_type p \<noteq> DoubleT" by (cases p) auto
  then show ?case using VPrimitive primitive_roundtrip [OF assms, of c p T] by (simp add: decode_simps)
next
  case (VMap x)
  obtain m where ty: "ty = TMap m" "bt_ok m" "list_all2 (\<lambda>t e. fst t = fst e \<and> exchangeable (snd t) (snd e)) m x"
    using VMap.prems(1) by (auto split: vm_type.splits)
  have "map fst m = map fst x" using ty(3) by (induction rule: list_all2_induct) auto
  then have ok: "bt_ok x" using keys_ok ty(2) by blast
  have each: "\<exists>s. encode E T c (snd e) = Inr s \<and> (\<forall>ty. exchangeable ty (snd e) \<longrightarrow> decode E T ty s = Inr (snd e))" if e: "e \<in> set x" for e
  proof -
    obtain t where t: "exchangeable (snd t) (snd e)" using list_all2_in2 [OF ty(3) e] by auto
    have d: "enable_double c \<or> no_doubles (snd e)" using VMap.prems(2) e by (auto simp: list_all_iff)
    have "snd e \<in> Basic_BNFs.snds e" by (cases e) auto
    note IH = VMap.IH [OF e this _ d]
    from IH [OF t] obtain s where s: "encode E T c (snd e) = Inr s" by blast
    show ?thesis using IH s by (intro exI [of _ s]) auto
  qed
  obtain fs where fs: "encode E T c (VMap x) = Inr (STaggedM fs)"
    "\<forall>e \<in> set x. \<exists>s. bt_get fs (fst e) = Some s \<and> (\<forall>ty. exchangeable ty (snd e) \<longrightarrow> decode E T ty s = Inr (snd e))"
    using encoded_fields [OF each ok] by blast
  have "list_all2 (\<lambda>t e. fst t = fst e \<and> (\<exists>s. bt_get fs (fst t) = Some s \<and> decode E T (snd t) s = Inr (snd e))) m x"
    using ty(3) by (rule list.rel_mono_strong) (use fs(2) in auto)
  then show ?case using decode_fields [of fs E T m x "[]"] ok fs(1) ty(1) by (simp add: decode_simps)
next
  case (VList t xs)
  have "\<exists>ss. mapR (encode E T c) xs = Inr ss \<and> mapR (decode E T t) ss = Inr xs" using VList
  proof (induction xs)
    case (Cons x xs)
    then obtain s where "encode E T c x = Inr s" "decode E T t s = Inr x" by fastforce
    moreover obtain ss where "mapR (encode E T c) xs = Inr ss" "mapR (decode E T t) ss = Inr xs" using Cons by fastforce
    ultimately show ?case by auto
  qed simp
  then show ?case using VList.prems(1) by (auto simp: decode_simps)
qed (auto simp: decode_simps)


section \<open>Decoded arguments\<close>

fun type_sorted :: "vm_type \<Rightarrow> bool" where
  "type_sorted (TMap m) = (bt_ok m \<and> list_all (\<lambda>e. type_sorted (snd e)) m)"
| "type_sorted (TSet t) = type_sorted t"
| "type_sorted (TList t) = type_sorted t"
| "type_sorted _ = True"

lemma decode_primitive_type: "decode_primitive E T s p = Inr x \<Longrightarrow> get_type x = p"
  by (induction E T s p rule: decode_primitive.induct) auto

lemma decode_fields_Inr:
  assumes "foldR (\<lambda>res (k, field_ty).
        case bt_get x k of
          Some v \<Rightarrow> bindR (decode E T field_ty v) (\<lambda>d. Inr (bt_insert k d res))
        | None \<Rightarrow> Inr (bt_insert k (VNull field_ty) res)) acc m = Inr r" "bt_ok m" "\<forall>e \<in> set acc. \<forall>t \<in> set m. fst e < fst t"
    and "\<And>t v d. t \<in> set m \<Longrightarrow> decode E T (snd t) v = Inr d \<Longrightarrow> exchangeable (snd t) d"
  shows "\<exists>vs. r = acc @ vs \<and> list_all2 (\<lambda>t e. fst t = fst e \<and> exchangeable (snd t) (snd e)) m vs"
  using assms
proof (induction m arbitrary: acc)
  case (Cons t m)
  obtain k ty where t: "t = (k, ty)" by (cases t)
  obtain d where d: "exchangeable ty d" "foldR (\<lambda>res (k, field_ty).
        case bt_get x k of
          Some v \<Rightarrow> bindR (decode E T field_ty v) (\<lambda>d. Inr (bt_insert k d res))
        | None \<Rightarrow> Inr (bt_insert k (VNull field_ty) res)) (bt_insert k d acc) m = Inr r"
  proof (cases "bt_get x k")
    case (Some v)
    then obtain d where "decode E T ty v = Inr d" using Cons.prems(1) t by auto
    then show ?thesis using that [of d] Cons.prems(1) Cons.prems(4) [of t] Some t by auto
  qed (use that [of "VNull ty"] Cons.prems(1) t in auto)
  have last: "bt_insert k d acc = acc @ [(k, d)]" using Cons.prems(3) t by (intro bt_insert_last) auto
  have "\<exists>vs. r = bt_insert k d acc @ vs \<and> list_all2 (\<lambda>t e. fst t = fst e \<and> exchangeable (snd t) (snd e)) m vs"
  proof (rule Cons.IH [OF d(2)])
    show "bt_ok m" using Cons.prems(2) by (simp add: bt_ok_Cons)
    show "\<forall>e \<in> set (bt_insert k d acc). \<forall>t \<in> set m. fst e < fst t"
      using Cons.prems(2,3) t unfolding last by (auto simp: bt_ok_Cons)
  qed (use Cons.prems(4) in auto)
  then show ?case using last t d(1) by auto
qed simp

lemma decoded_exchangeable: "decode E T ty s = Inr v \<Longrightarrow> type_sorted ty \<Longrightarrow> exchangeable ty v"
proof (induction ty arbitrary: s v)
  case (TMap m)
  show ?case
  proof (cases s)
    case (STaggedM x)
    obtain r where r: "foldR (\<lambda>res (k, field_ty).
        case bt_get x k of
          Some v \<Rightarrow> bindR (decode E T field_ty v) (\<lambda>d. Inr (bt_insert k d res))
        | None \<Rightarrow> Inr (bt_insert k (VNull field_ty) res)) [] m = Inr r" "v = VMap r"
      using TMap.prems(1) STaggedM by (auto simp: decode_simps)
    have "exchangeable (snd t) d" if "t \<in> set m" "decode E T (snd t) v = Inr d" for t v d
      using TMap.IH [of t "snd t"] TMap.prems(2) that by (cases t) (auto simp: list_all_iff)
    then show ?thesis using decode_fields_Inr [OF r(1)] TMap.prems(2) r(2) by auto
  qed (use TMap.prems(1) in \<open>auto simp: decode.simps [of E T]\<close>)
next
  case (TList t)
  show ?case
  proof (cases s)
    case (STaggedL xs)
    then obtain ys where ys: "v = VList t ys" "list_all2 (\<lambda>x y. decode E T t x = Inr y) xs ys"
      using TList.prems(1) by (auto simp: decode_simps mapR_Inr_iff)
    have "exchangeable t y" if "y \<in> set ys" for y
      using list_all2_in2 [OF ys(2) that] TList.IH TList.prems(2) by auto
    then show ?thesis using ys(1) by (simp add: list_all_iff)
  qed (use TList.prems(1) in \<open>auto simp: decode.simps [of E T]\<close>)
next
  case (TPrimitive p)
  then show ?case by (auto simp: decode_simps split: if_splits dest!: decode_primitive_type)
qed (auto simp: decode.simps [of E T] split: serialized_vm_value.splits)

section \<open>Casts\<close>

lemma bit_length_bounds: "0 < n \<Longrightarrow> 0 < bit_length n \<and> 2 ^ (bit_length n - 1) \<le> n \<and> n < 2 ^ bit_length n"
proof (induction n rule: bit_length.induct)
  case (1 n)
  show ?case
  proof (cases "n div 2 = 0")
    case True
    then have "n = 1" using 1(2) by simp
    then show ?thesis by (simp add: bit_length.simps)
  next
    case False
    have IH: "0 < bit_length (n div 2)" "2 ^ (bit_length (n div 2) - 1) \<le> n div 2" "n div 2 < 2 ^ bit_length (n div 2)"
      using 1 False by auto
    obtain b where b: "bit_length (n div 2) = Suc b" using IH(1) by (cases "bit_length (n div 2)") auto
    have "bit_length n = Suc (Suc b)" using 1(2) b by (simp add: bit_length.simps [of n])
    then show ?thesis using IH b by simp linarith
  qed
qed

lemma small_bit_length:
  assumes "0 < n" "n < 2 ^ k"
  shows "bit_length n \<le> k"
proof (rule ccontr)
  assume "\<not> bit_length n \<le> k"
  then have "(2 :: nat) ^ k \<le> 2 ^ (bit_length n - 1)" by (intro power_increasing) auto
  then show False using bit_length_bounds [OF assms(1)] assms(2) by linarith
qed

lemma f64_fields:
  fixes neg :: bool
  assumes "e < 2 ^ 11" "f < 2 ^ 52"
  defines "w \<equiv> of_nat ((if neg then 2 ^ 63 else 0) + e * 2 ^ 52 + f) :: 64 word"
  shows "f64_exponent w = e" "f64_fraction w = f" "bit w 63 = neg"
proof -
  let ?n = "(if neg then 2 ^ 63 else 0) + e * 2 ^ 52 + f :: nat"
  have b: "e * 2 ^ 52 + f < 2 ^ 63" using assms(1,2) by simp
  have "?n < 2 ^ LENGTH(64)" using b by auto
  then have u: "unat w = ?n" unfolding w_def unat_of_nat by (rule mod_less)
  have q: "?n div 2 ^ 52 = (if neg then 2 ^ 11 else 0) + e"
  proof -
    have "?n = f + ((if neg then 2 ^ 11 else 0) + e) * 2 ^ 52" by simp
    then show ?thesis using assms(2) by (simp only: div_mult_self1 div_less)
  qed
  show "f64_exponent w = e" using assms(1) unfolding f64_exponent_def unat_drop_bit_eq unfolding drop_bit_eq_div u q by (cases neg) simp_all
  have "?n mod 2 ^ 52 = f"
  proof -
    have "?n = f + ((if neg then 2 ^ 11 else 0) + e) * 2 ^ 52" by simp
    then show ?thesis using assms(2) by (simp only: mod_mult_self1 mod_less)
  qed
  then show "f64_fraction w = f" unfolding f64_fraction_def u .
  have "bit w 63 \<longleftrightarrow> odd (unat w div 2 ^ 63)" 
    using bit_unsigned_iff [of w 63, where 'a = nat] by (simp only: bit_iff_odd possible_bit_nat simp_thms)
  also have "unat w div 2 ^ 63 = (if neg then 1 else 0)" unfolding u using b by (auto intro!: div_nat_eqI)
  finally show "bit w 63 = neg" by simp
qed


lemma round_small:
  assumes "0 < n" "n < 2 ^ 53"
  shows "2 ^ 52 \<le> round_mantissa (bit_length n) n" "round_mantissa (bit_length n) n < 2 ^ 53"
    "round_mantissa (bit_length n) n = n * 2 ^ (53 - bit_length n)"
proof -
  let ?l = "bit_length n"
  have l: "?l \<le> 53" "0 < ?l" "2 ^ (?l - 1) \<le> n" "n < 2 ^ ?l"
    using small_bit_length [OF assms] bit_length_bounds [OF assms(1)] by auto
  then show eq: "round_mantissa ?l n = n * 2 ^ (53 - ?l)" by (simp add: round_mantissa_def)
  have "2 ^ (?l - 1) * 2 ^ (53 - ?l) = (2 :: nat) ^ 52" "2 ^ ?l * 2 ^ (53 - ?l) = (2 :: nat) ^ 53"
    using l(1,2) by (simp_all only: power_add [symmetric]) (auto intro: arg_cong)
  then show "2 ^ 52 \<le> round_mantissa ?l n" "round_mantissa ?l n < 2 ^ 53"
    unfolding eq using mult_le_mono1 [OF l(3), of "2 ^ (53 - ?l)"] mult_less_mono1 [OF l(4), of "2 ^ (53 - ?l)"] by simp_all
qed

lemma cast_magnitude:
  assumes "0 < n" "n < 2 ^ 53" "f64_exponent w = bit_length n + 1022" "f64_fraction w = round_mantissa (bit_length n) n - 2 ^ 52"
  shows "f64_magnitude w = n"
proof -
  have l: "bit_length n \<le> 53" "0 < bit_length n" using small_bit_length [OF assms(1,2)] bit_length_bounds [OF assms(1)] by auto
  have m: "f64_fraction w + 2 ^ 52 = n * 2 ^ (53 - bit_length n)" using round_small [OF assms(1,2)] assms(4) by simp
  show ?thesis
  proof (cases "bit_length n = 53")
    case True
    then show ?thesis using m assms(3) by (simp add: f64_magnitude_def)
  next
    case False
    then have "1075 - f64_exponent w = 53 - bit_length n" "\<not> f64_exponent w \<ge> 1075" "f64_exponent w \<noteq> 0" using l assms(3) by auto
    then show ?thesis unfolding f64_magnitude_def Let_def using m by (simp del: power_numeral)
  qed
qed

section \<open>Properties\<close>

text \<open>
  C8. Results survive the exchange format: a value whose shape is that of a type made of primitives, booleans, lists and maps
  is encoded under every configuration, and decoding at that type gives it back; only doubles need the
  configuration that sends them as numbers.
\<close>

theorem exchange_roundtrip:
  assumes "\<forall>b. base64_decode E (base64_encode E b) = Some b" "exchangeable ty v" "enable_double c \<or> no_doubles v"
  shows "bindR (encode E T c v) (decode E T ty) = Inr v"
  using value_roundtrip [of E ty v c T] assms by auto

theorem exchange_roundtrip_witness:
  "bindR (encode sample_externs \<lparr>f64_display = (\<lambda>_. []), from_utf8_lossy = (\<lambda>_. [])\<rparr> \<lparr>enable_bytes = False, enable_int64 = False, enable_double = False\<rparr>
      (VMap [(''k'', VPrimitive (PBytes [1, 2])), (''n'', VList (TPrimitive Int64T) [VPrimitive (PInt64 (- 5)), VNull (TPrimitive Int64T)])]))
    (decode sample_externs \<lparr>f64_display = (\<lambda>_. []), from_utf8_lossy = (\<lambda>_. [])\<rparr>
      (TMap [(''k'', TPrimitive BytesT), (''n'', TList (TPrimitive Int64T))])) =
    Inr (VMap [(''k'', VPrimitive (PBytes [1, 2])), (''n'', VList (TPrimitive Int64T) [VPrimitive (PInt64 (- 5)), VNull (TPrimitive Int64T)])])"
proof (rule exchange_roundtrip)
  show "\<forall>b. base64_decode sample_externs (base64_encode sample_externs b) = Some b"
    by (simp add: sample_externs_def as_bytes_def comp_def byte_of_char)
qed (simp_all add: bt_ok_def)

text \<open>
  C9. Arguments are well-typed: whatever a client sends, if decoding at a type succeeds then the value has that type in
  every part, with absent fields and nulls as null values of the field's type.
\<close>

theorem decoded_argument_typed:
  assumes "decode E T ty s = Inr v" "type_sorted ty"
  shows "exchangeable ty v"
  using assms by (rule decoded_exchangeable)

theorem decoded_argument_typed_witness:
  "\<exists>v. decode sample_externs \<lparr>f64_display = (\<lambda>_. []), from_utf8_lossy = (\<lambda>_. [])\<rparr> (TMap [(''a'', TBool), (''b'', TPrimitive Int64T)])
      (STaggedM [(''b'', SString ''-12'')]) = Inr v \<and> exchangeable (TMap [(''a'', TBool), (''b'', TPrimitive Int64T)]) v"
proof -
  have "decode sample_externs \<lparr>f64_display = (\<lambda>_. []), from_utf8_lossy = (\<lambda>_. [])\<rparr> (TMap [(''a'', TBool), (''b'', TPrimitive Int64T)])
      (STaggedM [(''b'', SString ''-12'')]) = Inr (VMap [(''a'', VNull TBool), (''b'', VPrimitive (PInt64 (- 12)))])"
    by (simp add: decode_simps parse_i64_def parse_nat_def digit_value_def Let_def)
  from decoded_argument_typed [OF this] this show ?thesis by (simp add: bt_ok_def)
qed



text \<open>Doubles sent as text are not read back: the text is parsed as the bits of the number.\<close>

lemma double_text_lost:
  "f64_display T 0x4000000000000000 = ''2'' \<Longrightarrow>
   bindR (encode E T \<lparr>enable_bytes = b, enable_int64 = i, enable_double = False\<rparr> (VPrimitive (PDouble 0x4000000000000000)))
     (decode E T (TPrimitive DoubleT)) = Inr (VPrimitive (PDouble 2))"
  by (simp add: decode_simps parse_u64_def parse_nat_def digit_value_def Let_def)

end
