(* ===== verification/Script_Context.thy ===== *)
theory Script_Context
  imports Script_Pipeline Exchange "HOL-Library.Countable"
begin

text \<open>
  Loaded scripts on the server: \<^verbatim>\<open>rdb-server/src/exec_core.rs\<close> compiles, checks and prepares a script,
  \<^verbatim>\<open>rdb-server/src/exec.rs\<close> runs one of its exported graphs on arguments in the exchange format.
  The generated parsers and the library codecs the server calls are the fields of the record \<open>services\<close>. The lifetimes
  that \<^verbatim>\<open>ExecContext\<close> transmutes have no counterpart, since values of the model are not borrowed.
\<close>

section \<open>Errors and services\<close>

text \<open>The errors that an \<^verbatim>\<open>anyhow::Error\<close> of the server carries.\<close>

datatype 'e server_error =
    AsmFailed tw_asm_error
  | ConstFailed vm_value_error
  | TypeckFailed typeck_error
  | ExecFailed "'e exec_error"
  | LookupFailed vm_error
  | SerializeFailed serialize_error
  | SchemaSyntax string
  | SchemaFailed schema_compile_error
  | PlannerFailed planner_error
  | KeyTextFailed storage_key_conversion_error
  | CodecFailed
  | StoreFailed 'e
  | StoreCommitFailed kv_error
  | GraphExecutorPanic
  | ParamCountMismatch nat nat
  | Timeout
  | NamespaceNotFound
  | QueryScriptNotFound
  | InvalidStoragePlan

record services =
  sv_externs :: externs
  sv_text :: text_ops
  sv_parse_schema :: "string \<Rightarrow> string + schema_ast"
  sv_parse_script :: "string \<Rightarrow> string + root"
  sv_kosaraju :: "nat \<Rightarrow> (nat \<times> nat) list \<Rightarrow> nat list list"
  sv_plan_to_rmp :: "storage_key storage_plan \<Rightarrow> bytes option"
  sv_plan_from_rmp :: "bytes \<Rightarrow> storage_key storage_plan option"
  sv_snap_encode :: "bytes \<Rightarrow> bytes"
  sv_snap_decode :: "bytes \<Rightarrow> bytes option"
  sv_plan_to_yaml :: "string storage_plan \<Rightarrow> string option"
  sv_plan_from_yaml :: "string \<Rightarrow> string storage_plan option"
  sv_sha256_hex :: "bytes \<Rightarrow> string"

text \<open>The \<^verbatim>\<open>From\<close> conversion of an error that \<^verbatim>\<open>?\<close> applies.\<close>

fun via :: "('a \<Rightarrow> 'b) \<Rightarrow> ('a, 'x) outcome \<Rightarrow> ('b, 'x) outcome" where
  "via f (Inr x) = Inr x"
| "via f (Inl (Err e)) = Inl (Err (f e))"
| "via f (Inl (Panic m)) = Inl (Panic m)"
| "via f (Inl OutOfFuel) = Inl OutOfFuel"

definition serialize_compressed :: "services \<Rightarrow> storage_key storage_plan \<Rightarrow> ('e server_error, bytes) outcome" where
  "serialize_compressed S plan =
     bindR (ok_or CodecFailed (sv_plan_to_rmp S plan)) (\<lambda>serialized. Inr (sv_snap_encode S serialized))"

definition deserialize_compressed :: "services \<Rightarrow> bytes \<Rightarrow> ('e server_error, storage_key storage_plan) outcome" where
  "deserialize_compressed S data =
     bindR (ok_or CodecFailed (sv_snap_decode S data)) (\<lambda>serialized. ok_or CodecFailed (sv_plan_from_rmp S serialized))"

section \<open>Loading\<close>

record schema_context =
  sc_schema :: compiled_schema
  sc_plan :: "storage_key storage_plan"

record exec_context =
  ec_vm :: tw_vm
  ec_type_info :: global_type_info
  ec_root_map :: vm_value

definition exec_context_load :: "services \<Rightarrow> schema_context \<Rightarrow> string \<Rightarrow> ('e server_error, exec_context) outcome" where
  "exec_context_load S ctx script =
     bindR (via AsmFailed (compile_twscript (sv_parse_script S) script)) (\<lambda>script.
     bindR (via ConstFailed (tw_vm_new (sv_externs S) (sc_schema ctx) (sc_plan ctx) script)) (\<lambda>vm.
     bindR (via TypeckFailed (bindR (tyck_new (sv_kosaraju S) vm) typeck)) (\<lambda>type_info.
     bindR (via ExecFailed (generate_root_map (sc_schema ctx) (sc_plan ctx))) (\<lambda>root_map.
     Inr \<lparr>ec_vm = vm, ec_type_info = type_info, ec_root_map = root_map\<rparr>))))"

section \<open>Running an exported graph\<close>

text \<open>
  The circumstances of a run: the order in which its futures complete, what other clients do to the
  store during its attempts, and, when the timer of the query ends first, the store at that moment.
\<close>

record ('s, 't) run_env =
  re_pick :: "nat \<Rightarrow> nat \<Rightarrow> 't run_state \<Rightarrow> nat"
  re_others :: "nat \<Rightarrow> 's \<Rightarrow> 's"
  re_timeout :: "'s option"

record ('e, 's, 't) kv_backend =
  bk_kv :: "('e, 't) kv_transaction"
  bk_store :: "('e, 's, 't) kv_store"

definition decode_param ::
  "services \<Rightarrow> exec_context \<Rightarrow> serialized_vm_value \<times> vm_type \<times> vm_type \<Rightarrow> ('e server_error, vm_value) outcome" where
  "decode_param S ctx p =
     (case p of (v, ty, raw_ty) \<Rightarrow>
      if raw_ty = TSchema then Inr (ec_root_map ctx)
      else via SerializeFailed (decode (sv_externs S) (sv_text S) ty v))"

definition prepare_run ::
  "services \<Rightarrow> exec_context \<Rightarrow> ('e, 't) kv_transaction \<Rightarrow> string \<Rightarrow> serialized_vm_value list \<Rightarrow>
   ('e server_error, ('e, 't) executor \<times> nat \<times> vm_value list) outcome" where
  "prepare_run S ctx kv name params =
     bindR (via LookupFailed (lookup_exported_graph_by_name (ec_vm ctx) name)) (\<lambda>graph_index.
     bindR (index_or_panic (ec_type_info ctx) graph_index) (\<lambda>info.
     bindR (index_or_panic (s_graphs (vm_script (ec_vm ctx))) graph_index) (\<lambda>g.
     bindR (mapR (index_or_panic (vm_types (ec_vm ctx))) (g_param_types g)) (\<lambda>raw_param_types.
     let param_types = gti_params info in
     if length param_types \<noteq> length raw_param_types then Inl (Panic ''assertion failed: `(left == right)`'')
     else if length param_types \<noteq> length params then Inl (Err (ParamCountMismatch (length param_types) (length params)))
     else bindR (via ExecFailed (executor_new (ec_vm ctx) kv (ec_type_info ctx))) (\<lambda>ex.
          bindR (mapR (decode_param S ctx) (zip params (zip param_types raw_param_types))) (\<lambda>args.
          Inr (ex, graph_index, args)))))))"

definition encode_output ::
  "services \<Rightarrow> encode_config \<Rightarrow> vm_value option \<Rightarrow> ('e server_error, serialized_vm_value) outcome" where
  "encode_output S config output =
     bindR (via SerializeFailed (option_mapR (encode (sv_externs S) (sv_text S) config) output)) (\<lambda>x.
     Inr (case x of Some y \<Rightarrow> y | None \<Rightarrow> SNull))"

definition run_exported_graph_inner ::
  "services \<Rightarrow> exec_context \<Rightarrow> ('e, 's, 't) kv_backend \<Rightarrow> ('s, 't) run_env \<Rightarrow> string \<Rightarrow> serialized_vm_value list \<Rightarrow>
   encode_config \<Rightarrow> 's \<Rightarrow> ('e server_error, serialized_vm_value) outcome \<times> 's" where
  "run_exported_graph_inner S ctx bk env name params config s =
     (case prepare_run S ctx (bk_kv bk) name params of
        Inl e \<Rightarrow> (Inl e, s)
      | Inr (ex, graph_index, args) \<Rightarrow>
          (case run_graph (sv_externs S) ex (bk_store bk) (re_pick env) (re_others env) graph_index args s of
             (output, s') \<Rightarrow> (bindR (via ExecFailed output) (encode_output S config), s')))"

text \<open>A panic is caught and reported, and the timer of five seconds ends a run that takes longer.\<close>

fun catch_unwind :: "('e server_error, 'a) outcome \<Rightarrow> ('e server_error, 'a) outcome" where
  "catch_unwind (Inl (Panic _)) = Inl (Err GraphExecutorPanic)"
| "catch_unwind r = r"

definition run_exported_graph ::
  "services \<Rightarrow> exec_context \<Rightarrow> ('e, 's, 't) kv_backend \<Rightarrow> ('s, 't) run_env \<Rightarrow> string \<Rightarrow> serialized_vm_value list \<Rightarrow>
   encode_config \<Rightarrow> 's \<Rightarrow> ('e server_error, serialized_vm_value) outcome \<times> 's" where
  "run_exported_graph S ctx bk env name params config s =
     (case re_timeout env of
        Some s' \<Rightarrow> (Inl (Err Timeout), s')
      | None \<Rightarrow> apfst catch_unwind (run_exported_graph_inner S ctx bk env name params config s))"

definition mem_backend :: "('e, mem_store, mem_transaction) kv_backend" where
  "mem_backend = \<lparr>bk_kv = mem_kv, bk_store = mem_kv_store\<rparr>"

section \<open>Sample services\<close>

text \<open>Codecs that number the plans, and parsers that know one schema and one script.\<close>

instance word :: (len) countable
  by (rule countable_classI [of unat]) (simp add: word_unat_eq_iff)

instance storage_node :: (countable) countable
  by countable_datatype

definition sample_services :: "schema_ast \<Rightarrow> root \<Rightarrow> services" where
  "sample_services schema script = \<lparr>sv_externs = sample_externs,
     sv_text = \<lparr>f64_display = (\<lambda>_. ''0''), from_utf8_lossy = (\<lambda>_. [])\<rparr>,
     sv_parse_schema = (\<lambda>_. Inr schema), sv_parse_script = (\<lambda>_. Inr script), sv_kosaraju = single_components,
     sv_plan_to_rmp = (\<lambda>p. Some (replicate (to_nat p) 0)), sv_plan_from_rmp = (\<lambda>b. Some (from_nat (length b))),
     sv_snap_encode = (\<lambda>b. b), sv_snap_decode = Some,
     sv_plan_to_yaml = (\<lambda>p. Some (replicate (to_nat p) (CHR ''0''))), sv_plan_from_yaml = (\<lambda>s. Some (from_nat (length s))),
     sv_sha256_hex = (\<lambda>b. replicate (length b) (CHR ''0''))\<rparr>"

definition twice_root :: root where
  "twice_root = main_root [SNode (Some ''x'') (ELoadConst (LitInteger 7)), SReturn (EAdd (ENode ''x'') (ENode ''x''))]"

definition twice_context :: exec_context where
  "twice_context = \<lparr>ec_vm = one_graph twice_graph, ec_type_info = twice_info,
     ec_root_map = sample_root\<rparr>"

section \<open>Runs come back\<close>

lemma via_Inr_iff [simp]: "via f r = Inr x \<longleftrightarrow> r = Inr x"
  by (cases "(f, r)" rule: via.cases) auto

lemma returns_via [returns_intros]: "returns r \<Longrightarrow> returns (via f r)"
  by (cases "(f, r)" rule: via.cases) auto

lemmas returns_mapR = fails_only_mapR [where Q = "\<lambda>f. f \<noteq> OutOfFuel"]

lemma returns_decode_primitive: "returns (decode_primitive E T s p)"
  by (induction E T s p rule: decode_primitive.induct) (auto intro!: returns_intros)

lemma returns_decode: "returns (decode E T ty s)"
proof (induction ty arbitrary: s)
  case (TMap m)
  have "returns (case bt_get x k of
      Some v \<Rightarrow> bindR (decode E T field_ty v) (\<lambda>d. Inr (bt_insert k d res)) | None \<Rightarrow> Inr (bt_insert k (VNull field_ty) res))"
    if "(k, field_ty) \<in> set m" for x k field_ty and res :: "(string \<times> vm_value) list"
    using TMap [OF that] by (cases "bt_get x k") (auto intro!: returns_bindR)
  then show ?case
    by (cases s) (auto simp: decode.simps [of E T] intro!: returns_bindR fails_only_foldR [where P = "\<lambda>_. True"])
next
  case (TList ty)
  then show ?case by (cases s) (auto simp: decode.simps [of E T] intro!: returns_bindR returns_mapR)
next
  case (TPrimitive p)
  then show ?case by (cases s) (auto simp: decode.simps [of E T] intro!: returns_bindR returns_decode_primitive)
qed (simp_all add: decode.simps [of E T] split: serialized_vm_value.split)

lemma returns_encode: "returns (encode E T c v)"
  by (induction v) (auto intro!: returns_bindR returns_mapR)

lemma returns_prepare:
  assumes "executor_new (ec_vm ctx) kv (ec_type_info ctx) = Inr ex"
  shows "returns (prepare_run S ctx kv name params)"
  unfolding prepare_run_def lookup_exported_graph_by_name_def Let_def assms
  by (auto simp: decode_param_def intro!: returns_intros returns_mapR returns_decode)

text \<open>The retry loop over the in-memory store.\<close>

lemma attempts_end:
  assumes "executor_ready ex" "ex_kv ex = (mem_kv :: ('e, mem_transaction) kv_transaction)"
    and others: "\<And>j s. bt_ok (ms_data s) \<Longrightarrow> bt_ok (ms_data (others j s))"
  shows "bt_ok (ms_data s) \<Longrightarrow> run_attempts E ex mem_kv_store pick others is gi gps s = (r, s') \<Longrightarrow> returns r \<and> bt_ok (ms_data s')"
proof (induction "is" arbitrary: s)
  case (Cons j js)
  obtain t s1 where t: "begin_transaction s = (t, s1)" by (cases "begin_transaction s")
  then have ok: "mem_txn_ok t" "bt_ok (ms_data (others j s1))"
    using Cons.prems(1) others by (auto simp: begin_transaction_def mem_txn_ok_def bt_ok_def)
  have "ends (\<lambda>(v, t). mem_txn_ok t) (recursively_run_graph E ex pick MAX_RECURSION_DEPTH gi gps t)"
    by (rule mem.run_graph_ends [OF assms(1,2) ok(1)])
  then consider (fails) e where "recursively_run_graph E ex pick MAX_RECURSION_DEPTH gi gps t = Inl e" "e \<noteq> OutOfFuel"
    | (result) v t' where "recursively_run_graph E ex pick MAX_RECURSION_DEPTH gi gps t = Inr (v, t')" "mem_txn_ok t'"
    by (cases "recursively_run_graph E ex pick MAX_RECURSION_DEPTH gi gps t") auto
  then show ?case
  proof cases
    case fails
    then show ?thesis using Cons.prems(2) t ok(2) by (auto simp: mem_kv_store_def)
  next
    case result
    show ?thesis
      by (rule mem_commit_cases [OF result(2) ok(2)]) (use Cons t result(1) ok(2) in \<open>auto simp: mem_kv_store_def\<close>)
  qed
qed auto

lemma catch_unwind_settled: "returns r \<Longrightarrow> settled (catch_unwind r)"
  by (cases r rule: catch_unwind.cases) auto

text \<open>A loaded script is assembled and checked, and an executor can be built for it.\<close>

lemma loaded_ready:
  assumes "exec_context_load S sc script = Inr ctx" "covers_nodes (sv_kosaraju S)"
  shows "\<exists>ex. executor_new (ec_vm ctx) kv (ec_type_info ctx) = Inr ex \<and> executor_ready ex \<and> ex_kv ex = kv"
proof -
  have "checked (sv_kosaraju S) (ec_vm ctx) (ec_type_info ctx)"
    using assms(1) by (auto simp: exec_context_load_def checked_def)
  from executor_new_ready [OF checked_forward [OF assms(2) this]] show ?thesis by blast
qed


lemma sample_root_map: "generate_root_map list_compiled list_plan = Inr sample_root"
  by (simp add: generate_root_map_def list_compiled_def list_plan_def from_export_def sample_root_def sample_walker_def)

lemma twice_loads:
  "exec_context_load (sample_services schema twice_root) \<lparr>sc_schema = list_compiled, sc_plan = list_plan\<rparr> text = Inr twice_context"
proof -
  have vm: "tw_vm_new sample_externs list_compiled list_plan (vm_script (one_graph twice_graph)) = Inr (one_graph twice_graph)"
    by (simp add: tw_vm_new_def one_graph_def twice_graph_def exported_graph_name_index_def)
  show ?thesis
    using twice_compiles twice_checked vm
    by (simp add: exec_context_load_def sample_services_def twice_root_def compile_twscript_def checked_def twice_context_def sample_root_map)
qed


end
