(* ===== verification/Query_Cache.thy ===== *)
theory Query_Cache
  imports Rdb_Prelude
begin

text \<open>
  The server's cache of loaded query scripts, \<^verbatim>\<open>rdb-server/src/query_cache.rs\<close>. The cache type of
  the \<^verbatim>\<open>lru\<close> package is a parameter: a record of the operations the code calls. What the code
  relies on is \<open>lru_cache\<close>: the entries stand in an order of use, \<^verbatim>\<open>put\<close> makes its entry the
  most recent one, \<^verbatim>\<open>peek\<close> changes nothing and \<^verbatim>\<open>pop_lru\<close> removes the oldest.
  Times are nanoseconds of one monotonic clock, read while the lock of the
  hot items is held. The script context is of any type.
\<close>

section \<open>The cache\<close>

record ('k, 'v, 'c) lru_ops =
  lru_unbounded :: 'c
  lru_peek :: "'c \<Rightarrow> 'k \<Rightarrow> 'v option"
  lru_put :: "'c \<Rightarrow> 'k \<Rightarrow> 'v \<Rightarrow> 'c"
  lru_peek_lru :: "'c \<Rightarrow> ('k \<times> 'v) option"
  lru_pop_lru :: "'c \<Rightarrow> 'c"
  lru_len :: "'c \<Rightarrow> nat"

definition MIN_QUERY_CACHE_SIZE :: nat where
  "MIN_QUERY_CACHE_SIZE = 64"

definition QUERY_CACHE_SHRINK_STEP_SIZE :: nat where
  "QUERY_CACHE_SHRINK_STEP_SIZE = 16"

definition HOT_ITEM_TTL :: nat where
  "HOT_ITEM_TTL = 3 * 10 ^ 9"

record query_cache_key =
  qk_namespace_id :: string
  qk_deployment_id :: string
  qk_query_script_id :: string
  qk_query_script_create_time :: "64 word"

record 'x hot_item =
  hi_exec_ctx :: 'x
  hi_create_time :: nat

record ('i, 'h) query_cache =
  qc_items :: 'i
  qc_hot_items :: 'h
  process_memory_threshold_kb :: nat

type_synonym ('x, 'i) item_ops = "(query_cache_key, 'x, 'i) lru_ops"
type_synonym ('x, 'h) hot_ops = "(string \<times> string, 'x hot_item, 'h) lru_ops"

definition query_cache_new :: "('x, 'i) item_ops \<Rightarrow> ('x, 'h) hot_ops \<Rightarrow> nat \<Rightarrow> ('i, 'h) query_cache" where
  "query_cache_new I H threshold =
     \<lparr>qc_items = lru_unbounded I, qc_hot_items = lru_unbounded H, process_memory_threshold_kb = threshold\<rparr>"

definition get_hot :: "('x, 'h) hot_ops \<Rightarrow> string \<Rightarrow> string \<Rightarrow> ('i, 'h) query_cache \<Rightarrow> 'x option" where
  "get_hot H ns qs c = (case lru_peek H (qc_hot_items c) (ns, qs) of Some x \<Rightarrow> Some (hi_exec_ctx x) | None \<Rightarrow> None)"

definition cache_get ::
  "('x, 'i) item_ops \<Rightarrow> ('x, 'h) hot_ops \<Rightarrow> nat \<Rightarrow> query_cache_key \<Rightarrow> ('i, 'h) query_cache \<Rightarrow> 'x option \<times> ('i, 'h) query_cache" where
  "cache_get I H now key c =
     (let item = lru_peek I (qc_items c) key in
      (item,
       case item of
         Some x \<Rightarrow> c\<lparr>qc_hot_items := lru_put H (qc_hot_items c) (qk_namespace_id key, qk_query_script_id key)
           \<lparr>hi_exec_ctx = x, hi_create_time = now\<rparr>\<rparr>
       | None \<Rightarrow> c))"

definition cache_put ::
  "('x, 'i) item_ops \<Rightarrow> query_cache_key \<Rightarrow> 'x \<Rightarrow> ('i, 'h) query_cache \<Rightarrow> ('i, 'h) query_cache" where
  "cache_put I key x c = c\<lparr>qc_items := lru_put I (qc_items c) key x\<rparr>"

text \<open>
  The first step of a collection takes hot items from the old end until one is young enough; the fuel is
  the number of hot items. A create time later than \<open>now\<close> would be an
  error of the clock; older versions of \<^verbatim>\<open>duration_since\<close> panic on it.
\<close>

fun expire_hot :: "nat \<Rightarrow> ('x, 'h) hot_ops \<Rightarrow> nat \<Rightarrow> 'h \<Rightarrow> (unit, 'h) outcome" where
  "expire_hot fuel H now h =
     (case lru_peek_lru H h of
        None \<Rightarrow> Inr h
      | Some (_, v) \<Rightarrow>
          if now < hi_create_time v then Inl (Panic ''supplied instant is later than self'')
          else if now - hi_create_time v > HOT_ITEM_TTL
          then (case fuel of 0 \<Rightarrow> Inl OutOfFuel | Suc n \<Rightarrow> expire_hot n H now (lru_pop_lru H h))
          else Inr h)"

declare expire_hot.simps [simp del]

definition shrink_items :: "('x, 'i) item_ops \<Rightarrow> nat \<Rightarrow> nat \<Rightarrow> 'i \<Rightarrow> 'i" where
  "shrink_items I memory_usage_kb threshold items =
     (if memory_usage_kb > threshold \<and> lru_len I items > MIN_QUERY_CACHE_SIZE
      then (lru_pop_lru I ^^ QUERY_CACHE_SHRINK_STEP_SIZE) items else items)"

definition gc_round ::
  "('x, 'i) item_ops \<Rightarrow> ('x, 'h) hot_ops \<Rightarrow> nat \<Rightarrow> nat \<Rightarrow> ('i, 'h) query_cache \<Rightarrow> (unit, ('i, 'h) query_cache) outcome" where
  "gc_round I H now memory_usage_kb c =
     bindR (expire_hot (lru_len H (qc_hot_items c)) H now (qc_hot_items c)) (\<lambda>hot.
     Inr (c\<lparr>qc_hot_items := hot, qc_items := shrink_items I memory_usage_kb (process_memory_threshold_kb c) (qc_items c)\<rparr>))"

section \<open>What the code relies on\<close>

definition use_entry :: "'k \<Rightarrow> 'v \<Rightarrow> ('k \<times> 'v) list \<Rightarrow> ('k \<times> 'v) list" where
  "use_entry k v xs = List.filter (\<lambda>e. fst e \<noteq> k) xs @ [(k, v)]"

definition lru_cache :: "('k, 'v, 'c) lru_ops \<Rightarrow> ('c \<Rightarrow> ('k \<times> 'v) list) \<Rightarrow> bool" where
  "lru_cache L entries \<longleftrightarrow>
     entries (lru_unbounded L) = [] \<and>
     (\<forall>c k. lru_peek L c k = map_of (entries c) k) \<and>
     (\<forall>c k v. entries (lru_put L c k v) = use_entry k v (entries c)) \<and>
     (\<forall>c. lru_peek_lru L c = (case entries c of [] \<Rightarrow> None | e # _ \<Rightarrow> Some e)) \<and>
     (\<forall>c. entries (lru_pop_lru L c) = tl (entries c)) \<and>
     (\<forall>c. lru_len L c = length (entries c))"

definition list_lru :: "('k, 'v, ('k \<times> 'v) list) lru_ops" where
  "list_lru = \<lparr>lru_unbounded = [], lru_peek = map_of, lru_put = (\<lambda>c k v. use_entry k v c),
     lru_peek_lru = (\<lambda>c. case c of [] \<Rightarrow> None | e # _ \<Rightarrow> Some e), lru_pop_lru = tl, lru_len = length\<rparr>"

section \<open>Histories of the cache\<close>

text \<open>
  Clients and the collector work on the cache in any order, while the clock advances. The history
  records what was put under which key.
\<close>

inductive cache_reach ::
  "('x, 'i) item_ops \<Rightarrow> ('x, 'h) hot_ops \<Rightarrow> nat \<Rightarrow> (query_cache_key \<times> 'x) list \<Rightarrow> ('i, 'h) query_cache \<Rightarrow> bool"
  for I :: "('x, 'i) item_ops" and H :: "('x, 'h) hot_ops" where
  reach_init: "cache_reach I H now [] (query_cache_new I H threshold)"
| reach_get: "cache_reach I H t hist c \<Longrightarrow> t \<le> now \<Longrightarrow> cache_reach I H now hist (snd (cache_get I H now key c))"
| reach_put: "cache_reach I H t hist c \<Longrightarrow> cache_reach I H t ((key, x) # hist) (cache_put I key x c)"
| reach_gc: "cache_reach I H t hist c \<Longrightarrow> t \<le> now \<Longrightarrow> gc_round I H now mem c = Inr c' \<Longrightarrow> cache_reach I H now hist c'"

section \<open>Lemmas\<close>

lemma list_lru_cache: "lru_cache list_lru (\<lambda>c. c)"
  by (simp add: lru_cache_def list_lru_def)

lemma lru_laws:
  assumes "lru_cache L entries"
  shows "entries (lru_unbounded L) = []" "lru_peek L c k = map_of (entries c) k"
    "entries (lru_put L c k v) = use_entry k v (entries c)"
    "lru_peek_lru L c = (case entries c of [] \<Rightarrow> None | e # _ \<Rightarrow> Some e)"
    "entries (lru_pop_lru L c) = tl (entries c)" "lru_len L c = length (entries c)"
  using assms by (auto simp: lru_cache_def)

lemma entries_pops: "lru_cache L entries \<Longrightarrow> entries ((lru_pop_lru L ^^ n) c) = drop n (entries c)"
  by (induction n) (auto simp: lru_laws drop_Suc tl_drop)

lemma set_shrink: "lru_cache I items \<Longrightarrow> set (items (shrink_items I mem th c)) \<subseteq> set (items c)"
  by (simp add: shrink_items_def entries_pops set_drop_subset)

lemma length_shrink:
  assumes "lru_cache I items"
  shows "length (items c) \<le> length (items (shrink_items I mem th c)) + 16"
    "length (items c) > 64 \<Longrightarrow> length (items (shrink_items I mem th c)) > 48"
  using assms by (auto simp: shrink_items_def entries_pops lru_laws MIN_QUERY_CACHE_SIZE_def QUERY_CACHE_SHRINK_STEP_SIZE_def)

text \<open>In order of use the create times of the hot items ascend.\<close>

definition hot_ok :: "nat \<Rightarrow> ('k \<times> 'x hot_item) list \<Rightarrow> bool" where
  "hot_ok now hs \<longleftrightarrow> distinct (map fst hs) \<and> sorted (map (hi_create_time \<circ> snd) hs) \<and> (\<forall>e \<in> set hs. hi_create_time (snd e) \<le> now)"

lemma sorted_map_filter_append:
  "sorted (map f xs) \<Longrightarrow> \<forall>x \<in> set xs. f x \<le> f y \<Longrightarrow> sorted (map f (List.filter P xs @ [y]))"
  by (auto simp: sorted_append sorted_filter)

lemma hot_ok_use:
  "hot_ok t hs \<Longrightarrow> t \<le> now \<Longrightarrow> hot_ok now (use_entry k \<lparr>hi_exec_ctx = x, hi_create_time = now\<rparr> hs)"
  unfolding hot_ok_def use_entry_def
  by (intro conjI sorted_map_filter_append) (auto simp: distinct_map_filter intro: le_trans)

lemma hot_ok_tl: "hot_ok now hs \<Longrightarrow> hot_ok now (tl hs)"
  by (cases hs) (auto simp: hot_ok_def)

lemma hot_ok_mono: "hot_ok t hs \<Longrightarrow> t \<le> now \<Longrightarrow> hot_ok now hs"
  by (auto simp: hot_ok_def intro: le_trans)

text \<open>The expiry loop ends within its fuel and keeps exactly the items that are young enough.\<close>

lemma expire_hot_spec:
  assumes "lru_cache H hot" "hot_ok now (hot h)" "length (hot h) \<le> fuel"
  shows "\<exists>h'. expire_hot fuel H now h = Inr h' \<and> hot_ok now (hot h') \<and>
    hot h' = List.filter (\<lambda>e. now - hi_create_time (snd e) \<le> HOT_ITEM_TTL) (hot h)"
  using assms(2,3)
proof (induction "hot h" arbitrary: h fuel)
  case Nil
  then show ?case using lru_laws(4) [OF assms(1), of h] by (subst expire_hot.simps) auto
next
  case (Cons e es)
  obtain k v where e: "e = (k, v)" by (cases e)
  have hd: "lru_peek_lru H h = Some (k, v)" using Cons.hyps(2) e lru_laws(4) [OF assms(1), of h] by (auto split: list.splits)
  have le: "hi_create_time v \<le> now" and es: "hot (lru_pop_lru H h) = es"
    using Cons.prems(1) Cons.hyps(2) [symmetric] e lru_laws(5) [OF assms(1), of h] by (auto simp: hot_ok_def)
  show ?case
  proof (cases "now - hi_create_time v > HOT_ITEM_TTL")
    case True
    obtain n where n: "fuel = Suc n" "length es \<le> n" using Cons.prems(2) Cons.hyps(2) [symmetric] by (cases fuel) auto
    have "hot_ok now es" using hot_ok_tl [OF Cons.prems(1)] Cons.hyps(2) [symmetric] by simp
    with Cons.hyps(1) [of "lru_pop_lru H h" n] es n(2) obtain h' where
      h': "expire_hot n H now (lru_pop_lru H h) = Inr h'" "hot_ok now (hot h')"
        "hot h' = List.filter (\<lambda>e. now - hi_create_time (snd e) \<le> HOT_ITEM_TTL) es" by auto
    have "expire_hot fuel H now h = Inr h'" using hd le True n(1) h'(1) by (subst expire_hot.simps) simp
    with h' True e Cons.hyps(2) [symmetric] show ?thesis by auto
  next
    case False
    have "expire_hot fuel H now h = Inr h" using hd le False by (subst expire_hot.simps) simp
    moreover have "\<forall>e' \<in> set es. hi_create_time v \<le> hi_create_time (snd e')"
      using Cons.prems(1) Cons.hyps(2) [symmetric] e by (auto simp: hot_ok_def)
    then have "\<forall>e' \<in> set (hot h). now - hi_create_time (snd e') \<le> HOT_ITEM_TTL"
      using False Cons.hyps(2) [symmetric] e by fastforce
    ultimately show ?thesis using Cons.prems(1) by auto
  qed
qed

lemma gc_round_spec:
  assumes "lru_cache H hot" "hot_ok now (hot (qc_hot_items c))"
  shows "\<exists>h'. gc_round I H now mem c = Inr (c\<lparr>qc_hot_items := h',
      qc_items := shrink_items I mem (process_memory_threshold_kb c) (qc_items c)\<rparr>) \<and> hot_ok now (hot h') \<and>
    hot h' = List.filter (\<lambda>e. now - hi_create_time (snd e) \<le> HOT_ITEM_TTL) (hot (qc_hot_items c))"
  using expire_hot_spec [OF assms, of "length (hot (qc_hot_items c))"]
  by (auto simp: gc_round_def lru_laws [OF assms(1)])

definition from_history :: "(query_cache_key \<times> 'x) list \<Rightarrow> (query_cache_key \<times> 'x) list \<Rightarrow> ((string \<times> string) \<times> 'x hot_item) list \<Rightarrow> bool" where
  "from_history hist is hs \<longleftrightarrow> set is \<subseteq> set hist \<and>
     (\<forall>e \<in> set hs. \<exists>key. (key, hi_exec_ctx (snd e)) \<in> set hist \<and> fst e = (qk_namespace_id key, qk_query_script_id key))"

lemma from_history_use:
  "from_history hist is hs \<Longrightarrow> (key, x) \<in> set is \<Longrightarrow>
    from_history hist is (use_entry (qk_namespace_id key, qk_query_script_id key) \<lparr>hi_exec_ctx = x, hi_create_time = t\<rparr> hs)"
  unfolding from_history_def use_entry_def by auto

lemma cache_invariant:
  assumes "lru_cache I items" "lru_cache H hot" "cache_reach I H now hist c"
  shows "hot_ok now (hot (qc_hot_items c)) \<and> from_history hist (items (qc_items c)) (hot (qc_hot_items c))"
  using assms(3)
proof (induction rule: cache_reach.induct)
  case (reach_init now threshold)
  then show ?case by (simp add: query_cache_new_def lru_laws(1) [OF assms(1)] lru_laws(1) [OF assms(2)] hot_ok_def from_history_def)
next
  case (reach_get t hist c now key)
  then show ?case
    by (auto simp: cache_get_def Let_def lru_laws [OF assms(2)] lru_laws(2) [OF assms(1)]
      intro: hot_ok_mono hot_ok_use from_history_use dest: map_of_SomeD split: option.splits)
next
  case (reach_put t hist c key x)
  then show ?case by (auto simp: cache_put_def lru_laws [OF assms(1)] from_history_def use_entry_def)
next
  case (reach_gc t hist c now mem c')
  from gc_round_spec [OF assms(2) hot_ok_mono, of t c now I mem] reach_gc obtain h' where
    h': "c' = c\<lparr>qc_hot_items := h', qc_items := shrink_items I mem (process_memory_threshold_kb c) (qc_items c)\<rparr>"
      "hot_ok now (hot h')" "set (hot h') \<subseteq> set (hot (qc_hot_items c))" by auto
  then show ?case using reach_gc.IH set_shrink [OF assms(1)] by (fastforce simp: from_history_def)
qed

section \<open>The hot items\<close>

text \<open>
  C34. Bounded staleness: after any history of the cache a round of the collector comes to its end without a
  panic, and every context that is served from the hot items afterwards was put into the cache under a key of the same
  namespace and script and entered the hot items no more than three seconds before the round. The round removes
  at most sixteen loaded scripts, and never shrinks the cache below 49 of them.
\<close>

theorem hot_items_expire:
  assumes "lru_cache I items" "lru_cache H hot" "cache_reach I H t hist c" "t \<le> now"
  shows "\<exists>c'. gc_round I H now mem c = Inr c' \<and>
    (\<forall>ns qs x. get_hot H ns qs c' = Some x \<longrightarrow>
       (\<exists>v key. map_of (hot (qc_hot_items c')) (ns, qs) = Some v \<and> hi_exec_ctx v = x \<and> now \<le> hi_create_time v + 3 * 10 ^ 9 \<and>
         (key, x) \<in> set hist \<and> qk_namespace_id key = ns \<and> qk_query_script_id key = qs)) \<and>
    length (items (qc_items c)) \<le> length (items (qc_items c')) + 16 \<and>
    (length (items (qc_items c)) > 64 \<longrightarrow> length (items (qc_items c')) > 48)"
proof -
  note inv = cache_invariant [OF assms(1-3)]
  from gc_round_spec [OF assms(2) hot_ok_mono [OF conjunct1 [OF inv] assms(4)], of I mem] obtain h' where
    h': "gc_round I H now mem c = Inr (c\<lparr>qc_hot_items := h', qc_items := shrink_items I mem (process_memory_threshold_kb c) (qc_items c)\<rparr>)"
      "hot h' = List.filter (\<lambda>e. now - hi_create_time (snd e) \<le> HOT_ITEM_TTL) (hot (qc_hot_items c))" by blast
  have "\<exists>key. hi_exec_ctx v = hi_exec_ctx v \<and> now \<le> hi_create_time v + 3 * 10 ^ 9 \<and> (key, hi_exec_ctx v) \<in> set hist \<and>
      qk_namespace_id key = ns \<and> qk_query_script_id key = qs" if "map_of (hot h') (ns, qs) = Some v" for ns qs v
  proof -
    from map_of_SomeD [OF that] h'(2) have v: "((ns, qs), v) \<in> set (hot (qc_hot_items c))" "now - hi_create_time v \<le> HOT_ITEM_TTL" by auto
    from v(1) conjunct2 [OF inv] obtain key where "(key, hi_exec_ctx v) \<in> set hist" "qk_namespace_id key = ns" "qk_query_script_id key = qs"
      unfolding from_history_def by fastforce
    with v(2) show ?thesis by (auto simp: HOT_ITEM_TTL_def)
  qed
  with h'(1) length_shrink [OF assms(1)] show ?thesis
    by (auto simp: get_hot_def lru_laws(2) [OF assms(2)] split: option.splits)
qed

theorem hot_items_expire_witness:
  "let key = \<lparr>qk_namespace_id = ''n'', qk_deployment_id = ''d'', qk_query_script_id = ''q'', qk_query_script_create_time = 5\<rparr>;
       c = snd (cache_get list_lru list_lru 7 key (cache_put list_lru key (42 :: nat) (query_cache_new list_lru list_lru 1000)))
   in get_hot list_lru ''n'' ''q'' c = Some 42 \<and>
     (\<exists>c'. gc_round list_lru list_lru (4 * 10 ^ 9) 0 c = Inr c' \<and> get_hot list_lru ''n'' ''q'' c' = None)"
proof -
  define key where "key = \<lparr>qk_namespace_id = ''n'', qk_deployment_id = ''d'', qk_query_script_id = ''q'', qk_query_script_create_time = 5\<rparr>"
  define c where "c = snd (cache_get list_lru list_lru 7 key (cache_put list_lru key (42 :: nat) (query_cache_new list_lru list_lru 1000)))"
  have reach: "cache_reach list_lru list_lru 7 [(key, 42)] c"
    unfolding c_def by (rule reach_get [OF reach_put [OF reach_init] order_refl])
  have c: "c = \<lparr>qc_items = [(key, 42)], qc_hot_items = [((''n'', ''q''), \<lparr>hi_exec_ctx = 42, hi_create_time = 7\<rparr>)],
      process_memory_threshold_kb = 1000\<rparr>"
    by (simp add: c_def cache_get_def cache_put_def query_cache_new_def list_lru_def use_entry_def key_def)
  from hot_items_expire [OF list_lru_cache list_lru_cache reach, of "4 * 10 ^ 9" 0] obtain c' where
    c': "gc_round list_lru list_lru (4 * 10 ^ 9) 0 c = Inr c'"
      "\<forall>x. get_hot list_lru ''n'' ''q'' c' = Some x \<longrightarrow> (\<exists>v. map_of (qc_hot_items c') (''n'', ''q'') = Some v \<and> 4 * 10 ^ 9 \<le> hi_create_time v + 3 * 10 ^ 9)"
    by (force)
  have "qc_hot_items c' = []"
    using c'(1) unfolding c gc_round_def by (auto simp: expire_hot.simps list_lru_def HOT_ITEM_TTL_def)
  with c'(2) have "get_hot list_lru ''n'' ''q'' c' = None" by (cases "get_hot list_lru ''n'' ''q'' c'") auto
  moreover have "get_hot list_lru ''n'' ''q'' c = Some 42" by (simp add: c get_hot_def list_lru_def)
  ultimately show ?thesis using c'(1) unfolding Let_def key_def [symmetric] c_def [symmetric] by blast
qed

end
