(* ===== verification/Control_Server.thy ===== *)
theory Control_Server
  imports Script_Context Query_Cache
begin

text \<open>
  The server around the executor: the start of \<^verbatim>\<open>system.rs\<close>, the queries against the system schema of
  \<^verbatim>\<open>sysquery.rs\<close>, the control requests of \<^verbatim>\<open>server.rs\<close>, the query route of \<^verbatim>\<open>httpapi.rs\<close>, and the part of
  \<^verbatim>\<open>rdbctl\<close> that prepares a deployment. A handler is a function on the state of the database,
  which holds the system data and the data of the namespaces. Requests and replies are the fields of the
  protocol messages. The clock, random bytes, generated identifiers and the texts of the system schema
  and script are arguments; logging and the wording of a status are left out, so that
  \<^verbatim>\<open>translate_err\<close> is the identity.
\<close>

section \<open>Handlers\<close>

definition bindS :: "('s \<Rightarrow> ('e, 'a) outcome \<times> 's) \<Rightarrow> ('a \<Rightarrow> 's \<Rightarrow> ('e, 'b) outcome \<times> 's) \<Rightarrow> 's \<Rightarrow> ('e, 'b) outcome \<times> 's" where
  "bindS m f s = (case m s of (Inl e, s') \<Rightarrow> (Inl e, s') | (Inr x, s') \<Rightarrow> f x s')"

definition liftS :: "('e, 'a) outcome \<Rightarrow> 's \<Rightarrow> ('e, 'a) outcome \<times> 's" where
  "liftS r s = (r, s)"

record ('e, 's, 't) server_state =
  data_store_generator :: "bytes \<Rightarrow> ('e, 's, 't) kv_backend"
  system_store :: "('e, 's, 't) kv_backend"
  system_schema :: exec_context

definition default_config :: encode_config where
  "default_config = \<lparr>enable_bytes = False, enable_int64 = False, enable_double = False\<rparr>"

definition full_config :: encode_config where
  "full_config = \<lparr>enable_bytes = True, enable_int64 = True, enable_double = True\<rparr>"

definition system_call ::
  "services \<Rightarrow> ('e, 's, 't) server_state \<Rightarrow> ('s, 't) run_env \<Rightarrow> string \<Rightarrow> serialized_vm_value list \<Rightarrow> encode_config \<Rightarrow>
   's \<Rightarrow> ('e server_error, serialized_vm_value) outcome \<times> 's" where
  "system_call S st env name params config =
     run_exported_graph S (system_schema st) (system_store st) env name (SNull # params) config"

definition bool_reply :: "serialized_vm_value \<Rightarrow> ('e server_error, bool) outcome" where
  "bool_reply res =
     bindR (via SerializeFailed (check_nonnull res)) (\<lambda>_. via SerializeFailed (try_unwrap_bool res))"

text \<open>\<^verbatim>\<open>m.get(name).unwrap().try_unwrap_string()?\<close> and its like.\<close>

definition string_field :: "(string \<times> serialized_vm_value) list \<Rightarrow> string \<Rightarrow> ('e server_error, string) outcome" where
  "string_field m name = bindR (unwrap unwrap_none (bt_get m name)) (\<lambda>v. via SerializeFailed (try_unwrap_string v))"

definition int64_field :: "(string \<times> serialized_vm_value) list \<Rightarrow> string \<Rightarrow> ('e server_error, 64 word) outcome" where
  "int64_field m name = bindR (unwrap unwrap_none (bt_get m name)) (\<lambda>v. via SerializeFailed (try_unwrap_int64 v))"

definition bytes_field :: "(string \<times> serialized_vm_value) list \<Rightarrow> string \<Rightarrow> ('e server_error, bytes) outcome" where
  "bytes_field m name = bindR (unwrap unwrap_none (bt_get m name)) (\<lambda>v. via SerializeFailed (try_unwrap_bytes v))"

section \<open>Queries against the system schema\<close>

record query_script =
  qs_id :: string
  qs_create_time :: "64 word"
  qs_associated_deployment :: string
  qs_script :: string

record deployment =
  dp_id :: string
  dp_description :: string
  dp_schema :: string
  dp_plan :: bytes
  dp_create_time :: "64 word"

definition ns_to_kv_prefix_with_appended_zero ::
  "services \<Rightarrow> ('e, 's, 't) server_state \<Rightarrow> ('s, 't) run_env \<Rightarrow> string \<Rightarrow> 's \<Rightarrow> ('e server_error, bytes) outcome \<times> 's" where
  "ns_to_kv_prefix_with_appended_zero S st env ns_id =
     bindS (system_call S st env ''ns_to_kv_prefix'' [SString ns_id] full_config) (\<lambda>res. liftS (
       case res of
         SNull \<Rightarrow> Inl (Err NamespaceNotFound)
       | _ \<Rightarrow> bindR (via SerializeFailed (try_unwrap_bytes res)) (\<lambda>x. Inr (x @ [0]))))"

definition lookup_query_script ::
  "services \<Rightarrow> ('e, 's, 't) server_state \<Rightarrow> ('s, 't) run_env \<Rightarrow> string \<Rightarrow> string \<Rightarrow> 's \<Rightarrow> ('e server_error, query_script) outcome \<times> 's" where
  "lookup_query_script S st env ns_id script_id =
     bindS (system_call S st env ''get_query_script'' [SString ns_id, SString script_id] full_config) (\<lambda>res. liftS (
       case res of
         SNull \<Rightarrow> Inl (Err QueryScriptNotFound)
       | _ \<Rightarrow>
           bindR (via SerializeFailed (try_unwrap_map [''id'', ''create_time'', ''associated_deployment'', ''script''] res)) (\<lambda>m.
           bindR (string_field m ''id'') (\<lambda>i.
           bindR (int64_field m ''create_time'') (\<lambda>t.
           bindR (string_field m ''associated_deployment'') (\<lambda>d.
           bindR (string_field m ''script'') (\<lambda>x.
           Inr \<lparr>qs_id = i, qs_create_time = t, qs_associated_deployment = d, qs_script = x\<rparr>)))))))"

definition lookup_deployment ::
  "services \<Rightarrow> ('e, 's, 't) server_state \<Rightarrow> ('s, 't) run_env \<Rightarrow> string \<Rightarrow> string \<Rightarrow> 's \<Rightarrow> ('e server_error, deployment) outcome \<times> 's" where
  "lookup_deployment S st env ns_id depl_id =
     bindS (system_call S st env ''get_deployment'' [SString ns_id, SString depl_id] full_config) (\<lambda>res. liftS (
       bindR (via SerializeFailed (try_unwrap_map [''id'', ''create_time'', ''description'', ''schema'', ''plan''] res)) (\<lambda>m.
       bindR (string_field m ''id'') (\<lambda>i.
       bindR (string_field m ''description'') (\<lambda>d.
       bindR (string_field m ''schema'') (\<lambda>x.
       bindR (bytes_field m ''plan'') (\<lambda>p.
       bindR (int64_field m ''create_time'') (\<lambda>t.
       Inr \<lparr>dp_id = i, dp_description = d, dp_schema = x, dp_plan = p, dp_create_time = t\<rparr>))))))))"

section \<open>Schemas and plans\<close>

text \<open>The bounds of the schema compiler and of the planner, and what the planner draws.\<close>

record planning =
  pl_compile :: nat
  pl_depth :: nat
  pl_draws :: nat
  pl_rng :: "nat \<Rightarrow> 64 word \<times> bytes"

definition compile_text :: "services \<Rightarrow> planning \<Rightarrow> string \<Rightarrow> ('e server_error, compiled_schema) outcome" where
  "compile_text S P text =
     (case sv_parse_schema S text of
        Inl e \<Rightarrow> Inl (Err (SchemaSyntax e))
      | Inr ast \<Rightarrow> via SchemaFailed (compile (pl_compile P) ast))"

definition plan_schema ::
  "services \<Rightarrow> planning \<Rightarrow> storage_key storage_plan \<Rightarrow> compiled_schema \<Rightarrow> compiled_schema \<Rightarrow>
   ('e server_error, storage_key storage_plan) outcome" where
  "plan_schema S P old_plan olds sch =
     via PlannerFailed (generate_plan_for_schema (pl_depth P) (pl_draws P) (sv_externs S) (pl_rng P) old_plan olds sch)"

definition plan_from_yaml :: "services \<Rightarrow> string \<Rightarrow> ('e server_error, storage_key storage_plan) outcome" where
  "plan_from_yaml S text =
     bindR (ok_or CodecFailed (sv_plan_from_yaml S text)) (\<lambda>p. via KeyTextFailed (plan_of_text (sv_externs S) p))"

definition plan_to_yaml :: "services \<Rightarrow> storage_key storage_plan \<Rightarrow> ('e server_error, string) outcome" where
  "plan_to_yaml S plan = ok_or CodecFailed (sv_plan_to_yaml S (plan_to_text (sv_externs S) plan))"

definition empty_schema :: compiled_schema where
  "empty_schema = \<lparr>cs_types = [], cs_exports = []\<rparr>"

section \<open>Control requests\<close>

definition create_namespace ::
  "services \<Rightarrow> ('e, 's, 't) server_state \<Rightarrow> ('s, 't) run_env \<Rightarrow> bytes \<Rightarrow> 64 word \<Rightarrow> string \<Rightarrow> 's \<Rightarrow> ('e server_error, bool) outcome \<times> 's" where
  "create_namespace S st env kv_prefix now ns_id =
     bindS (system_call S st env ''add_namespace''
       [SString ns_id, SString (base64_encode (sv_externs S) kv_prefix), SString (dec_digits (unat now))] default_config)
       (\<lambda>res. liftS (bool_reply res))"

definition list_items ::
  "string list \<Rightarrow> ((string \<times> serialized_vm_value) list \<Rightarrow> ('e server_error, 'a) outcome) \<Rightarrow> serialized_vm_value \<Rightarrow> ('e server_error, 'a list) outcome" where
  "list_items required item res =
     bindR (via SerializeFailed (check_nonnull res)) (\<lambda>_.
     bindR (via SerializeFailed (try_unwrap_list res)) (\<lambda>xs.
     mapR (\<lambda>x. bindR (via SerializeFailed (try_unwrap_map required x)) item) xs))"

definition list_namespace ::
  "services \<Rightarrow> ('e, 's, 't) server_state \<Rightarrow> ('s, 't) run_env \<Rightarrow> 's \<Rightarrow> ('e server_error, (string \<times> 64 word) list) outcome \<times> 's" where
  "list_namespace S st env =
     bindS (system_call S st env ''list_namespaces'' [] full_config) (\<lambda>res. liftS (
       list_items [''id'', ''create_time''] (\<lambda>m.
         bindR (string_field m ''id'') (\<lambda>i. bindR (int64_field m ''create_time'') (\<lambda>t. Inr (i, t)))) res))"

text \<open>The data of a namespace is everything below its prefix and a zero byte.\<close>

definition clear_namespace_data ::
  "('e, 's, 't) kv_backend \<Rightarrow> ('s \<Rightarrow> 's) \<Rightarrow> 's \<Rightarrow> ('e server_error, unit) outcome \<times> 's" where
  "clear_namespace_data bk others s =
     (case ks_begin (bk_store bk) s of
        Inl e \<Rightarrow> (via StoreFailed (Inl e), s)
      | Inr (txn, s1) \<Rightarrow>
          let s2 = others s1 in
          case kv_delete_range (bk_kv bk) txn [0] [1] of
            Inl e \<Rightarrow> (via StoreFailed (Inl e), s2)
          | Inr txn' \<Rightarrow>
              (case ks_commit (bk_store bk) txn' s2 of
                 Inl e \<Rightarrow> (via StoreCommitFailed (Inl e), s2)
               | Inr s3 \<Rightarrow> (Inr (), s3)))"

definition delete_namespace ::
  "services \<Rightarrow> ('e, 's, 't) server_state \<Rightarrow> (nat \<Rightarrow> ('s, 't) run_env) \<Rightarrow> ('s \<Rightarrow> 's) \<Rightarrow> string \<Rightarrow> 's \<Rightarrow> ('e server_error, bool) outcome \<times> 's" where
  "delete_namespace S st envs others ns_id =
     bindS (\<lambda>s. case ns_to_kv_prefix_with_appended_zero S st (envs 0) ns_id s of
         (Inl (Err _), s1) \<Rightarrow> (Inr (), s1)
       | (Inl e, s1) \<Rightarrow> (Inl e, s1)
       | (Inr kv_prefix, s1) \<Rightarrow>
           if kv_prefix = [] then (Inl (Panic unwrap_none), s1)
           else if last kv_prefix \<noteq> 0 then (Inl (Panic ''assertion failed: `(left == right)`''), s1)
           else clear_namespace_data (data_store_generator st (butlast kv_prefix)) others s1) (\<lambda>_.
     bindS (system_call S st (envs 1) ''delete_namespace'' [SString ns_id] default_config) (\<lambda>res. liftS (bool_reply res)))"

text \<open>The integrity check of a submitted deployment.\<close>

definition check_deployment ::
  "services \<Rightarrow> planning \<Rightarrow> string \<Rightarrow> string \<Rightarrow> ('e server_error, storage_key storage_plan) outcome" where
  "check_deployment S P schema_text plan_text =
     bindR (compile_text S P schema_text) (\<lambda>new_schema.
     bindR (plan_from_yaml S plan_text) (\<lambda>new_plan.
     bindR (plan_schema S P new_plan new_schema new_schema) (\<lambda>generated_plan.
     bindR (ok_or CodecFailed (sv_plan_to_rmp S generated_plan)) (\<lambda>generated.
     bindR (ok_or CodecFailed (sv_plan_to_rmp S new_plan)) (\<lambda>submitted.
     if generated \<noteq> submitted then Inl (Err InvalidStoragePlan) else Inr generated_plan)))))"

definition create_deployment ::
  "services \<Rightarrow> planning \<Rightarrow> ('e, 's, 't) server_state \<Rightarrow> ('s, 't) run_env \<Rightarrow> string \<Rightarrow> 64 word \<Rightarrow> string \<Rightarrow> string \<Rightarrow> string \<Rightarrow> string \<Rightarrow>
   's \<Rightarrow> ('e server_error, string option) outcome \<times> 's" where
  "create_deployment S P st env depl_id now ns_id schema_text plan_text description =
     bindS (liftS (
       bindR (check_deployment S P schema_text plan_text) (\<lambda>generated_plan. serialize_compressed S generated_plan))) (\<lambda>plan.
     bindS (system_call S st env ''add_deployment''
       [SString ns_id, STaggedM (bt_collect [
          (''id'', SString depl_id), (''description'', SString description), (''schema'', SString schema_text),
          (''plan'', SString (base64_encode (sv_externs S) plan)), (''create_time'', SString (dec_digits (unat now)))])] default_config) (\<lambda>res. liftS (
     bindR (bool_reply res) (\<lambda>ok. Inr (if ok then Some depl_id else None)))))"

record deployment_full_info =
  df_id :: string
  df_create_time :: "64 word"
  df_description :: string
  df_schema :: string
  df_plan :: string

definition get_deployment ::
  "services \<Rightarrow> ('e, 's, 't) server_state \<Rightarrow> ('s, 't) run_env \<Rightarrow> string \<Rightarrow> string \<Rightarrow> 's \<Rightarrow> ('e server_error, deployment_full_info option) outcome \<times> 's" where
  "get_deployment S st env ns_id depl_id =
     bindS (system_call S st env ''get_deployment'' [SString ns_id, SString depl_id] full_config) (\<lambda>res. liftS (
       case res of
         SNull \<Rightarrow> Inr None
       | _ \<Rightarrow>
           bindR (via SerializeFailed (try_unwrap_map [''id'', ''create_time'', ''description'', ''schema'', ''plan''] res)) (\<lambda>m.
           bindR (string_field m ''id'') (\<lambda>i.
           bindR (int64_field m ''create_time'') (\<lambda>t.
           bindR (string_field m ''description'') (\<lambda>d.
           bindR (string_field m ''schema'') (\<lambda>x.
           bindR (bytes_field m ''plan'') (\<lambda>raw.
           bindR (deserialize_compressed S raw) (\<lambda>plan.
           bindR (plan_to_yaml S plan) (\<lambda>text.
           Inr (Some \<lparr>df_id = i, df_create_time = t, df_description = d, df_schema = x, df_plan = text\<rparr>)))))))))))"

definition list_deployment ::
  "services \<Rightarrow> ('e, 's, 't) server_state \<Rightarrow> ('s, 't) run_env \<Rightarrow> string \<Rightarrow> 's \<Rightarrow>
   ('e server_error, (string \<times> 64 word \<times> string) list) outcome \<times> 's" where
  "list_deployment S st env ns_id =
     bindS (system_call S st env ''list_deployment'' [SString ns_id] full_config) (\<lambda>res. liftS (
       list_items [''id'', ''create_time'', ''description''] (\<lambda>m.
         bindR (string_field m ''id'') (\<lambda>i.
         bindR (int64_field m ''create_time'') (\<lambda>t.
         bindR (string_field m ''description'') (\<lambda>d. Inr (i, t, d))))) res))"

definition delete_deployment ::
  "services \<Rightarrow> ('e, 's, 't) server_state \<Rightarrow> ('s, 't) run_env \<Rightarrow> string \<Rightarrow> string \<Rightarrow> 's \<Rightarrow> ('e server_error, bool) outcome \<times> 's" where
  "delete_deployment S st env ns_id depl_id =
     bindS (system_call S st env ''delete_deployment'' [SString ns_id, SString depl_id] default_config) (\<lambda>res. liftS (bool_reply res))"

text \<open>The schema, the plan and the script of a deployment together make a context.\<close>

definition load_deployment :: "services \<Rightarrow> planning \<Rightarrow> deployment \<Rightarrow> string \<Rightarrow> ('e server_error, exec_context) outcome" where
  "load_deployment S P depl script =
     bindR (compile_text S P (dp_schema depl)) (\<lambda>schema.
     bindR (deserialize_compressed S (dp_plan depl)) (\<lambda>plan.
     exec_context_load S \<lparr>sc_schema = schema, sc_plan = plan\<rparr> script))"

definition create_query_script ::
  "services \<Rightarrow> planning \<Rightarrow> ('e, 's, 't) server_state \<Rightarrow> (nat \<Rightarrow> ('s, 't) run_env) \<Rightarrow> 64 word \<Rightarrow> string \<Rightarrow> string \<Rightarrow> string \<Rightarrow> string \<Rightarrow>
   's \<Rightarrow> ('e server_error, bool) outcome \<times> 's" where
  "create_query_script S P st envs now ns_id script_id depl_id script =
     bindS (lookup_deployment S st (envs 0) ns_id depl_id) (\<lambda>depl.
     bindS (liftS (load_deployment S P depl script)) (\<lambda>_.
     bindS (system_call S st (envs 1) ''add_or_update_query_script''
       [SString ns_id, STaggedM (bt_collect [
          (''id'', SString script_id), (''associated_deployment'', SString depl_id), (''script'', SString script),
          (''create_time'', SString (dec_digits (unat now)))])] default_config) (\<lambda>res. liftS (bool_reply res))))"

definition delete_query_script ::
  "services \<Rightarrow> ('e, 's, 't) server_state \<Rightarrow> ('s, 't) run_env \<Rightarrow> string \<Rightarrow> string \<Rightarrow> 's \<Rightarrow> ('e server_error, bool) outcome \<times> 's" where
  "delete_query_script S st env ns_id script_id =
     bindS (system_call S st env ''delete_query_script'' [SString ns_id, SString script_id] default_config) (\<lambda>res. liftS (bool_reply res))"

definition get_query_script ::
  "services \<Rightarrow> ('e, 's, 't) server_state \<Rightarrow> ('s, 't) run_env \<Rightarrow> string \<Rightarrow> string \<Rightarrow> 's \<Rightarrow> ('e server_error, query_script option) outcome \<times> 's" where
  "get_query_script S st env ns_id script_id =
     bindS (lookup_query_script S st env ns_id script_id) (\<lambda>qs. liftS (Inr (Some qs)))"

definition list_query_script ::
  "services \<Rightarrow> ('e, 's, 't) server_state \<Rightarrow> ('s, 't) run_env \<Rightarrow> string \<Rightarrow> 's \<Rightarrow>
   ('e server_error, (string \<times> string \<times> 64 word) list) outcome \<times> 's" where
  "list_query_script S st env ns_id =
     bindS (system_call S st env ''list_query_script'' [SString ns_id] full_config) (\<lambda>res. liftS (
       list_items [''id'', ''associated_deployment'', ''create_time''] (\<lambda>m.
         bindR (string_field m ''id'') (\<lambda>i.
         bindR (string_field m ''associated_deployment'') (\<lambda>d.
         bindR (int64_field m ''create_time'') (\<lambda>t. Inr (i, d, t))))) res))"

section \<open>Queries over HTTP\<close>

text \<open>
  The context of a query comes from the hot items, from the loaded scripts or, failing that, from the
  deployment. The state is the database and the query cache.
\<close>

definition query_context ::
  "services \<Rightarrow> planning \<Rightarrow> ('e, 's, 't) server_state \<Rightarrow> (exec_context, 'i) item_ops \<Rightarrow> (exec_context, 'h) hot_ops \<Rightarrow>
   (nat \<Rightarrow> ('s, 't) run_env) \<Rightarrow> nat \<Rightarrow> string \<Rightarrow> string \<Rightarrow> 's \<times> ('i, 'h) query_cache \<Rightarrow>
   ('e server_error, exec_context) outcome \<times> 's \<times> ('i, 'h) query_cache" where
  "query_context S P st I H envs now ns_id script_id sc =
     (case sc of (s, c) \<Rightarrow>
      case get_hot H ns_id script_id c of
        Some x \<Rightarrow> (Inr x, s, c)
      | None \<Rightarrow>
          (case lookup_query_script S st (envs 1) ns_id script_id s of
             (Inl e, s1) \<Rightarrow> (Inl e, s1, c)
           | (Inr script, s1) \<Rightarrow>
               let qc_key = \<lparr>qk_namespace_id = ns_id, qk_deployment_id = qs_associated_deployment script,
                     qk_query_script_id = script_id, qk_query_script_create_time = qs_create_time script\<rparr> in
               (case cache_get I H now qc_key c of
                  (Some x, c1) \<Rightarrow> (Inr x, s1, c1)
                | (None, c1) \<Rightarrow>
                    (case lookup_deployment S st (envs 2) ns_id (qs_associated_deployment script) s1 of
                       (Inl e, s2) \<Rightarrow> (Inl e, s2, c1)
                     | (Inr depl, s2) \<Rightarrow>
                         (case load_deployment S P depl (qs_script script) of
                            Inl e \<Rightarrow> (Inl e, s2, c1)
                          | Inr ctx \<Rightarrow> (Inr ctx, s2, cache_put I qc_key ctx c1))))))"

definition do_invoke_query ::
  "services \<Rightarrow> planning \<Rightarrow> ('e, 's, 't) server_state \<Rightarrow> (exec_context, 'i) item_ops \<Rightarrow> (exec_context, 'h) hot_ops \<Rightarrow>
   (nat \<Rightarrow> ('s, 't) run_env) \<Rightarrow> nat \<Rightarrow> string \<Rightarrow> string \<Rightarrow> string \<Rightarrow> serialized_vm_value list \<Rightarrow> encode_config \<Rightarrow>
   's \<times> ('i, 'h) query_cache \<Rightarrow> ('e server_error, serialized_vm_value) outcome \<times> 's \<times> ('i, 'h) query_cache" where
  "do_invoke_query S P st I H envs now ns_id script_id graph_name graph_params config sc =
     (case sc of (s, c) \<Rightarrow>
      case ns_to_kv_prefix_with_appended_zero S st (envs 0) ns_id s of
        (Inl e, s1) \<Rightarrow> (Inl e, s1, c)
      | (Inr kv_prefix, s1) \<Rightarrow>
          (case query_context S P st I H envs now ns_id script_id (s1, c) of
             (Inl e, s2, c2) \<Rightarrow> (Inl e, s2, c2)
           | (Inr ctx, s2, c2) \<Rightarrow>
               (case run_exported_graph S ctx (data_store_generator st kv_prefix) (envs 3) graph_name graph_params config s2 of
                  (r, s3) \<Rightarrow> (r, s3, c2))))"

section \<open>The start of the server\<close>

text \<open>\<^verbatim>\<open>String::from_utf8\<close> accepts exactly the well-formed UTF-8 sequences.\<close>

definition in_range :: "nat \<Rightarrow> nat \<Rightarrow> byte \<Rightarrow> bool" where
  "in_range a b x \<longleftrightarrow> a \<le> unat x \<and> unat x \<le> b"

abbreviation continuation :: "byte \<Rightarrow> bool" where
  "continuation \<equiv> in_range 128 191"

text \<open>The number of continuation bytes that a lead byte asks for, and the range of the first of them.\<close>

definition utf8_lead :: "byte \<Rightarrow> (nat \<times> nat \<times> nat) option" where
  "utf8_lead x =
     (if in_range 0 127 x then Some (0, 0, 0)
      else if in_range 194 223 x then Some (1, 128, 191)
      else if x = 224 then Some (2, 160, 191)
      else if x = 237 then Some (2, 128, 159)
      else if in_range 225 239 x then Some (2, 128, 191)
      else if x = 240 then Some (3, 144, 191)
      else if in_range 241 243 x then Some (3, 128, 191)
      else if x = 244 then Some (3, 128, 143)
      else None)"

function utf8_valid :: "bytes \<Rightarrow> bool" where
  "utf8_valid bs =
     (case bs of
        [] \<Rightarrow> True
      | x # rest \<Rightarrow>
          (case utf8_lead x of
             None \<Rightarrow> False
           | Some (n, a, b) \<Rightarrow>
               length rest \<ge> n \<and> (n > 0 \<longrightarrow> in_range a b (hd rest)) \<and> list_all continuation (take n rest) \<and>
               utf8_valid (drop n rest)))"
  by auto
termination
  by (relation "measure length") auto

declare utf8_valid.simps [simp del]

definition from_utf8 :: "bytes \<Rightarrow> string option" where
  "from_utf8 bs = (if utf8_valid bs then Some (map (\<lambda>x. char_of (unat x)) bs) else None)"

definition stored_schema ::
  "services \<Rightarrow> ('e, 't) kv_transaction \<Rightarrow> 't \<Rightarrow> ('e server_error, string option \<times> storage_key storage_plan option) outcome" where
  "stored_schema S kv txn =
     bindR (unwrap_path unwrap_err (kv_get kv txn (as_bytes ''schema''))) (\<lambda>raw_schema.
     bindR (option_mapR (\<lambda>x. unwrap unwrap_err (from_utf8 x)) raw_schema) (\<lambda>old_schema_text.
     bindR (unwrap_path unwrap_err (kv_get kv txn (as_bytes ''plan''))) (\<lambda>raw_plan.
     bindR (option_mapR (\<lambda>x. unwrap_path unwrap_err (deserialize_compressed S x :: (unit server_error, _) outcome)) raw_plan) (\<lambda>old_plan.
     Inr (old_schema_text, old_plan)))))"

text \<open>The plan to use, and whether it has to be written; the process aborts when a migration has not been confirmed.\<close>

definition choose_plan ::
  "services \<Rightarrow> planning \<Rightarrow> string \<Rightarrow> compiled_schema \<Rightarrow> string option \<Rightarrow> string option \<Rightarrow> storage_key storage_plan option \<Rightarrow>
   ('e server_error, storage_key storage_plan \<times> bool) outcome" where
  "choose_plan S P SCHEMA schema migration_hash old_schema_text old_plan =
     (case old_schema_text of
        None \<Rightarrow>
          bindR (unwrap_path unwrap_err (plan_schema S P [] empty_schema schema :: (unit server_error, _) outcome)) (\<lambda>new_plan. Inr (new_plan, True))
      | Some text \<Rightarrow>
          bindR (unwrap_path unwrap_err (compile_text S P text :: (unit server_error, _) outcome)) (\<lambda>old_schema.
          bindR (unwrap ''old plan not found'' old_plan) (\<lambda>old_plan.
          bindR (unwrap_path unwrap_err (plan_schema S P old_plan old_schema schema :: (unit server_error, _) outcome)) (\<lambda>new_plan.
          bindR (unwrap unwrap_err (sv_plan_to_rmp S old_plan)) (\<lambda>old_plan_serialized.
          bindR (unwrap unwrap_err (sv_plan_to_rmp S new_plan)) (\<lambda>new_plan_serialized.
          if text \<noteq> SCHEMA \<or> old_plan_serialized \<noteq> new_plan_serialized
          then if migration_hash \<noteq> Some (sv_sha256_hex S (as_bytes SCHEMA)) then Inl (Panic ''abort'') else Inr (new_plan, True)
          else Inr (new_plan, False)))))))"

definition write_plan ::
  "services \<Rightarrow> ('e, 't) kv_transaction \<Rightarrow> string \<Rightarrow> storage_key storage_plan \<Rightarrow> 't \<Rightarrow> ('e server_error, 't) outcome" where
  "write_plan S kv SCHEMA plan txn =
     bindR (unwrap_path unwrap_err (kv_put kv txn (as_bytes ''schema'') (as_bytes SCHEMA))) (\<lambda>txn.
     bindR (unwrap_path unwrap_err (serialize_compressed S plan :: (unit server_error, _) outcome)) (\<lambda>raw.
     unwrap_path unwrap_err (kv_put kv txn (as_bytes ''plan'') raw)))"

definition system_plan ::
  "services \<Rightarrow> planning \<Rightarrow> ('e, 's, 't) kv_backend \<Rightarrow> string \<Rightarrow> compiled_schema \<Rightarrow> string option \<Rightarrow> 's \<Rightarrow>
   ('e server_error, storage_key storage_plan) outcome \<times> 's" where
  "system_plan S P bk SCHEMA schema migration_hash s =
     (case ks_begin (bk_store bk) s of
        Inl e \<Rightarrow> (unwrap_path unwrap_err (Inl e), s)
      | Inr (txn, s1) \<Rightarrow>
          (case bindR (stored_schema S (bk_kv bk) txn) (\<lambda>(text, plan). choose_plan S P SCHEMA schema migration_hash text plan) of
             Inl e \<Rightarrow> (Inl e, s1)
           | Inr (new_plan, False) \<Rightarrow> (Inr new_plan, s1)
           | Inr (new_plan, True) \<Rightarrow>
               (case write_plan S (bk_kv bk) SCHEMA new_plan txn of
                  Inl e \<Rightarrow> (Inl e, s1)
                | Inr txn' \<Rightarrow>
                    (case ks_commit (bk_store bk) txn' s1 of
                       Inl e \<Rightarrow> (unwrap_path unwrap_err (Inl e), s1)
                     | Inr s2 \<Rightarrow> (Inr new_plan, s2)))))"

definition system_schema_new ::
  "services \<Rightarrow> planning \<Rightarrow> ('e, 's, 't) kv_backend \<Rightarrow> string \<Rightarrow> string \<Rightarrow> string option \<Rightarrow> 's \<Rightarrow>
   ('e server_error, exec_context) outcome \<times> 's" where
  "system_schema_new S P meta_store SCHEMA SYS_RASM migration_hash =
     bindS (liftS (unwrap_path unwrap_err (compile_text S P SCHEMA :: (unit server_error, _) outcome))) (\<lambda>schema.
     bindS (system_plan S P meta_store SCHEMA schema migration_hash) (\<lambda>plan. liftS (
     unwrap_path unwrap_err (exec_context_load S \<lparr>sc_schema = schema, sc_plan = plan\<rparr> SYS_RASM :: (unit server_error, _) outcome))))"

section \<open>Preparing a deployment in the client\<close>

datatype 'e cli_error =
    ReferenceDeploymentNotFound
  | DeploymentNotCreated
  | AbortedByUser
  | QueryScriptNotFound_Cli
  | OtherCliError "'e server_error"

text \<open>
  \<open>reference\<close> is the reply of the server for the deployment to migrate from, \<open>diff\<close> counts the lines that differ
  in the printed plans and \<open>proceed\<close> is the answer of the user. The result is the text of the plan that is sent.
\<close>

definition rdbctl_plan ::
  "services \<Rightarrow> planning \<Rightarrow> (storage_key storage_plan \<Rightarrow> storage_key storage_plan \<Rightarrow> nat \<times> nat) \<Rightarrow> bool \<Rightarrow> string \<Rightarrow>
   deployment_full_info option option \<Rightarrow> ('e cli_error, string) outcome" where
  "rdbctl_plan S P diff proceed schema_text reference =
     bindR (via OtherCliError (compile_text S P schema_text)) (\<lambda>new_schema.
     bindR (case reference of
         Some reply \<Rightarrow>
           bindR (ok_or ReferenceDeploymentNotFound reply) (\<lambda>info.
           bindR (via OtherCliError (compile_text S P (df_schema info))) (\<lambda>reference_schema.
           bindR (via OtherCliError (plan_from_yaml S (df_plan info))) (\<lambda>reference_plan.
           bindR (via OtherCliError (plan_schema S P reference_plan reference_schema new_schema)) (\<lambda>new_plan.
           if diff reference_plan new_plan \<noteq> (0, 0) \<and> \<not> proceed then Inl (Err AbortedByUser) else Inr new_plan))))
       | None \<Rightarrow> via OtherCliError (plan_schema S P [] empty_schema new_schema)) (\<lambda>new_plan.
     via OtherCliError (plan_to_yaml S new_plan)))"

end
