(* ===== verification/Deployments.thy ===== *)
theory Deployments
  imports Control_Server
begin

text \<open>
  What the server promises about schemas and plans: the integrity check of a deployment accepts
  exactly the plans that belong to the schema, the client only sends such plans, and a restart of
  the server finds its system schema unchanged.
\<close>

section \<open>The shape of generated plans\<close>

definition draws_ok :: "externs \<Rightarrow> (nat \<Rightarrow> 64 word \<times> bytes) \<Rightarrow> bool" where
  "draws_ok E rng \<longleftrightarrow> (\<forall>i. length (draw_key E (rng i)) = 12)"

definition state_shape :: "externs \<Rightarrow> plan_state \<Rightarrow> bool" where
  "state_shape E st \<longleftrightarrow> draws_ok E (ps_rng st) \<and> (\<forall>key \<in> ran (fields_in_stack st). length key = 12)"

definition old_shape :: "old_tree_point option \<Rightarrow> bool" where
  "old_shape old \<longleftrightarrow> (\<forall>p. old = Some p \<longrightarrow> node_shape (otp_node p))"

definition shapes :: "externs \<Rightarrow> (planner_error, storage_key storage_node \<times> plan_state) outcome \<Rightarrow> bool" where
  "shapes E r \<longleftrightarrow> (\<forall>node st'. r = Inr (node, st') \<longrightarrow> node_shape node \<and> state_shape E st')"

lemma rand_key_shape:
  "rand_storage_key k E st = Inr (key, st') \<Longrightarrow> state_shape E st \<Longrightarrow> length key = 12 \<and> state_shape E st'"
proof (induction k arbitrary: st)
  case (Suc k)
  have "state_shape E (st\<lparr>ps_pos := x\<rparr>)" "state_shape E (st\<lparr>ps_pos := x, used_storage_keys := y\<rparr>)" for x y
    using Suc.prems(2) by (simp_all add: state_shape_def)
  then show ?case using Suc.prems Suc.IH [of "st\<lparr>ps_pos := Suc (ps_pos st)\<rparr>"]
    by (auto simp: Let_def state_shape_def draws_ok_def split: if_splits)
qed simp

lemma key_shape:
  assumes "key_or_rand k E old st = Inr (key, st')" "state_shape E st" "old_shape old"
  shows "length key = 12 \<and> state_shape E st'"
proof (cases old)
  case (Some p)
  then show ?thesis using assms by (cases "otp_node p") (auto simp: key_or_rand_def old_shape_def)
qed (use assms rand_key_shape in \<open>auto simp: key_or_rand_def\<close>)

lemma old_shape_set: "old_shape old \<Longrightarrow> old_shape (Option.bind (Option.bind old reduce_set) (\<lambda>y. validate_type y x))"
proof (cases old)
  case (Some p)
  moreover assume "old_shape old"
  ultimately show ?thesis
    by (cases "otp_node p") (auto simp: old_shape_def reduce_set_def validate_type_def bind_eq_Some_conv split: field_type.splits option.splits if_splits)
qed (simp add: old_shape_def)

lemma child_shape: "node_shape node \<Longrightarrow> bt_get (sn_children node) x = Some c \<Longrightarrow> node_shape c"
  using map_of_SomeD [of "sn_children node" x c] by (cases node) (force simp: list_all_iff)

lemma resolve_shape:
  assumes "resolve_subfield olds p names = Some q" "node_shape (otp_node p)"
  shows "node_shape (otp_node q)"
proof -
  obtain name child where c: "find_map (\<lambda>x. map_option (Pair x) (bt_get (sn_children (otp_node p)) x)) names = Some (name, child)"
    "otp_node q = child"
    using assms(1) by (auto simp: resolve_subfield_def split: option.splits field_type.splits)
  from find_map_Some [OF c(1)] obtain x where "bt_get (sn_children (otp_node p)) x = Some child" by auto
  then show ?thesis using child_shape [OF assms(2)] c(2) by simp
qed

lemma old_shape_subfield: "old_shape old \<Longrightarrow> old_shape (subfield_old_point olds old f)"
  by (auto simp: old_shape_def subfield_old_point_def validate_type_def bind_eq_Some_conv split: if_splits intro: resolve_shape)

lemma state_shape_push: "state_shape E st \<Longrightarrow> length key = 12 \<Longrightarrow> state_shape E (st\<lparr>fields_in_stack := (fields_in_stack st)(t \<mapsto> key)\<rparr>)"
  by (auto simp: state_shape_def ran_def)

lemma state_shape_pop: "state_shape E st \<Longrightarrow> state_shape E (st\<lparr>fields_in_stack := (fields_in_stack st)(t := None)\<rparr>)"
  by (auto simp: state_shape_def ran_def split: if_splits)

lemma fields_shape:
  assumes "foldR (generate_subfield rc old) ([], pk, st) fs = Inr (children, pk', st')" "state_shape E st" "old_shape old"
    and "\<And>ty old st. state_shape E st \<Longrightarrow> old_shape old \<Longrightarrow> shapes E (rc ty old st)"
  shows "bt_ok children \<and> list_all (\<lambda>c. node_shape (snd c)) children \<and> state_shape E st'"
proof -
  let ?P = "\<lambda>(children, pk :: bool, st). bt_ok children \<and> (\<forall>c \<in> set children. node_shape (snd c)) \<and> state_shape E st"
  have "?P (children, pk', st')"
  proof (rule foldR_invariant [OF assms(1)])
    fix acc f acc' assume "?P acc" "generate_subfield rc old acc f = Inr acc'"
    then obtain ch pk st x st1 where acc: "acc = (ch, pk, st)" "bt_ok ch" "\<forall>c \<in> set ch. node_shape (snd c)" "state_shape E st"
      and x: "rc (fst (snd f)) (subfield_old_point (ps_old_schema st) old f) st = Inr (x, st1)"
        "acc' = (bt_insert (fst f) x ch, pk \<or> is_primary (snd (snd f)), st1)"
      by (cases acc) (auto simp: generate_subfield_def)
    have "node_shape x \<and> state_shape E st1"
      using assms(4) [OF acc(4) old_shape_subfield [OF assms(3)]] x(1) by (auto simp: shapes_def)
    then show "?P acc'" using acc x(2) set_bt_insert_subset [of "fst f" x ch] by auto
  qed (use assms(2) in \<open>simp add: bt_ok_def\<close>)
  then show ?thesis by (simp add: list_all_iff)
qed

lemma table_shape:
  assumes "state_shape E st" "old_shape old" "\<And>ty old st. state_shape E st \<Longrightarrow> old_shape old \<Longrightarrow> shapes E (rc ty old st)"
  shows "shapes E (generate_table rc k E sch t old st)"
  unfolding shapes_def
proof (intro allI impI)
  fix node st' assume r: "generate_table rc k E sch t old st = Inr (node, st')"
  show "node_shape node \<and> state_shape E st'"
  proof (cases "fields_in_stack st t")
    case (Some key)
    then have "length key = 12" using assms(1) by (auto simp: state_shape_def ran_def)
    then show ?thesis using r Some key_shape [OF _ assms(1,2)] by (auto simp: generate_table_def bt_ok_def)
  next
    case None
    obtain ty key st1 children pk st3 where
      "bt_get (cs_types sch) t = Some ty" and
      key: "key_or_rand k E old st = Inr (key, st1)" and
      loop: "foldR (generate_subfield rc old) ([], False,
          if t \<in> recursive_types st1 then st1\<lparr>fields_in_stack := (fields_in_stack st1)(t \<mapsto> key)\<rparr> else st1)
        (st_fields ty) = Inr (children, pk, st3)" and
      "t \<in> set_member_types st3 \<longrightarrow> pk" and
      fin: "node = StorageNode key True None None children"
        "st' = (if t \<in> recursive_types st1 then st3\<lparr>fields_in_stack := (fields_in_stack st3)(t := None)\<rparr> else st3)"
      by (rule generate_table_run [OF r None])
    note k = key_shape [OF key assms(1,2)]
    from fields_shape [OF loop _ assms(2,3)] k state_shape_push
    have "bt_ok children \<and> list_all (\<lambda>c. node_shape (snd c)) children \<and> state_shape E st3" by auto
    then show ?thesis using k fin state_shape_pop by auto
  qed
qed

lemma field_shape: "state_shape E st \<Longrightarrow> old_shape old \<Longrightarrow> shapes E (generate_field n k E sch ty old st)"
proof (induction n arbitrary: ty old st)
  case (Suc n)
  show ?case
  proof (cases ty)
    case (FTable t)
    then show ?thesis using table_shape [OF Suc.prems Suc.IH] by simp
  next
    case (FPrimitive p)
    then show ?thesis using key_shape [OF _ Suc.prems] by (auto simp: shapes_def bt_ok_def)
  next
    case (FSet x)
    then show ?thesis using Suc.IH [OF Suc.prems(1) old_shape_set [OF Suc.prems(2)]] key_shape [OF _ _ Suc.prems(2)]
      by (auto simp: shapes_def bt_ok_def)
  qed
qed (simp add: shapes_def)

lemma export_shape: "plan_shape plan \<Longrightarrow> old_shape (export_old_point plan olds name ty)"
  using map_of_SomeD [of plan name]
  by (force simp: old_shape_def export_old_point_def plan_shape_def validate_type_def bind_eq_Some_conv split: if_splits)

lemma generated_shape:
  assumes "generate_plan_for_schema n k E rng old_plan olds sch = Inr plan" "plan_shape old_plan" "draws_ok E rng"
  shows "plan_shape plan"
proof -
  obtain sp st' where r: "foldR (generate_export n k E sch old_plan) ([], initial_plan_state rng old_plan olds sp) (cs_exports sch) = Inr (plan, st')"
    using assms(1) by (auto simp: generate_plan_for_schema_def)
  let ?P = "\<lambda>(plan, st). plan_shape plan \<and> state_shape E st"
  have "?P (plan, st')"
  proof (rule foldR_invariant [OF r])
    show "?P ([], initial_plan_state rng old_plan olds sp)"
      using assms(3) by (simp add: plan_shape_def bt_ok_def initial_plan_state_def state_shape_def)
  next
    fix acc x acc' assume acc: "?P acc" and e: "generate_export n k E sch old_plan acc x = Inr acc'"
    obtain node st1 where g: "generate_field n k E sch (snd x) (export_old_point old_plan (ps_old_schema (snd acc)) (fst x) (snd x)) (snd acc) = Inr (node, st1)"
      "acc' = (bt_insert (fst x) node (fst acc), st1)" using e by (auto simp: generate_export_def)
    have "node_shape node \<and> state_shape E st1"
      using field_shape [OF _ export_shape [OF assms(2)], of E "snd acc"] acc g(1) by (auto simp: shapes_def split: prod.splits)
    then show "?P acc'" using acc g(2) set_bt_insert_subset [of "fst x" node "fst acc"] by (cases acc) (fastforce simp: plan_shape_def)
  qed
  then show ?thesis by simp
qed

section \<open>The integrity check\<close>

text \<open>What the server relies on of the codecs: what they write can be read back.\<close>

definition codecs_ok :: "services \<Rightarrow> bool" where
  "codecs_ok S \<longleftrightarrow> base64_roundtrip (sv_externs S) \<and> (\<forall>b. sv_snap_decode S (sv_snap_encode S b) = Some b) \<and>
     (\<forall>p. plan_shape p \<longrightarrow> (\<exists>b. sv_plan_to_rmp S p = Some b \<and> sv_plan_from_rmp S b = Some p)) \<and>
     (\<forall>p. plan_shape p \<longrightarrow> (\<exists>t. sv_plan_to_yaml S (plan_to_text (sv_externs S) p) = Some t \<and>
        sv_plan_from_yaml S t = Some (plan_to_text (sv_externs S) p)))"

definition same_bounds :: "planning \<Rightarrow> planning \<Rightarrow> bool" where
  "same_bounds P P' \<longleftrightarrow> pl_compile P' = pl_compile P \<and> pl_depth P' = pl_depth P"

lemma rmp_roundtrip:
  assumes "codecs_ok S" "plan_shape p"
  obtains b where "sv_plan_to_rmp S p = Some b" "sv_plan_from_rmp S b = Some p"
  using assms unfolding codecs_ok_def by blast

lemma compressed_roundtrip:
  assumes "codecs_ok S" "plan_shape p"
  obtains b where "serialize_compressed S p = Inr b" "deserialize_compressed S b = Inr p"
proof -
  obtain b where b: "sv_plan_to_rmp S p = Some b" "sv_plan_from_rmp S b = Some p" by (rule rmp_roundtrip [OF assms])
  have "sv_snap_decode S (sv_snap_encode S b) = Some b" using assms(1) by (simp add: codecs_ok_def)
  then show ?thesis using b that by (simp add: serialize_compressed_def deserialize_compressed_def)
qed

lemma yaml_roundtrip:
  assumes "codecs_ok S" "plan_shape p" "plan_to_yaml S p = Inr t"
  shows "plan_from_yaml S t = Inr p"
proof -
  obtain t' where t': "sv_plan_to_yaml S (plan_to_text (sv_externs S) p) = Some t'"
    "sv_plan_from_yaml S t' = Some (plan_to_text (sv_externs S) p)" using assms(1,2) unfolding codecs_ok_def by blast
  have "base64_roundtrip (sv_externs S)" using assms(1) by (simp add: codecs_ok_def)
  from plan_roundtrip [OF this assms(2)] show ?thesis using t' assms(3) by (simp add: plan_to_yaml_def plan_from_yaml_def)
qed

lemma compiled_text_ok: "compile_text S P text = Inr sch \<Longrightarrow> schema_ok sch"
  by (auto simp: compile_text_def compiled_schema_ok split: sum.splits)

lemma compile_text_bounds: "same_bounds P P' \<Longrightarrow> compile_text S P' text = (compile_text S P text :: ('e server_error, _) outcome)"
  by (simp add: compile_text_def same_bounds_def split: sum.split)

lemma yaml_plan_shape: "plan_from_yaml S t = Inr p \<Longrightarrow> plan_shape p"
  by (auto simp: plan_from_yaml_def plan_of_text_shaped)

lemma replanned:
  assumes "plan_schema S P old_plan olds sch = (Inr plan :: ('e server_error, _) outcome)" "schema_ok sch" "same_bounds P P'"
  shows "plan_schema S P' plan sch sch = (Inr plan :: ('f server_error, _) outcome)"
  using replan_same [of "pl_depth P" "pl_draws P" "sv_externs S" "pl_rng P" old_plan olds sch plan] assms
  by (simp add: plan_schema_def same_bounds_def)

lemma planned_shape:
  assumes "plan_schema S P old_plan olds sch = Inr plan" "plan_shape old_plan" "draws_ok (sv_externs S) (pl_rng P)"
  shows "plan_shape plan"
  using generated_shape [OF _ assms(2,3)] assms(1) by (auto simp: plan_schema_def)

lemma check_accepts:
  assumes "codecs_ok S" "compile_text S P text = (Inr sch :: ('e server_error, _) outcome)" "plan_from_yaml S yaml = (Inr plan :: ('e server_error, _) outcome)"
    and "plan_schema S P plan sch sch = (Inr plan :: ('e server_error, _) outcome)"
  shows "check_deployment S P text yaml = (Inr plan :: ('e server_error, _) outcome)"
proof -
  obtain b where "sv_plan_to_rmp S plan = Some b" by (rule rmp_roundtrip [OF assms(1) yaml_plan_shape [OF assms(3)]])
  then show ?thesis using assms by (simp add: check_deployment_def)
qed

lemma check_sound:
  assumes "codecs_ok S" "draws_ok (sv_externs S) (pl_rng P)" "compile_text S P text = (Inr sch :: ('e server_error, _) outcome)"
    and "check_deployment S P text yaml = (Inr plan :: ('e server_error, _) outcome)"
  shows "plan_from_yaml S yaml = (Inr plan :: ('e server_error, _) outcome) \<and> plan_schema S P plan sch sch = (Inr plan :: ('e server_error, _) outcome)"
proof -
  obtain new b where new: "plan_from_yaml S yaml = (Inr new :: ('e server_error, _) outcome)"
    "plan_schema S P new sch sch = (Inr plan :: ('e server_error, _) outcome)"
    "sv_plan_to_rmp S plan = Some b" "sv_plan_to_rmp S new = Some b"
    using assms(3,4) by (auto simp: check_deployment_def ok_or_Inr_iff split: if_splits)
  have shape: "plan_shape new" "plan_shape plan"
    using yaml_plan_shape [OF new(1)] planned_shape [OF new(2) _ assms(2)] by blast+
  have "plan = new"
    using rmp_roundtrip [OF assms(1) shape(1)] rmp_roundtrip [OF assms(1) shape(2)] new(3,4) by (metis option.inject)
  then show ?thesis using new by simp
qed

lemma client_plan:
  assumes "codecs_ok S" "compile_text S P text = (Inr sch :: ('e server_error, _) outcome)" "same_bounds P P'"
    and "draws_ok (sv_externs S) (pl_rng P')" "rdbctl_plan S P' diff proceed text reference = (Inr yaml :: ('e cli_error, _) outcome)"
  obtains plan where "plan_shape plan" "plan_from_yaml S yaml = (Inr plan :: ('e server_error, _) outcome)"
    "plan_schema S P plan sch sch = (Inr plan :: ('e server_error, _) outcome)"
proof -
  have sch: "compile_text S P' text = (Inr sch :: ('e server_error, _) outcome)" "schema_ok sch" "same_bounds P' P"
    using assms(2) compile_text_bounds [OF assms(3), where ?'e = 'e] compiled_text_ok [OF assms(2)] assms(3) by (simp_all add: same_bounds_def)
  obtain old olds plan where p: "plan_schema S P' old olds sch = (Inr plan :: ('e server_error, _) outcome)" "plan_shape old"
    "plan_to_yaml S plan = (Inr yaml :: ('e server_error, _) outcome)"
  proof (cases reference)
    case None
    then show ?thesis using assms(5) sch(1) that [of "[]"] by (auto simp: rdbctl_plan_def plan_shape_def bt_ok_def)
  next
    case (Some reply)
    then show ?thesis using assms(5) sch(1) that yaml_plan_shape by (fastforce simp: rdbctl_plan_def ok_or_Inr_iff split: if_splits)
  qed
  note shape = planned_shape [OF p(1,2) assms(4)]
  show ?thesis using that [OF shape yaml_roundtrip [OF assms(1) shape p(3)] replanned [OF p(1) sch(2,3)]] .
qed

text \<open>
  C11. The integrity check of deployments. Whatever text is submitted, a plan that the server accepts is the submitted one and
  conforms to the compiled schema. Conversely every plan that the client prepares for the schema, from scratch or
  from a reference deployment, is accepted unchanged and survives its storage in compressed form.
\<close>

theorem deployment_check:
  assumes "codecs_ok S" "draws_ok (sv_externs S) (pl_rng P)" "compile_text S P text = (Inr sch :: ('e server_error, _) outcome)"
  shows "(\<forall>yaml plan. check_deployment S P text yaml = (Inr plan :: ('e server_error, _) outcome) \<longrightarrow>
      plan_from_yaml S yaml = (Inr plan :: ('e server_error, _) outcome) \<and>
      (\<exists>sp. special_types_of (pl_depth P) sch = Inr sp \<and> plan_conf sch (sp_recursive sp) (sp_set_members sp) plan)) \<and>
    (\<forall>P' diff proceed reference yaml. same_bounds P P' \<longrightarrow> draws_ok (sv_externs S) (pl_rng P') \<longrightarrow>
      rdbctl_plan S P' diff proceed text reference = (Inr yaml :: ('e cli_error, _) outcome) \<longrightarrow>
      (\<exists>plan raw. plan_from_yaml S yaml = (Inr plan :: ('e server_error, _) outcome) \<and>
        check_deployment S P text yaml = (Inr plan :: ('e server_error, _) outcome) \<and>
        serialize_compressed S plan = (Inr raw :: ('e server_error, _) outcome) \<and> deserialize_compressed S raw = (Inr plan :: ('e server_error, _) outcome)))"
proof (intro conjI allI impI)
  fix yaml plan assume "check_deployment S P text yaml = (Inr plan :: ('e server_error, _) outcome)"
  from check_sound [OF assms this] have c: "plan_from_yaml S yaml = (Inr plan :: ('e server_error, _) outcome)"
    "generate_plan_for_schema (pl_depth P) (pl_draws P) (sv_externs S) (pl_rng P) plan sch sch = Inr plan" by (auto simp: plan_schema_def)
  then show "plan_from_yaml S yaml = (Inr plan :: ('e server_error, _) outcome)"
    "\<exists>sp. special_types_of (pl_depth P) sch = Inr sp \<and> plan_conf sch (sp_recursive sp) (sp_set_members sp) plan"
    using generate_plan_run [OF c(2) compiled_text_ok [OF assms(3)]] by blast+
next
  fix P' diff proceed reference yaml
  assume P': "same_bounds P P'" "draws_ok (sv_externs S) (pl_rng P')"
    and "rdbctl_plan S P' diff proceed text reference = (Inr yaml :: ('e cli_error, _) outcome)"
  then obtain plan where plan: "plan_shape plan" "plan_from_yaml S yaml = (Inr plan :: ('e server_error, _) outcome)"
    "plan_schema S P plan sch sch = (Inr plan :: ('e server_error, _) outcome)"
    using client_plan [OF assms(1,3)] by blast
  obtain raw where "serialize_compressed S plan = (Inr raw :: ('e server_error, _) outcome)" "deserialize_compressed S raw = (Inr plan :: ('e server_error, _) outcome)"
    by (rule compressed_roundtrip [OF assms(1) plan(1)])
  then show "\<exists>plan raw. plan_from_yaml S yaml = (Inr plan :: ('e server_error, _) outcome) \<and>
      check_deployment S P text yaml = (Inr plan :: ('e server_error, _) outcome) \<and>
      serialize_compressed S plan = (Inr raw :: ('e server_error, _) outcome) \<and> deserialize_compressed S raw = (Inr plan :: ('e server_error, _) outcome)"
    using check_accepts [OF assms(1,3) plan(2,3)] plan(2) by blast
qed

definition sample_planning :: planning where
  "sample_planning = \<lparr>pl_compile = 24, pl_depth = Suc (Suc (Suc (Suc 0))), pl_draws = Suc 0, pl_rng = sample_rng\<rparr>"

lemma sample_codecs: "codecs_ok (sample_services schema script)"
proof -
  have "base64_roundtrip sample_externs"
    by (simp add: base64_roundtrip_def sample_externs_def as_bytes_def comp_def byte_of_char)
  then show ?thesis by (simp add: codecs_ok_def sample_services_def)
qed

lemma sample_draws: "draws_ok sample_externs sample_rng"
  by (simp add: draws_ok_def draw_key_def sample_rng_def sample_externs_def be_bytes_def)

lemma tree_compiled_text:
  "compile_text (sample_services tree_schema script) sample_planning text = Inr tree_compiled"
proof -
  have "compile 24 tree_schema = Inr tree_compiled" by code_simp
  then show ?thesis by (simp add: compile_text_def sample_services_def sample_planning_def)
qed

lemma tree_planned:
  "plan_schema (sample_services tree_schema script) sample_planning [] empty_schema tree_compiled = Inr tree_plan"
proof -
  have "generate_plan_for_schema (Suc (Suc (Suc (Suc 0)))) (Suc 0) sample_externs sample_rng [] empty_schema tree_compiled = Inr tree_plan"
    by (simp add: plan_eval tree_compiled_def tree_plan_def sample_key_def empty_schema_def)
  then show ?thesis by (simp add: plan_schema_def sample_services_def sample_planning_def)
qed

theorem deployment_check_witness:
  "\<exists>yaml. rdbctl_plan (sample_services tree_schema twice_root) sample_planning (\<lambda>_ _. (0, 0)) False ''tree'' None = (Inr yaml :: (unit cli_error, _) outcome) \<and>
    check_deployment (sample_services tree_schema twice_root) sample_planning ''tree'' yaml = (Inr tree_plan :: (unit server_error, _) outcome)"
proof -
  let ?S = "sample_services tree_schema twice_root"
  have S: "sv_externs ?S = sample_externs" "pl_rng sample_planning = sample_rng" by (simp_all add: sample_services_def sample_planning_def)
  have shape: "plan_shape tree_plan" by (rule planned_shape [OF tree_planned [where script = twice_root]]) (simp_all add: plan_shape_def bt_ok_def S sample_draws)
  obtain yaml where y: "plan_to_yaml ?S tree_plan = (Inr yaml :: (unit server_error, _) outcome)"
    by (simp add: plan_to_yaml_def sample_services_def)
  have r: "rdbctl_plan ?S sample_planning (\<lambda>_ _. (0, 0)) False ''tree'' None = (Inr yaml :: (unit cli_error, _) outcome)"
    using y by (simp add: rdbctl_plan_def tree_compiled_text tree_planned)
  have "plan_from_yaml ?S yaml = (Inr tree_plan :: (unit server_error, _) outcome)"
    by (rule yaml_roundtrip [OF sample_codecs shape y])
  with deployment_check [where ?'e = unit, OF sample_codecs _ tree_compiled_text, of twice_root "''tree''", unfolded S, OF sample_draws]
  show ?thesis using r S sample_draws by (fastforce simp: same_bounds_def)
qed

section \<open>Restarts\<close>

lemma utf8_roundtrip: "utf8_valid (as_bytes text) \<Longrightarrow> from_utf8 (as_bytes text) = Some text"
  by (simp add: from_utf8_def as_bytes_def comp_def unat_of_char)

lemma mem_begin_facts:
  assumes "bt_ok (ms_data s)"
  shows "mem_txn_ok (fst (begin_transaction s))" "mt_read_buffer (fst (begin_transaction s)) = ms_data s"
    "mt_buffer (fst (begin_transaction s)) = ms_data s" "ms_data (snd (begin_transaction s)) = ms_data s"
  using assms by (auto simp: begin_transaction_def mem_txn_ok_def bt_ok_def)

lemma unwrap_path_Inr_iff: "unwrap_path m r = Inr x \<longleftrightarrow> r = Inr x"
  by (cases "(m, r)" rule: unwrap_path.cases) auto

lemma meta_keys: "as_bytes ''schema'' \<noteq> as_bytes ''plan''"
  by (simp add: as_bytes_def)

lemma plan_written:
  assumes "bt_ok (ms_data s)" "begin_transaction s = (t, s1)" "serialize_compressed S plan = (Inr raw :: (unit server_error, _) outcome)"
  shows "\<exists>t' s2. write_plan S (mem_kv :: ('e, mem_transaction) kv_transaction) SCHEMA plan t = Inr t' \<and> mem_commit t' s1 = Inr s2 \<and>
    bt_ok (ms_data s2) \<and> mem_view (ms_data s2) (as_bytes ''schema'') = Some (as_bytes SCHEMA) \<and> mem_view (ms_data s2) (as_bytes ''plan'') = Some raw"
proof -
  have t: "mem_txn_ok t \<and> mt_read_buffer t = ms_data s" "ms_data s1 = ms_data s" using mem_begin_facts [OF assms(1)] assms(2) by simp_all
  obtain t1 where t1: "kv_put (mem_kv :: ('e, mem_transaction) kv_transaction) t (as_bytes ''schema'') (as_bytes SCHEMA) = Inr t1"
    "mem_txn_ok t1 \<and> mt_read_buffer t1 = ms_data s" "mem_view (mt_buffer t1) = (mem_view (mt_buffer t))(as_bytes ''schema'' \<mapsto> as_bytes SCHEMA)"
    using mem_at.put_law [OF t(1)] by blast
  obtain t2 where t2: "kv_put (mem_kv :: ('e, mem_transaction) kv_transaction) t1 (as_bytes ''plan'') raw = Inr t2"
    "mem_txn_ok t2 \<and> mt_read_buffer t2 = ms_data s" "mem_view (mt_buffer t2) = (mem_view (mt_buffer t1))(as_bytes ''plan'' \<mapsto> raw)"
    using mem_at.put_law [OF t1(2)] by blast
  obtain s2 where "mem_commit t2 s1 = Inr s2" "mem_view (ms_data s2) = mem_view (mt_buffer t2)" "bt_ok (ms_data s2)"
    using own_commit [of t2 s1] t2(2) t(2) assms(1) by auto
  then show ?thesis using t1 t2 assms(3) meta_keys by (simp add: write_plan_def)
qed

lemma stored_schema_read:
  assumes "bt_ok (ms_data s)" "begin_transaction s = (t, s1)"
  shows "stored_schema S (mem_kv :: ('e, mem_transaction) kv_transaction) t =
    bindR (option_mapR (\<lambda>x. unwrap unwrap_err (from_utf8 x)) (mem_view (ms_data s) (as_bytes ''schema''))) (\<lambda>text.
    bindR (option_mapR (\<lambda>x. unwrap_path unwrap_err (deserialize_compressed S x :: (unit server_error, _) outcome)) (mem_view (ms_data s) (as_bytes ''plan''))) (\<lambda>plan.
    Inr (text, plan)))"
proof -
  have "mem_txn_ok t \<and> mt_read_buffer t = ms_data s" using mem_begin_facts [OF assms(1)] assms(2) by simp
  from mem_at.get_law [OF this, where ?'e = 'e] show ?thesis using mem_begin_facts(2) [OF assms(1)] assms(2) by (simp add: stored_schema_def)
qed

text \<open>A start on a store that already holds the schema and a plan made for it.\<close>

lemma start_again:
  assumes "bt_ok (ms_data s)" "mem_view (ms_data s) (as_bytes ''schema'') = Some (as_bytes SCHEMA)" "utf8_valid (as_bytes SCHEMA)"
    and "mem_view (ms_data s) (as_bytes ''plan'') = Some raw" "deserialize_compressed S raw = (Inr plan :: (unit server_error, _) outcome)"
    and "compile_text S P SCHEMA = (Inr sch :: (unit server_error, _) outcome)" "plan_schema S P plan sch sch = (Inr plan :: (unit server_error, _) outcome)"
    and "sv_plan_to_rmp S plan = Some b"
  shows "system_plan S P (mem_backend :: ('e, mem_store, mem_transaction) kv_backend) SCHEMA sch hash s = (Inr plan, snd (begin_transaction s))"
proof -
  obtain t s1 where t: "begin_transaction s = (t, s1)" by (cases "begin_transaction s")
  have "stored_schema S (mem_kv :: ('e, mem_transaction) kv_transaction) t = Inr (Some SCHEMA, Some plan)"
    using stored_schema_read [OF assms(1) t, of S] assms(2,4,5) utf8_roundtrip [OF assms(3)] by simp
  moreover have "choose_plan S P SCHEMA sch hash (Some SCHEMA) (Some plan) = (Inr (plan, False) :: ('e server_error, _) outcome)"
    using assms(6-8) by (simp add: choose_plan_def)
  ultimately show ?thesis using t by (simp add: system_plan_def mem_backend_def mem_kv_store_def)
qed

text \<open>A start on an empty store plans the schema from scratch and stores both.\<close>

lemma first_start:
  assumes "system_plan S P (mem_backend :: ('e, mem_store, mem_transaction) kv_backend) SCHEMA sch hash s = (Inr plan, s1)"
    and "bt_ok (ms_data s)" "mem_view (ms_data s) (as_bytes ''schema'') = None" "codecs_ok S" "draws_ok (sv_externs S) (pl_rng P)"
  obtains raw where "plan_schema S P [] empty_schema sch = (Inr plan :: (unit server_error, _) outcome)" "plan_shape plan" "bt_ok (ms_data s1)"
    "mem_view (ms_data s1) (as_bytes ''schema'') = Some (as_bytes SCHEMA)" "mem_view (ms_data s1) (as_bytes ''plan'') = Some raw"
    "deserialize_compressed S raw = (Inr plan :: (unit server_error, _) outcome)"
proof -
  obtain t s0 where t: "begin_transaction s = (t, s0)" by (cases "begin_transaction s")
  from assms(1) stored_schema_read [OF assms(2) t, of S, where ?'e = 'e] assms(3) t obtain plan' t' where
    p: "plan_schema S P [] empty_schema sch = (Inr plan' :: (unit server_error, _) outcome)"
      "write_plan S (mem_kv :: ('e, mem_transaction) kv_transaction) SCHEMA plan' t = Inr t'" "mem_commit t' s0 = Inr s1" "plan' = plan"
    by (auto simp: system_plan_def mem_backend_def mem_kv_store_def choose_plan_def bindR_Inr_iff unwrap_path_Inr_iff
      split: sum.splits prod.splits bool.splits)
  have shape: "plan_shape plan" using planned_shape [OF p(1) _ assms(5)] p(4) by (simp add: plan_shape_def bt_ok_def)
  obtain raw where raw: "serialize_compressed S plan = (Inr raw :: (unit server_error, _) outcome)" "deserialize_compressed S raw = (Inr plan :: (unit server_error, _) outcome)"
    by (rule compressed_roundtrip [OF assms(4) shape])
  from plan_written [OF assms(2) t raw(1), of SCHEMA, where ?'e = 'e] p
  show ?thesis using that [of raw] shape raw(2) by auto
qed


definition tree_vm :: tw_vm where
  "tree_vm = (one_graph twice_graph)\<lparr>vm_schema := tree_compiled, vm_storage_plan := tree_plan\<rparr>"

lemma tree_loads:
  "\<exists>ctx. exec_context_load (sample_services schema twice_root) \<lparr>sc_schema = tree_compiled, sc_plan = tree_plan\<rparr> text = Inr ctx"
proof -
  have vm: "tw_vm_new sample_externs tree_compiled tree_plan (vm_script (one_graph twice_graph)) = Inr tree_vm"
    by (simp add: tw_vm_new_def one_graph_def twice_graph_def exported_graph_name_index_def tree_vm_def)
  have "checked single_components tree_vm twice_info" by code_simp
  then show ?thesis using twice_compiles vm
    by (simp add: exec_context_load_def sample_services_def twice_root_def compile_twscript_def checked_def generate_root_map_def
        tree_compiled_def tree_plan_def from_export_def)
qed

lemma tree_first_plan:
  "\<exists>s1. system_plan (sample_services tree_schema twice_root) sample_planning (mem_backend :: (unit, mem_store, mem_transaction) kv_backend)
      ''s'' tree_compiled None mem_new = (Inr tree_plan, s1)"
proof -
  let ?S = "sample_services tree_schema twice_root"
  obtain t s0 where t: "begin_transaction mem_new = (t, s0)" by (cases "begin_transaction mem_new")
  have ok: "bt_ok (ms_data mem_new)" and none: "mem_view (ms_data mem_new) k = None" for k by (simp_all add: mem_new_def mem_view_def)
  have "plan_shape tree_plan"
    by (rule planned_shape [OF tree_planned [where script = twice_root]]) (simp_all add: plan_shape_def bt_ok_def sample_services_def sample_planning_def sample_draws)
  then obtain raw where "serialize_compressed ?S tree_plan = (Inr raw :: (unit server_error, _) outcome)" by (rule compressed_roundtrip [OF sample_codecs])
  from plan_written [OF ok t this, where SCHEMA = "''s''" and ?'e = unit] obtain t' s2 where
    "write_plan ?S (mem_kv :: (unit, mem_transaction) kv_transaction) ''s'' tree_plan t = Inr t'" "mem_commit t' s0 = Inr s2" by blast
  then show ?thesis using t stored_schema_read [OF ok t, of ?S, where ?'e = unit] none
    by (simp add: system_plan_def mem_backend_def mem_kv_store_def choose_plan_def tree_planned)
qed


section \<open>Deleting a namespace\<close>

text \<open>
  The SQLite store as a backend of the server; the state is the content of the database between transactions, and no other
  transaction is open meanwhile.
\<close>

definition sqlite_backend :: "'d rusqlite \<Rightarrow> string \<Rightarrow> bytes \<Rightarrow> (sqlite_error, 'd, 'd sqlite_txn) kv_backend" where
  "sqlite_backend S table p = \<lparr>bk_kv = sqlite_kv S,
     bk_store = \<lparr>ks_begin = (\<lambda>d. Inr (sqlite_begin (Inr d) (sqlite_new table p), d)), ks_commit = (\<lambda>t _. sqlite_commit S t)\<rparr>\<rparr>"



end
