(* ===== verification/Playground.thy ===== *)
theory Playground
  imports Control_Server
begin

text \<open>
  The playground service \<^verbatim>\<open>rdb-pgsvc\<close>: its functions for the browser (\<^verbatim>\<open>main.rs\<close>), the query interface of
  \<^verbatim>\<open>query.rs\<close> and the drawing of data-flow graphs of \<^verbatim>\<open>dfvis.rs\<close>. Printing and reading JSON and the debug text of a
  node are parameters; a C string that comes in is the sequence of its bytes before the terminating zero. The
  functions that only release memory have no counterpart, and the fields of a drawing that are
  always empty are left out.
\<close>

section \<open>Queries\<close>

record vm_graph_query =
  gq_graph :: string
  gq_params :: "serialized_vm_value list"

record vm_graph_info =
  gi_name :: string
  gi_query_template :: string
  gi_params :: "string list"

datatype 'e query_error = GraphNotFound_Query | ParamCountMismatch_Query | QueryFailed "'e server_error"

fun generate_example_param :: "vm_type \<Rightarrow> serialized_vm_value" where
  "generate_example_param TBool = SBool False"
| "generate_example_param (TMap x) = STaggedM (bt_collect (map (\<lambda>(k, v). (k, generate_example_param v)) x))"
| "generate_example_param (TPrimitive x) =
     (case x of
        BytesT \<Rightarrow> SString ''''
      | StringT \<Rightarrow> SString ''''
      | Int64T \<Rightarrow> SString ''0''
      | DoubleT \<Rightarrow> SString ''0.0'')"
| "generate_example_param _ = SNull"

definition generate_example_query :: "tw_vm \<Rightarrow> tw_graph \<Rightarrow> ('e, vm_graph_query) outcome" where
  "generate_example_query vm g =
     bindR (mapR (index_or_panic (vm_types vm)) (g_param_types g)) (\<lambda>tys.
     Inr \<lparr>gq_graph = g_name g, gq_params = map generate_example_param tys\<rparr>)"

definition get_vm_graphs :: "(vm_graph_query \<Rightarrow> string) \<Rightarrow> tw_vm \<Rightarrow> ('e, vm_graph_info list) outcome" where
  "get_vm_graphs to_json vm =
     mapR (\<lambda>g.
       bindR (generate_example_query vm g) (\<lambda>q.
       bindR (mapR (index_or_panic (vm_types vm)) (g_param_types g)) (\<lambda>tys.
       Inr \<lparr>gi_name = g_name g, gi_query_template = to_json q, gi_params = map display_vm_type tys\<rparr>)))
     (filter g_exported (s_graphs (vm_script vm)))"

fun find_vm_graph :: "nat \<Rightarrow> string \<Rightarrow> tw_graph list \<Rightarrow> (nat \<times> tw_graph) option" where
  "find_vm_graph i name [] = None"
| "find_vm_graph i name (g # gs) = (if g_name g = name then Some (i, g) else find_vm_graph (Suc i) name gs)"

definition run_vm_query ::
  "services \<Rightarrow> tw_vm \<Rightarrow> ('e, 's, 't) kv_backend \<Rightarrow> global_type_info \<Rightarrow> ('s, 't) run_env \<Rightarrow> vm_graph_query \<Rightarrow> 's \<Rightarrow>
   ('e query_error, serialized_vm_value option) outcome \<times> 's" where
  "run_vm_query S vm bk type_info env query s =
     (case bindR (via (QueryFailed \<circ> ExecFailed) (executor_new vm (bk_kv bk) type_info)) (\<lambda>ex.
           bindR (ok_or GraphNotFound_Query (find_vm_graph 0 (gq_graph query) (s_graphs (vm_script vm)))) (\<lambda>(i, g).
           if length (gq_params query) \<noteq> length (g_param_types g) then Inl (Err ParamCountMismatch_Query)
           else
             bindR (mapR (index_or_panic (vm_types vm)) (g_param_types g)) (\<lambda>param_types.
             bindR (mapR (\<lambda>(x, ty).
                 if ty = TSchema then via (QueryFailed \<circ> ExecFailed) (generate_root_map (vm_schema vm) (vm_storage_plan vm))
                 else via (QueryFailed \<circ> SerializeFailed) (decode (sv_externs S) (sv_text S) ty x)) (zip (gq_params query) param_types)) (\<lambda>params.
             Inr (ex, i, params))))) of
        Inl e \<Rightarrow> (Inl e, s)
      | Inr (ex, i, params) \<Rightarrow>
          (case run_graph (sv_externs S) ex (bk_store bk) (re_pick env) (re_others env) i params s of
             (res, s') \<Rightarrow>
               (bindR (via (QueryFailed \<circ> ExecFailed) res) (\<lambda>out.
                via (QueryFailed \<circ> SerializeFailed) (option_mapR (encode (sv_externs S) (sv_text S) default_config) out)), s')))"

section \<open>Drawings\<close>

record vis_node =
  vn_id :: nat
  vn_label :: string
  vn_shape :: "string option"
  vn_group :: nat

record vis_edge =
  ve_from :: nat
  ve_to :: nat
  ve_dashes :: bool
  ve_color :: "string option"
  ve_label :: "string option"

record dataflow =
  df_nodes :: "vis_node list"
  df_edges :: "vis_edge list"

definition plain_edge :: "nat \<Rightarrow> nat \<Rightarrow> bool \<Rightarrow> vis_edge" where
  "plain_edge source target dashes = \<lparr>ve_from = source, ve_to = target, ve_dashes = dashes, ve_color = None, ve_label = None\<rparr>"

definition param_edge :: "nat list \<Rightarrow> nat \<Rightarrow> nat \<times> nat \<Rightarrow> ('e, vis_edge) outcome" where
  "param_edge ids i x =
     bindR (index_or_panic ids (snd x)) (\<lambda>source. Inr ((plain_edge source i False)\<lparr>ve_label := Some (dec_digits (fst x))\<rparr>))"

definition condition_edge :: "nat list \<Rightarrow> nat \<Rightarrow> nat \<Rightarrow> ('e, vis_edge) outcome" where
  "condition_edge ids i x = bindR (index_or_panic ids x) (\<lambda>source. Inr (plain_edge source i True))"

definition add_edges :: "vis_edge list \<Rightarrow> dataflow \<Rightarrow> dataflow" where
  "add_edges es out = out\<lparr>df_edges := df_edges out @ es\<rparr>"

definition visualize_node ::
  "(tw_graph_node \<Rightarrow> string) \<Rightarrow> nat \<Rightarrow> dataflow \<times> nat list \<Rightarrow> tw_graph_node \<times> nat list \<times> nat option \<Rightarrow> ('e, dataflow \<times> nat list) outcome" where
  "visualize_node debug graph_index st node =
     (case st of (out, ids) \<Rightarrow>
      case node of (n, in_edges, condition) \<Rightarrow>
      let i = length (df_nodes out);
          out1 = out\<lparr>df_nodes := df_nodes out @ [\<lparr>vn_id = i, vn_label = debug n, vn_shape = None, vn_group = graph_index\<rparr>]\<rparr> in
      bindR (mapR (param_edge ids i)
        (enumerate 0 in_edges)) (\<lambda>params.
      bindR (option_mapR (condition_edge ids i) condition) (\<lambda>pre.
      let deps = params @ (case pre of Some e \<Rightarrow> [e] | None \<Rightarrow> []);
          roots = (if in_edges = [] \<and> condition = None then [plain_edge graph_index i True] else []);
          calls = map (\<lambda>g. (plain_edge i g True)\<lparr>ve_color := Some ''red''\<rparr>) (subgraph_references n) in
      Inr (add_edges (deps @ roots @ calls) out1, ids @ [i]))))"

definition visualize_graph ::
  "(tw_graph_node \<Rightarrow> string) \<Rightarrow> tw_graph list \<Rightarrow> dataflow \<Rightarrow> nat \<Rightarrow> ('e, dataflow) outcome" where
  "visualize_graph debug graphs out graph_index =
     bindR (index_or_panic graphs graph_index) (\<lambda>g.
     bindR (foldR (visualize_node debug graph_index) (out, []) (g_nodes g)) (\<lambda>(out', _). Inr out'))"

definition graph_node :: "dataflow \<Rightarrow> nat \<times> tw_graph \<Rightarrow> ('e, dataflow) outcome" where
  "graph_node out g =
     (let i = length (df_nodes out) in
      if i \<noteq> fst g then Inl (Panic ''assertion failed: `(left == right)`'')
      else Inr (out\<lparr>df_nodes := df_nodes out @
        [\<lparr>vn_id = i, vn_label = ''graph:'' @ g_name (snd g), vn_shape = Some ''diamond'', vn_group = fst g\<rparr>]\<rparr>))"

definition visualize_df :: "(tw_graph_node \<Rightarrow> string) \<Rightarrow> tw_vm \<Rightarrow> ('e, dataflow) outcome" where
  "visualize_df debug vm =
     (let graphs = s_graphs (vm_script vm) in
      bindR (foldR graph_node \<lparr>df_nodes = [], df_edges = []\<rparr> (enumerate 0 graphs)) (\<lambda>out.
      foldR (visualize_graph debug graphs) out [0..<length graphs]))"

section \<open>The exported functions\<close>

text \<open>An error or a panic becomes a null pointer.\<close>

fun wrap :: "('e, 'a) outcome \<Rightarrow> 'a option" where
  "wrap (Inr x) = Some x"
| "wrap (Inl _) = None"

definition to_str :: "bytes \<Rightarrow> ('e server_error, string) outcome" where
  "to_str bs = ok_or CodecFailed (from_utf8 bs)"

definition mkcstr :: "string \<Rightarrow> bytes" where
  "mkcstr s = as_bytes s @ [0]"

definition rdb_compile_schema :: "services \<Rightarrow> planning \<Rightarrow> bytes \<Rightarrow> compiled_schema option" where
  "rdb_compile_schema S P schema =
     wrap (bindR (to_str schema) (\<lambda>text. compile_text S P text :: (unit server_error, _) outcome))"

definition rdb_dfasm :: "services \<Rightarrow> bytes \<Rightarrow> tw_script option" where
  "rdb_dfasm S source =
     wrap (bindR (to_str source) (\<lambda>text. via AsmFailed (compile_twscript (sv_parse_script S) text) :: (unit server_error, _) outcome))"

definition rdb_vm_create :: "services \<Rightarrow> compiled_schema \<Rightarrow> storage_key storage_plan \<Rightarrow> tw_script \<Rightarrow> tw_vm option" where
  "rdb_vm_create S schema plan script = wrap (tw_vm_new (sv_externs S) schema plan script)"

definition rdb_vm_tyck :: "services \<Rightarrow> tw_vm \<Rightarrow> global_type_info option" where
  "rdb_vm_tyck S vm = wrap (bindR (tyck_new (sv_kosaraju S) vm) typeck)"

definition rdb_vm_visualize_df :: "(tw_graph_node \<Rightarrow> string) \<Rightarrow> (dataflow \<Rightarrow> string) \<Rightarrow> tw_vm \<Rightarrow> bytes option" where
  "rdb_vm_visualize_df debug to_json vm =
     map_option (\<lambda>out. mkcstr (to_json out)) (wrap (visualize_df debug vm :: (unit, _) outcome))"

definition rdb_vm_get_graphs :: "(vm_graph_query \<Rightarrow> string) \<Rightarrow> (vm_graph_info list \<Rightarrow> string) \<Rightarrow> tw_vm \<Rightarrow> bytes option" where
  "rdb_vm_get_graphs query_json to_json vm =
     map_option (\<lambda>out. mkcstr (to_json out)) (wrap (get_vm_graphs query_json vm :: (unit, _) outcome))"

definition rdb_vm_run_query ::
  "services \<Rightarrow> (string \<Rightarrow> vm_graph_query option) \<Rightarrow> (serialized_vm_value option \<Rightarrow> string) \<Rightarrow> tw_vm \<Rightarrow> global_type_info \<Rightarrow>
   (mem_store, mem_transaction) run_env \<Rightarrow> bytes \<Rightarrow> mem_store \<Rightarrow> bytes option \<times> mem_store" where
  "rdb_vm_run_query S of_json to_json vm type_info env query s =
     (case bindR (to_str query) (\<lambda>text. ok_or CodecFailed (of_json text) :: (unit server_error, _) outcome) of
        Inl e \<Rightarrow> (None, s)
      | Inr q \<Rightarrow>
          (case run_vm_query S vm (mem_backend :: (unit, _, _) kv_backend) type_info env q s of
             (r, s') \<Rightarrow> (map_option (\<lambda>out. mkcstr (to_json out)) (wrap r), s')))"

definition rdb_memkv_create :: "mem_store option" where
  "rdb_memkv_create = wrap (Inr mem_new :: (unit, _) outcome)"

definition rdb_generate_storage_plan ::
  "services \<Rightarrow> planning \<Rightarrow> compiled_schema \<Rightarrow> compiled_schema option \<Rightarrow> storage_key storage_plan option \<Rightarrow> storage_key storage_plan option" where
  "rdb_generate_storage_plan S P schema old_schema old_plan =
     wrap (bindR (case old_schema of
         Some olds \<Rightarrow> bindR (unwrap unwrap_none old_plan) (\<lambda>plan. Inr (olds, plan))
       | None \<Rightarrow> Inr (empty_schema, [])) (\<lambda>(reference_schema, reference_plan).
     plan_schema S P reference_plan reference_schema schema :: (unit server_error, _) outcome))"

definition rdb_pretty_print_storage_plan :: "services \<Rightarrow> storage_key storage_plan \<Rightarrow> bytes option" where
  "rdb_pretty_print_storage_plan S plan =
     map_option mkcstr (wrap (unwrap_path unwrap_err (plan_to_yaml S plan :: (unit server_error, _) outcome) :: (unit, _) outcome))"

section \<open>Example queries\<close>

fun mentions_double :: "vm_type \<Rightarrow> bool" where
  "mentions_double (TPrimitive p) = (p = DoubleT)"
| "mentions_double (TMap m) = list_ex (\<lambda>e. mentions_double (snd e)) m"
| "mentions_double _ = False"

lemma decode_fields_total:
  assumes "\<forall>e \<in> set m. bt_get x (fst e) = Some (g (snd e))"
  shows "(\<exists>r. foldR (\<lambda>res (k, field_ty).
      case bt_get x k of
        Some v \<Rightarrow> bindR (decode E T field_ty v) (\<lambda>d. Inr (bt_insert k d res))
      | None \<Rightarrow> Inr (bt_insert k (VNull field_ty) res)) acc m = Inr r) \<longleftrightarrow> (\<forall>e \<in> set m. \<exists>v. decode E T (snd e) (g (snd e)) = Inr v)"
  using assms
proof (induction m arbitrary: acc)
  case (Cons e m)
  obtain k ty where e: "e = (k, ty)" by (cases e)
  then have k: "bt_get x k = Some (g ty)" using Cons.prems by simp
  show ?case
  proof (cases "decode E T ty (g ty)")
    case (Inr d)
    then show ?thesis using Cons e k by simp
  qed (use e k in simp)
qed simp

lemma example_texts: "parse_u64 ''0.0'' = None" "parse_i64 ''0'' = Some 0"
  by (simp_all add: parse_u64_def parse_i64_def parse_nat_def digit_value_def)

lemma example_fields:
  assumes "bt_ok m" "e \<in> set m"
  shows "bt_get (bt_collect (map (\<lambda>(k, v). (k, f v)) m)) (fst e) = Some (f (snd e))"
proof -
  have keys: "map fst (map (\<lambda>(k, v). (k, f v)) m) = map fst m" by (induction m) auto
  then have ok: "bt_ok (map (\<lambda>(k, v). (k, f v)) m)" using assms(1) by (simp only: bt_ok_def)
  then show ?thesis using assms(2) bt_ok_distinct [OF ok]
    by (auto simp: bt_collect_sorted intro!: map_of_is_SomeI)
qed

text \<open>
  C36. Example queries: the argument that the playground suggests for a parameter can be decoded at the type of the
  parameter exactly when the type has no field of type double. For a double it suggests the text
  \<open>0.0\<close>, which the decoder reads as an unsigned integer and rejects.
\<close>

theorem example_param_decodes:
  assumes "base64_decode E '''' = Some []" "type_sorted ty"
  shows "(\<exists>v. decode E T ty (generate_example_param ty) = Inr v) \<longleftrightarrow> \<not> mentions_double ty"
  using assms(2)
proof (induction ty)
  case (TMap m)
  have ok: "bt_ok m" using TMap.prems by simp
  have each: "(\<exists>v. decode E T (snd e) (generate_example_param (snd e)) = Inr v) \<longleftrightarrow> \<not> mentions_double (snd e)" if "e \<in> set m" for e
    using TMap.IH [of e "snd e"] TMap.prems that by (cases e) (auto simp: list_all_iff)
  let ?x = "bt_collect (map (\<lambda>(k, v). (k, generate_example_param v)) m)"
  have "\<forall>e \<in> set m. bt_get ?x (fst e) = Some (generate_example_param (snd e))" by (intro ballI example_fields [OF ok])
  from decode_fields_total [OF this, of E T "[]"] show ?case
    by (simp only: generate_example_param.simps mentions_double.simps decode_simps list_ex_iff) (use each in \<open>auto simp: bindR_Inr_iff\<close>)
next
  case (TPrimitive p)
  then show ?case using assms(1) by (cases p) (simp_all add: decode_simps example_texts)
qed (simp_all add: decode_simps)

theorem example_param_decodes_witness:
  "\<exists>v. decode sample_externs \<lparr>f64_display = (\<lambda>_. []), from_utf8_lossy = (\<lambda>_. [])\<rparr> (TMap [(''a'', TPrimitive Int64T), (''b'', TList TBool)])
      (generate_example_param (TMap [(''a'', TPrimitive Int64T), (''b'', TList TBool)])) = Inr v"
proof -
  have "base64_decode sample_externs [] = Some []" by (simp add: sample_externs_def as_bytes_def)
  moreover have "type_sorted (TMap [(''a'', TPrimitive Int64T), (''b'', TList TBool)])" by (simp add: bt_ok_def)
  moreover have "\<not> mentions_double (TMap [(''a'', TPrimitive Int64T), (''b'', TList TBool)])" by simp
  ultimately show ?thesis using example_param_decodes by blast
qed

section \<open>Drawn graphs\<close>

definition drawn :: "dataflow \<Rightarrow> bool" where
  "drawn out \<longleftrightarrow> map vn_id (df_nodes out) = [0..<length (df_nodes out)] \<and>
     (\<forall>e \<in> set (df_edges out). ve_from e < length (df_nodes out) \<and> ve_to e < length (df_nodes out))"

lemma graph_nodes_drawn:
  "length (df_nodes out) = k \<Longrightarrow> drawn out \<Longrightarrow> \<exists>out'. foldR graph_node out (enumerate k gs) = (Inr out' :: ('e, _) outcome) \<and> drawn out' \<and>
    length (df_nodes out') = k + length gs \<and> df_edges out' = df_edges out"
proof (induction gs arbitrary: out k)
  case (Cons g gs)
  let ?out = "out\<lparr>df_nodes := df_nodes out @ [\<lparr>vn_id = k, vn_label = ''graph:'' @ g_name g, vn_shape = Some ''diamond'', vn_group = k\<rparr>]\<rparr>"
  have "drawn ?out" "length (df_nodes ?out) = Suc k" using Cons.prems by (auto simp: drawn_def)
  from Cons.IH [OF this(2,1)] show ?case using Cons.prems(1) by (auto simp: graph_node_def Let_def)
qed simp

lemma edges_mapR:
  assumes "\<forall>e \<in> set es. e < length ids"
  shows "\<exists>xs. mapR (param_edge ids i) (enumerate m es) = (Inr xs :: ('e, _) outcome) \<and> (\<forall>x \<in> set xs. ve_from x \<in> set ids \<and> ve_to x = i)"
  using assms
proof (induction es arbitrary: m)
  case (Cons e es)
  from Cons.prems have "\<forall>e \<in> set es. e < length ids" by simp
  from Cons.IH [OF this, of "Suc m"] obtain xs where
    xs: "mapR (param_edge ids i) (enumerate (Suc m) es) = (Inr xs :: ('e, _) outcome)" "\<forall>x \<in> set xs. ve_from x \<in> set ids \<and> ve_to x = i" by blast
  have "param_edge ids i (m, e) = (Inr ((plain_edge (ids ! e) i False)\<lparr>ve_label := Some (dec_digits m)\<rparr>) :: ('e, _) outcome)"
    using Cons.prems by (simp add: param_edge_def index_or_panic_def nth_opt_def)
  then show ?case using xs Cons.prems by (simp add: plain_edge_def)
qed simp

lemma references_fit: "fits L np n \<Longrightarrow> g \<in> set (subgraph_references n) \<Longrightarrow> g < l_graphs L"
  by (cases n) auto

lemma node_drawn:
  assumes "node_ok L np (length ids) node" "drawn out" "\<forall>i \<in> set ids. i < length (df_nodes out)"
    and "l_graphs L \<le> length (df_nodes out)" "gi < length (df_nodes out)"
  shows "\<exists>out'. visualize_node debug gi (out, ids) node = (Inr (out', ids @ [length (df_nodes out)]) :: ('e, _) outcome) \<and> drawn out' \<and>
    length (df_nodes out') = Suc (length (df_nodes out))"
proof -
  let ?i = "length (df_nodes out)"
  obtain n ins pre where node: "node = (n, ins, pre)" by (cases node)
  have n: "fits L np n" "\<forall>e \<in> set ins. e < length ids" "\<forall>e. pre = Some e \<longrightarrow> e < length ids"
    using assms(1) node by (auto simp: node_ok_def)
  obtain xs where xs: "mapR (param_edge ids ?i) (enumerate 0 ins) = (Inr xs :: ('e, _) outcome)"
    "\<forall>x \<in> set xs. ve_from x \<in> set ids \<and> ve_to x = ?i" using edges_mapR [OF n(2)] by blast
  have "\<exists>p. option_mapR (condition_edge ids ?i) pre = (Inr p :: ('e, _) outcome) \<and> (\<forall>e. p = Some e \<longrightarrow> ve_from e \<in> set ids \<and> ve_to e = ?i)"
    using n(3) by (cases pre) (auto simp: index_or_panic_def nth_opt_def plain_edge_def condition_edge_def)
  then obtain p where p: "option_mapR (condition_edge ids ?i) pre = (Inr p :: ('e, _) outcome)"
    "\<forall>e. p = Some e \<longrightarrow> ve_from e \<in> set ids \<and> ve_to e = ?i" by blast
  let ?es = "(xs @ (case p of Some e \<Rightarrow> [e] | None \<Rightarrow> [])) @ (if ins = [] \<and> pre = None then [plain_edge gi ?i True] else []) @
      map (\<lambda>g. (plain_edge ?i g True)\<lparr>ve_color := Some ''red''\<rparr>) (subgraph_references n)"
  have es: "\<forall>e \<in> set ?es. ve_from e < Suc ?i \<and> ve_to e < Suc ?i"
    using xs(2) p(2) assms(3-5) references_fit [OF n(1)] by (fastforce simp: plain_edge_def split: option.splits)
  let ?out = "add_edges ?es (out\<lparr>df_nodes := df_nodes out @ [\<lparr>vn_id = ?i, vn_label = debug n, vn_shape = None, vn_group = gi\<rparr>]\<rparr>)"
  have "visualize_node debug gi (out, ids) node = (Inr (?out, ids @ [?i]) :: ('e, _) outcome)"
    using xs(1) p(1) by (simp add: visualize_node_def node Let_def)
  moreover have "length (df_nodes ?out) = Suc ?i" by (simp add: add_edges_def)
  moreover have "df_edges ?out = df_edges out @ ?es" by (simp add: add_edges_def)
  moreover have "map vn_id (df_nodes ?out) = [0..<Suc ?i]" using assms(2) by (simp add: add_edges_def drawn_def)
  ultimately show ?thesis using es assms(2) by (intro exI [of _ ?out]) (auto simp: drawn_def less_Suc_eq)
qed

lemma nodes_drawn:
  assumes "\<forall>j < length ns. node_ok L np (length ids + j) (ns ! j)" "drawn out" "\<forall>i \<in> set ids. i < length (df_nodes out)"
    and "l_graphs L \<le> length (df_nodes out)" "gi < length (df_nodes out)"
  shows "\<exists>out' ids'. foldR (visualize_node debug gi) (out, ids) ns = (Inr (out', ids') :: ('e, _) outcome) \<and> drawn out' \<and>
    length (df_nodes out') = length (df_nodes out) + length ns"
  using assms
proof (induction ns arbitrary: out ids)
  case (Cons node ns)
  from Cons.prems(1) have hd: "node_ok L np (length ids) node" by force
  from node_drawn [OF hd Cons.prems(2-5), of debug] obtain out1 where
    o: "visualize_node debug gi (out, ids) node = (Inr (out1, ids @ [length (df_nodes out)]) :: ('e, _) outcome)" "drawn out1"
      "length (df_nodes out1) = Suc (length (df_nodes out))" by blast
  have "\<forall>j < length ns. node_ok L np (length (ids @ [length (df_nodes out)]) + j) (ns ! j)" using Cons.prems(1) by force
  from Cons.IH [OF this o(2)] o Cons.prems(3-5) obtain out' ids' where
    "foldR (visualize_node debug gi) (out1, ids @ [length (df_nodes out)]) ns = (Inr (out', ids') :: ('e, _) outcome)" "drawn out'"
      "length (df_nodes out') = length (df_nodes out1) + length ns" by fastforce
  then show ?case using o by simp
qed simp

lemma graphs_drawn:
  assumes "\<forall>g \<in> set graphs. graph_ok L g" "l_graphs L \<le> length (df_nodes out)" "length graphs \<le> length (df_nodes out)" "drawn out"
    and "\<forall>k \<in> set ks. k < length graphs"
  shows "\<exists>out'. foldR (visualize_graph debug graphs) out ks = (Inr out' :: ('e, _) outcome) \<and> drawn out' \<and>
    length (df_nodes out') = length (df_nodes out) + sum_list (map (\<lambda>k. length (g_nodes (graphs ! k))) ks)"
  using assms(2-)
proof (induction ks arbitrary: out)
  case (Cons k ks)
  have k: "k < length graphs" "graph_ok L (graphs ! k)" using Cons.prems(4) assms(1) by auto
  then have "\<forall>j < length (g_nodes (graphs ! k)). node_ok L (length (g_param_types (graphs ! k))) (length ([] :: nat list) + j) (g_nodes (graphs ! k) ! j)"
    by (simp add: graph_ok_def)
  from nodes_drawn [OF this Cons.prems(3), of k debug] k Cons.prems(1,2) obtain out1 ids where
    o: "foldR (visualize_node debug k) (out, []) (g_nodes (graphs ! k)) = (Inr (out1, ids) :: ('e, _) outcome)" "drawn out1"
      "length (df_nodes out1) = length (df_nodes out) + length (g_nodes (graphs ! k))" by auto
  have step: "visualize_graph debug graphs out k = (Inr out1 :: ('e, _) outcome)"
    using o(1) k(1) by (simp add: visualize_graph_def index_or_panic_def nth_opt_def)
  from Cons.IH [OF _ _ o(2)] o(3) Cons.prems show ?case by (fastforce simp: step)
qed simp

text \<open>
  C35. Drawings of assembled scripts: for a script that the assembler has produced, drawing its data flow never panics. There is
  one drawn node for each graph and for each of its nodes, numbered by position, and every
  edge runs between nodes of the drawing.
\<close>

theorem drawing_well_formed:
  assumes "compile_root r = Inr (vm_script vm)"
  shows "\<exists>out. visualize_df debug vm = (Inr out :: ('e, _) outcome) \<and>
    map vn_id (df_nodes out) = [0..<length (s_graphs (vm_script vm)) + sum_list (map (length \<circ> g_nodes) (s_graphs (vm_script vm)))] \<and>
    (\<forall>e \<in> set (df_edges out). ve_from e < length (df_nodes out) \<and> ve_to e < length (df_nodes out))"
proof -
  obtain b where b: "vm_script vm = emit_pools b" "builder_inv b" "b_root b = r" "map g_name (b_graphs b) = map ag_name (r_graphs r)"
    using compile_root_run [OF assms] .
  let ?gs = "s_graphs (vm_script vm)"
  have ok: "\<forall>g \<in> set ?gs. graph_ok (builder_limits b) g" using b(1,2) by (simp add: emit_pools_def builder_inv_def)
  have len: "l_graphs (builder_limits b) = length ?gs"
    using b(1,3,4) by (metis builder_limits_def emit_pools_def length_map limits.select_convs(4) tw_script.select_convs(1))
  obtain out where out: "foldR graph_node \<lparr>df_nodes = [], df_edges = []\<rparr> (enumerate 0 ?gs) = (Inr out :: ('e, _) outcome)" "drawn out"
    "length (df_nodes out) = length ?gs"
    using graph_nodes_drawn [of "\<lparr>df_nodes = [], df_edges = []\<rparr>" 0 ?gs, where ?'e = 'e] by (force simp: drawn_def)
  have ks: "\<forall>k \<in> set [0..<length ?gs]. k < length ?gs" by simp
  have le: "l_graphs (builder_limits b) \<le> length (df_nodes out)" "length ?gs \<le> length (df_nodes out)" using len out(3) by simp_all
  obtain out' where
    o: "foldR (visualize_graph debug ?gs) out [0..<length ?gs] = (Inr out' :: ('e, _) outcome)" "drawn out'"
      "length (df_nodes out') = length ?gs + sum_list (map (\<lambda>k. length (g_nodes (?gs ! k))) [0..<length ?gs])"
    using graphs_drawn [OF ok le out(2) ks, where debug = debug and ?'e = 'e] unfolding out(3) by blast
  have "map (\<lambda>k. length (g_nodes (?gs ! k))) [0..<length ?gs] = map (length \<circ> g_nodes) ?gs" by (rule nth_equalityI) simp_all
  then show ?thesis using out(1) o by (simp add: visualize_df_def drawn_def)
qed

theorem drawing_well_formed_witness:
  "\<exists>out. visualize_df (\<lambda>_. ''node'') (one_graph twice_graph) = (Inr out :: (unit, _) outcome) \<and> map vn_id (df_nodes out) = [0, 1, 2]"
proof -
  have "length (s_graphs (vm_script (one_graph twice_graph))) + sum_list (map (length \<circ> g_nodes) (s_graphs (vm_script (one_graph twice_graph)))) = 3"
    by (simp add: one_graph_def twice_graph_def)
  moreover have "[0..<3] = [0, 1, 2 :: nat]" by (simp add: upt_rec)
  ultimately show ?thesis using drawing_well_formed [OF twice_compiles, of "\<lambda>_. ''node''"] by metis
qed

end
