(* ===== verification/Spec2Isabelle.thy ===== *)
theory Spec2Isabelle
  imports Schema_Termination Planner_Termination Deployments Playground
begin

text \<open>
  A verification library for RefineDB.
\<close>

end
